(* ===== verification/Go_Prelude.thy ===== *)
theory Go_Prelude
  imports Main "HOL-Library.Word" "HOL-Library.Monad_Syntax" "HOL-Library.Multiset"
begin

text \<open>
  The vocabulary that every component of the development shares: Go's machine
  integers, the error values the code returns, the slice primitives of the language
  with their bounds checks, and big-endian access to byte slices.

  Conventions. A run-time panic (an index out of range, a nil pointer, a division by
  zero, an explicit \<open>panic\<close>) is the value \<open>None\<close> of an option; an error
  result \<open>(v, err)\<close> is a value of \<open>go_error + 'a\<close>; a method that
  mutates its receiver returns the new receiver. Indices and lengths (Go's 64-bit
  \<open>int\<close>) are natural numbers, since no slice reaches \<open>2 ^ 63\<close> elements.
\<close>

unbundle bit_operations_syntax

type_synonym u8 = "8 word"
type_synonym u16 = "16 word"
type_synonym u32 = "32 word"
type_synonym u64 = "64 word"
type_synonym byte = u8
type_synonym bytes = "byte list"

text \<open>gVisor's \<open>tcpip.TransportProtocolNumber\<close> is a 32-bit number; the two
  protocols the program forwards are the IANA numbers of TCP and UDP.\<close>

type_synonym proto = u32

abbreviation TCP :: proto where "TCP \<equiv> 6"
abbreviation UDP :: proto where "UDP \<equiv> 17"
abbreviation ICMPv4 :: proto where "ICMPv4 \<equiv> 1"
abbreviation ICMPv6 :: proto where "ICMPv6 \<equiv> 58"

text \<open>The error values of the code. \<open>ErrExt n\<close> is an error handed up unchanged
  from the operating system or from a library.\<close>

datatype go_error =
    ErrExt nat
  | ErrShortBuff nat nat
  | ErrIPVersion int
  | ErrProtocol proto
  | ErrInvalidRemote
  | ErrInvalidPeer
  | ErrNilPeer
  | ErrShortPacket
  | ErrOnlyIPv4
  | ErrMssInvalid int
  | ErrTcpInvalid bytes
  | ErrSynCloseTimeout
  | ErrClosed
  | ErrDeadline
  | ErrCanceled
  | ErrEOF

type_synonym 'a result = "go_error + 'a"

named_theorems slice_simps \<open>the slice primitives of the language, within bounds\<close>
named_theorems inv_intros \<open>preservation of the components' invariants\<close>

section \<open>Slices\<close>

definition go_index :: "'a list \<Rightarrow> nat \<Rightarrow> 'a option" where
  "go_index xs i = (if i < length xs then Some (xs ! i) else None)"

definition go_store :: "'a list \<Rightarrow> nat \<Rightarrow> 'a \<Rightarrow> 'a list option" where
  "go_store xs i v = (if i < length xs then Some (xs[i := v]) else None)"

text \<open>\<open>xs[lo:hi]\<close> of a slice whose capacity is its length.\<close>

definition go_slice :: "'a list \<Rightarrow> nat \<Rightarrow> nat \<Rightarrow> 'a list option" where
  "go_slice xs lo hi =
     (if lo \<le> hi \<and> hi \<le> length xs then Some (take (hi - lo) (drop lo xs)) else None)"

text \<open>\<open>copy(dst, src)\<close>: the new contents of \<open>dst\<close> and the count.\<close>

definition go_copy :: "'a list \<Rightarrow> 'a list \<Rightarrow> 'a list \<times> nat" where
  "go_copy dst src =
     (let n = min (length dst) (length src) in (take n src @ drop n dst, n))"

lemma go_index_Some [slice_simps]: "i < length xs \<Longrightarrow> go_index xs i = Some (xs ! i)"
  by (simp add: go_index_def)

lemma go_store_Some [slice_simps]: "i < length xs \<Longrightarrow> go_store xs i v = Some (xs[i := v])"
  by (simp add: go_store_def)

lemma go_slice_Some [slice_simps]:
  "lo \<le> hi \<Longrightarrow> hi \<le> length xs \<Longrightarrow> go_slice xs lo hi = Some (take (hi - lo) (drop lo xs))"
  by (simp add: go_slice_def)

lemma go_copy_length [simp]: "length (fst (go_copy dst src)) = length dst"
  by (simp add: go_copy_def Let_def)

lemma go_copy_count [simp]: "snd (go_copy dst src) = min (length dst) (length src)"
  by (simp add: go_copy_def Let_def)

section \<open>Map iteration\<close>

text \<open>\<open>range\<close> over a map visits every entry once, in an order the run time
  chooses; the order is an argument of every operation that iterates.\<close>

definition range_of :: "('k \<rightharpoonup> 'v) \<Rightarrow> ('k \<times> 'v) list \<Rightarrow> bool" where
  "range_of m ord \<longleftrightarrow> distinct (map fst ord) \<and> map_of ord = m"

lemma range_of_mem: "range_of m ord \<Longrightarrow> (k, v) \<in> set ord \<longleftrightarrow> m k = Some v"
  by (auto simp: range_of_def)

lemma range_of_empty [simp]: "range_of Map.empty ord \<longleftrightarrow> ord = []"
  by (auto simp: range_of_def)

section \<open>Big-endian access\<close>

definition be16 :: "u8 \<Rightarrow> u8 \<Rightarrow> u16" where
  "be16 a b = push_bit 8 (ucast a) OR ucast b"

definition hi8 :: "u16 \<Rightarrow> u8" where "hi8 w = ucast (drop_bit 8 w)"
definition lo8 :: "u16 \<Rightarrow> u8" where "lo8 w = ucast w"

lemma be16_hi_lo [simp]: "be16 (hi8 w) (lo8 w) = w"
  by (rule bit_word_eqI) (auto simp: be16_def hi8_def lo8_def bit_simps)

lemma hi8_be16 [simp]: "hi8 (be16 a b) = a"
  by (rule bit_word_eqI) (auto simp: be16_def hi8_def bit_simps dest: bit_imp_le_length)

lemma lo8_be16 [simp]: "lo8 (be16 a b) = b"
  by (rule bit_word_eqI) (auto simp: be16_def lo8_def bit_simps)


text \<open>Big-endian bytes of a wider word, and the word they denote.\<close>

definition be_bytes :: "nat \<Rightarrow> 'a::len word \<Rightarrow> bytes" where
  "be_bytes n w = map (\<lambda>k. ucast (drop_bit (8 * (n - 1 - k)) w)) [0..<n]"

definition be_word :: "bytes \<Rightarrow> 'a::len word" where
  "be_word bs = foldl (\<lambda>w b. push_bit 8 w OR ucast b) 0 bs"

lemma length_be_bytes [simp]: "length (be_bytes n w) = n"
  by (simp add: be_bytes_def)

lemma bit_be_word:
  "bit (be_word bs :: 'a::len word) n \<longleftrightarrow>
     n < LENGTH('a) \<and> n < 8 * length bs \<and> bit (rev bs ! (n div 8)) (n mod 8)"
proof (induction bs arbitrary: n rule: rev_induct)
  case Nil
  show ?case by (simp add: be_word_def)
next
  case (snoc b bs)
  have "be_word (bs @ [b]) = (push_bit 8 (be_word bs) OR ucast b :: 'a word)"
    by (simp add: be_word_def)
  moreover have "(n - 8) div 8 = n div 8 - 1" "(n - 8) mod 8 = n mod 8" if "8 \<le> n"
    using that by (auto simp: le_mod_geq div_if)
  ultimately show ?case
    by (cases "n < 8") (auto simp: snoc.IH bit_simps nth_Cons' div_eq_0_iff
        dest: bit_imp_le_length)
qed

lemma be_word_bytes: "LENGTH('a) = 8 * n \<Longrightarrow> be_word (be_bytes n w) = (w :: 'a::len word)"
proof (rule bit_word_eqI)
  fix k assume len: "LENGTH('a) = 8 * n" and k: "k < LENGTH('a)"
  then have "k div 8 < n" by auto
  then have "rev (be_bytes n w) ! (k div 8) = ucast (drop_bit (8 * (k div 8)) w)"
    by (simp add: be_bytes_def rev_nth)
  then show "bit (be_word (be_bytes n w) :: 'a word) k = bit w k"
    using len k by (simp add: bit_be_word bit_simps)
qed

end
