(* ===== verification/Netip.thy ===== *)
theory Netip
  imports Go_Prelude "HOL-Library.Product_Lexorder" "HOL-Library.List_Lexorder" "HOL-Library.Char_ord"
begin

text \<open>
  The address values of Go's standard package \<open>net/netip\<close> as the program uses
  them: \<open>Addr\<close> (invalid zero value, IPv4, IPv6 with a zone) and \<open>AddrPort\<close>,
  with the total order of \<open>Addr.Less\<close> (bit length, then value, then zone). The order
  \<open>less\<close> that \<open>ports/adapter.go\<close> defines on address/port pairs makes
  \<open>addrport\<close> an instance of the library's \<open>linorder\<close>.
\<close>

datatype addr =
    AddrZero
  | Addr4 u8 u8 u8 u8
  | Addr6 "128 word" string

datatype addrport = AddrPort (ap_addr: addr) (ap_port: u16)

section \<open>Addresses\<close>

fun addr_valid :: "addr \<Rightarrow> bool" where
  "addr_valid AddrZero = False"
| "addr_valid _ = True"

fun addr_is4 :: "addr \<Rightarrow> bool" where
  "addr_is4 (Addr4 _ _ _ _) = True"
| "addr_is4 _ = False"

definition ipv4_unspecified :: addr where
  "ipv4_unspecified = Addr4 0 0 0 0"

fun addr_unspecified :: "addr \<Rightarrow> bool" where
  "addr_unspecified AddrZero = False"
| "addr_unspecified (Addr4 a b c d) = (a = 0 \<and> b = 0 \<and> c = 0 \<and> d = 0)"
| "addr_unspecified (Addr6 w z) = (w = 0 \<and> z = [])"

text \<open>\<open>Addr.AsSlice\<close>: the big-endian bytes, \<open>nil\<close> for the zero value.\<close>

fun addr_slice :: "addr \<Rightarrow> bytes" where
  "addr_slice AddrZero = []"
| "addr_slice (Addr4 a b c d) = [a, b, c, d]"
| "addr_slice (Addr6 w z) = be_bytes 16 w"

text \<open>\<open>AddrFromSlice\<close>: four bytes or sixteen, and nothing else.\<close>

definition addr_from_slice :: "bytes \<Rightarrow> addr option" where
  "addr_from_slice bs =
     (if length bs = 4 then Some (Addr4 (bs ! 0) (bs ! 1) (bs ! 2) (bs ! 3))
      else if length bs = 16 then Some (Addr6 (be_word bs) []) else None)"

text \<open>The zone is all that a round trip over a slice loses.\<close>

fun addr_no_zone :: "addr \<Rightarrow> addr" where
  "addr_no_zone (Addr6 w z) = Addr6 w []"
| "addr_no_zone a = a"

lemma addr_from_slice_slice:
  "addr_valid a \<Longrightarrow> addr_from_slice (addr_slice a) = Some (addr_no_zone a)"
  by (cases a) (auto simp: addr_from_slice_def be_word_bytes)

text \<open>\<open>Addr.As4\<close> panics on the zero value and on an IPv6 address that is not
  IPv4-mapped; a mapped address gives its last four bytes.\<close>

definition addr_is4in6 :: "128 word \<Rightarrow> bool" where
  "addr_is4in6 w = (drop_bit 32 w = 0xffff)"

fun addr_as4 :: "addr \<Rightarrow> bytes option" where
  "addr_as4 AddrZero = None"
| "addr_as4 (Addr4 a b c d) = Some [a, b, c, d]"
| "addr_as4 (Addr6 w z) =
     (if addr_is4in6 w
      then Some (map (\<lambda>k. ucast (drop_bit (8 * (3 - k)) w)) [0..<4]) else None)"

fun addr_from4 :: "bytes \<Rightarrow> addr option" where
  "addr_from4 [a, b, c, d] = Some (Addr4 a b c d)"
| "addr_from4 _ = None"

text \<open>\<open>Addr.As16\<close>: an IPv4 address as its IPv4-mapped IPv6 address, zeros for the
  zero value.\<close>

fun addr_as16 :: "addr \<Rightarrow> bytes" where
  "addr_as16 AddrZero = replicate 16 0"
| "addr_as16 (Addr4 a b c d) = replicate 10 0 @ [0xff, 0xff, a, b, c, d]"
| "addr_as16 (Addr6 w z) = be_bytes 16 w"

lemma addr_from4_slice: "addr_is4 a \<Longrightarrow> addr_from4 (addr_slice a) = Some a"
  by (cases a) auto

lemma addr_as4_is4: "addr_is4 a \<Longrightarrow> addr_as4 a = Some (addr_slice a)"
  by (cases a) auto

lemma addr_is4_valid [simp]: "addr_is4 a \<Longrightarrow> addr_valid a"
  by (cases a) auto

section \<open>The order of addresses\<close>

text \<open>\<open>Addr.Compare\<close> compares the bit length, then the 128-bit value, then the zone.
  Addresses of one bit length have equally many bytes, so comparing IPv4 values is
  comparing their bytes lexicographically.\<close>

fun addr_key :: "addr \<Rightarrow> nat \<times> nat list \<times> string" where
  "addr_key AddrZero = (0, [], [])"
| "addr_key (Addr4 a b c d) = (32, [unat a, unat b, unat c, unat d], [])"
| "addr_key (Addr6 w z) = (128, [unat w], z)"

lemma addr_key_inj: "addr_key a = addr_key b \<Longrightarrow> a = b"
  by (cases a; cases b) (auto simp: word_unat_eq_iff)

instantiation addr :: linorder
begin

definition less_addr :: "addr \<Rightarrow> addr \<Rightarrow> bool" where
  "less_addr a b = (addr_key a < addr_key b)"

definition less_eq_addr :: "addr \<Rightarrow> addr \<Rightarrow> bool" where
  "less_eq_addr a b = (addr_key a \<le> addr_key b)"

instance
  by intro_classes
    (auto simp: less_addr_def less_eq_addr_def dest: addr_key_inj order_trans)

end

section \<open>Address/port pairs\<close>

definition ap_valid :: "addrport \<Rightarrow> bool" where
  "ap_valid x = addr_valid (ap_addr x)"

text \<open>\<open>less\<close> of \<open>ports/adapter.go\<close>.\<close>

definition ap_less :: "addrport \<Rightarrow> addrport \<Rightarrow> bool" where
  "ap_less a b =
     (if ap_addr a \<noteq> ap_addr b then ap_addr a < ap_addr b else ap_port a < ap_port b)"

instantiation addrport :: linorder
begin

definition less_addrport :: "addrport \<Rightarrow> addrport \<Rightarrow> bool" where
  "less_addrport a b = ap_less a b"

definition less_eq_addrport :: "addrport \<Rightarrow> addrport \<Rightarrow> bool" where
  "less_eq_addrport a b = (a = b \<or> ap_less a b)"

instance
proof
  fix x y z :: addrport
  show "(x < y) = (x \<le> y \<and> \<not> y \<le> x)"
    by (cases x; cases y) (auto simp: less_addrport_def less_eq_addrport_def ap_less_def)
  show "x \<le> x"
    by (simp add: less_eq_addrport_def)
  show "x \<le> y \<Longrightarrow> y \<le> z \<Longrightarrow> x \<le> z"
    by (auto simp: less_eq_addrport_def ap_less_def split: if_splits)
  show "x \<le> y \<Longrightarrow> y \<le> x \<Longrightarrow> x = y"
    by (auto simp: less_eq_addrport_def ap_less_def split: if_splits)
  show "x \<le> y \<or> y \<le> x"
    by (cases x; cases y) (auto simp: less_eq_addrport_def ap_less_def)
qed

end

lemma addrport_less_iff:
  "AddrPort a p < AddrPort b q \<longleftrightarrow> (if a \<noteq> b then a < b else p < q)"
  by (simp add: less_addrport_def ap_less_def)

lemma addr4_less_iff:
  "Addr4 a b c d < Addr4 a' b' c' d' \<longleftrightarrow> (a, b, c, d) < (a', b', c', d')"
  by (auto simp: less_addr_def word_less_nat_alt word_le_nat_alt word_unat_eq_iff)

lemmas netip_less_simps = addrport_less_iff addr4_less_iff

lemma ap_less_iff [simp]: "ap_less a b \<longleftrightarrow> a < b"
  by (simp add: less_addrport_def)

end
