(* ===== verification/Addr_Set.thy ===== *)
theory Addr_Set
  imports Netip
begin

text \<open>
  \<open>AddrSet\<close> of \<open>ports/adapter.go\<close>: a set of remote addresses kept as a sorted
  slice and searched by bisection (\<open>sort.Search\<close>). The operations are translated
  as they are written; the interface \<open>addr_set\<close> states the set they implement, and
  the port adapter reasons over its interpretation \<open>aset\<close>.
\<close>

section \<open>The interface\<close>

locale addr_set =
  fixes empty :: "'s"
    and has :: "'s \<Rightarrow> 'a \<Rightarrow> bool"
    and add :: "'s \<Rightarrow> 'a \<Rightarrow> 's"
    and del :: "'s \<Rightarrow> 'a \<Rightarrow> 's"
    and size :: "'s \<Rightarrow> nat"
    and elems :: "'s \<Rightarrow> 'a set"
    and inv :: "'s \<Rightarrow> bool"
  assumes inv_empty: "inv empty"
    and elems_empty: "elems empty = {}"
    and finite_elems: "finite (elems s)"
    and has_iff: "inv s \<Longrightarrow> has s a \<longleftrightarrow> a \<in> elems s"
    and inv_add: "inv s \<Longrightarrow> inv (add s a)"
    and elems_add: "inv s \<Longrightarrow> elems (add s a) = insert a (elems s)"
    and inv_del: "inv s \<Longrightarrow> inv (del s a)"
    and elems_del: "inv s \<Longrightarrow> elems (del s a) = elems s - {a}"
    and size_card: "inv s \<Longrightarrow> size s = card (elems s)"
begin

lemma size_zero_iff: "inv s \<Longrightarrow> size s = 0 \<longleftrightarrow> elems s = {}"
  by (simp add: size_card finite_elems)

lemma has_add: "inv s \<Longrightarrow> has (add s a) b \<longleftrightarrow> b = a \<or> has s b"
  by (simp add: has_iff inv_add elems_add)

lemma has_del: "inv s \<Longrightarrow> has (del s a) b \<longleftrightarrow> b \<noteq> a \<and> has s b"
  by (auto simp: has_iff inv_del elems_del)

lemma size_add: "inv s \<Longrightarrow> size (add s a) = (if has s a then size s else Suc (size s))"
  by (simp add: size_card has_iff inv_add elems_add finite_elems insert_absorb)

lemma fold_add:
  assumes "inv s"
  shows "inv (fold (\<lambda>a s. add s a) as s)
    \<and> elems (fold (\<lambda>a s. add s a) as s) = elems s \<union> set as"
  using assms by (induction as arbitrary: s) (auto simp: inv_add elems_add)

end

section \<open>The code\<close>

text \<open>\<open>sort.Search\<close> on the index range \<open>[i, j)\<close>.\<close>

function sort_search :: "(nat \<Rightarrow> bool) \<Rightarrow> nat \<Rightarrow> nat \<Rightarrow> nat" where
  "sort_search f i j =
     (if i < j
      then let h = (i + j) div 2
           in if \<not> f h then sort_search f (h + 1) j else sort_search f i h
      else i)"
  by pat_completeness auto
termination
  by (relation "measure (\<lambda>(f, i, j). j - i)") auto

declare sort_search.simps [simp del]

record AddrSet =
  addrs :: "addrport list"

definition as_empty :: AddrSet where
  "as_empty = \<lparr>addrs = []\<rparr>"

definition as_Find :: "AddrSet \<Rightarrow> addrport \<Rightarrow> int" where
  "as_Find a x =
     (let i = sort_search (\<lambda>i. \<not> ap_less (addrs a ! i) x) 0 (length (addrs a))
      in if i < length (addrs a) \<and> addrs a ! i = x then int i else -1)"

definition as_Has :: "AddrSet \<Rightarrow> addrport \<Rightarrow> bool" where
  "as_Has a x = (as_Find a x \<ge> 0)"

definition as_Add :: "AddrSet \<Rightarrow> addrport \<Rightarrow> AddrSet" where
  "as_Add a x = (if \<not> as_Has a x then a\<lparr>addrs := sort (addrs a @ [x])\<rparr> else a)"

definition as_Del :: "AddrSet \<Rightarrow> addrport \<Rightarrow> AddrSet" where
  "as_Del a x =
     (let i = as_Find a x in
      if i < 0 then a
      else let n = nat i; xs = addrs a;
               moved = take n xs @ fst (go_copy (drop n xs) (drop (n + 1) xs))
           in a\<lparr>addrs := take (length xs - 1) moved\<rparr>)"

definition as_Len :: "AddrSet \<Rightarrow> nat" where
  "as_Len a = length (addrs a)"

section \<open>Bisection\<close>

lemma sort_search_inv:
  assumes "i \<le> j" "j \<le> n"
    and "\<And>k l. k \<le> l \<Longrightarrow> l < n \<Longrightarrow> f k \<Longrightarrow> f l"
    and "\<And>k. k < i \<Longrightarrow> \<not> f k" "\<And>k. j \<le> k \<Longrightarrow> k < n \<Longrightarrow> f k"
  shows "sort_search f i j \<le> n \<and> (\<forall>k < sort_search f i j. \<not> f k)
    \<and> (\<forall>k. sort_search f i j \<le> k \<longrightarrow> k < n \<longrightarrow> f k)"
  using assms
proof (induction f i j rule: sort_search.induct)
  case (1 f i j)
  define h where "h = (i + j) div 2"
  show ?case
  proof (cases "i < j")
    case True
    then have h: "i \<le> h" "h < j" by (auto simp: h_def)
    show ?thesis
    proof (cases "f h")
      case True
      have "sort_search f i h \<le> n \<and> (\<forall>k < sort_search f i h. \<not> f k)
          \<and> (\<forall>k. sort_search f i h \<le> k \<longrightarrow> k < n \<longrightarrow> f k)"
        by (rule "1.IH"(2)[OF \<open>i < j\<close> h_def]) (use True h "1.prems" in auto)
      with True \<open>i < j\<close> show ?thesis
        by (simp add: sort_search.simps [of f i j] Let_def h_def)
    next
      case False
      have low: "\<not> f k" if "k < h + 1" for k
        using "1.prems"(3)[of k h] False that h "1.prems"(2) by fastforce
      have "sort_search f (h + 1) j \<le> n \<and> (\<forall>k < sort_search f (h + 1) j. \<not> f k)
          \<and> (\<forall>k. sort_search f (h + 1) j \<le> k \<longrightarrow> k < n \<longrightarrow> f k)"
        by (rule "1.IH"(1)[OF \<open>i < j\<close> h_def False]) (use low h "1.prems" in auto)
      with False \<open>i < j\<close> show ?thesis
        by (simp add: sort_search.simps [of f i j] Let_def h_def)
    qed
  next
    case False
    then have "sort_search f i j = i" by (simp add: sort_search.simps [of f i j])
    with False "1.prems" show ?thesis by auto
  qed
qed

lemma sort_search_least:
  assumes "\<forall>k l. k \<le> l \<longrightarrow> l < n \<longrightarrow> f k \<longrightarrow> f l"
  shows "sort_search f 0 n \<le> n" "k < sort_search f 0 n \<Longrightarrow> \<not> f k"
    "sort_search f 0 n \<le> k \<Longrightarrow> k < n \<Longrightarrow> f k"
proof -
  have "sort_search f 0 n \<le> n \<and> (\<forall>k < sort_search f 0 n. \<not> f k)
    \<and> (\<forall>k. sort_search f 0 n \<le> k \<longrightarrow> k < n \<longrightarrow> f k)"
    by (rule sort_search_inv [OF le0 le_refl]) (use assms in simp_all)
  then show "sort_search f 0 n \<le> n" "k < sort_search f 0 n \<Longrightarrow> \<not> f k"
    "sort_search f 0 n \<le> k \<Longrightarrow> k < n \<Longrightarrow> f k" by blast+
qed

section \<open>The set it implements\<close>

definition as_inv :: "AddrSet \<Rightarrow> bool" where
  "as_inv a = (sorted (addrs a) \<and> distinct (addrs a))"

definition as_elems :: "AddrSet \<Rightarrow> addrport set" where
  "as_elems a = set (addrs a)"

lemma as_Find_pos:
  assumes "as_inv a" "n < length (addrs a)" "addrs a ! n = x"
  shows "as_Find a x = int n"
proof -
  let ?xs = "addrs a" let ?f = "\<lambda>i. \<not> ap_less (?xs ! i) x"
  let ?r = "sort_search ?f 0 (length ?xs)"
  have srt: "sorted ?xs" and dst: "distinct ?xs" using assms(1) by (auto simp: as_inv_def)
  have mono: "\<forall>k l. k \<le> l \<longrightarrow> l < length ?xs \<longrightarrow> ?f k \<longrightarrow> ?f l"
    using sorted_nth_mono [OF srt] by fastforce
  note least = sort_search_least [of "length ?xs" ?f, OF mono]
  have "?f n" using assms(3) by simp
  then have "?r \<le> n" using least(2) [of n] leI by blast
  moreover have "n \<le> ?r"
  proof (rule ccontr)
    assume "\<not> n \<le> ?r"
    then have r: "?r < n" by simp
    with assms(2) have "?f ?r" by (intro least(3)) simp_all
    moreover have "?xs ! ?r \<le> ?xs ! n" "?xs ! ?r \<noteq> ?xs ! n"
      using r assms(2) sorted_nth_mono [OF srt] dst by (auto simp: nth_eq_iff_index_eq)
    ultimately show False using assms(3) by auto
  qed
  ultimately have "?r = n" by simp
  with assms(2,3) show ?thesis by (simp add: as_Find_def)
qed

lemma as_Find_cases:
  assumes "as_inv a"
  obtains (found) n where "n < length (addrs a)" "addrs a ! n = x" "as_Find a x = int n"
  | (missing) "x \<notin> as_elems a" "as_Find a x = -1"
proof (cases "x \<in> set (addrs a)")
  case True
  then show ?thesis using as_Find_pos [OF assms] found by (auto simp: in_set_conv_nth)
next
  case False
  then have "as_Find a x = -1" by (auto simp: as_Find_def Let_def dest: nth_mem)
  with False missing show ?thesis by (auto simp: as_elems_def)
qed

lemma as_Has_iff: "as_inv a \<Longrightarrow> as_Has a x \<longleftrightarrow> x \<in> as_elems a"
  by (erule as_Find_cases [of a x]) (auto simp: as_Has_def as_elems_def)

lemma as_Add_correct:
  assumes "as_inv a"
  shows "as_inv (as_Add a x)" "as_elems (as_Add a x) = insert x (as_elems a)"
  using assms
  by (auto simp: as_Add_def as_Has_iff as_inv_def as_elems_def)

lemma as_Del_addrs:
  assumes "n < length (addrs a)" "as_Find a x = int n"
  shows "addrs (as_Del a x) = take n (addrs a) @ drop (n + 1) (addrs a)"
  using assms
  by (cases "n = length (addrs a) - 1") (auto simp: as_Del_def go_copy_def Let_def min_def)

lemma as_Del_correct:
  assumes "as_inv a"
  shows "as_inv (as_Del a x) \<and> as_elems (as_Del a x) = as_elems a - {x}"
  using assms
proof (cases rule: as_Find_cases [of a x])
  case (found n)
  let ?xs = "addrs a"
  have xs: "?xs = take n ?xs @ x # drop (n + 1) ?xs"
    using found(1,2) by (metis id_take_nth_drop Suc_eq_plus1)
  have d: "addrs (as_Del a x) = take n ?xs @ drop (n + 1) ?xs"
    by (rule as_Del_addrs [OF found(1,3)])
  have "sorted (take n ?xs @ x # drop (n + 1) ?xs)"
    "distinct (take n ?xs @ x # drop (n + 1) ?xs)"
    using assms xs by (simp_all add: as_inv_def)
  moreover have "set ?xs = set (take n ?xs @ x # drop (n + 1) ?xs)" using xs by simp
  ultimately show ?thesis
    by (auto simp: as_inv_def as_elems_def d sorted_append)
next
  case missing
  then show ?thesis using assms by (simp add: as_Del_def)
qed

interpretation aset: addr_set as_empty as_Has as_Add as_Del as_Len as_elems as_inv
proof unfold_locales
  show "as_inv as_empty" "as_elems as_empty = {}"
    by (simp_all add: as_inv_def as_elems_def as_empty_def)
  show "finite (as_elems s)" for s by (simp add: as_elems_def)
  show "as_Len s = card (as_elems s)" if "as_inv s" for s
    using that by (simp add: as_Len_def as_elems_def as_inv_def distinct_card)
qed (simp_all add: as_Has_iff as_Add_correct as_Del_correct)

end
