(* ===== verification/Port_Manager.thy ===== *)
theory Port_Manager
  imports Netip
begin

text \<open>
  \<open>Manager\<close> of \<open>ports/manager.go\<close> and \<open>setFilterAll\<close> of
  \<open>ports/ports_linux.go\<close>: the sockets that hold the local ports of the proxy.

  The operating system is outside the program. Its open sockets are an explicit set of
  listeners, passed through every operation, and what a call answers is an argument of
  the operation: \<open>listen_answer\<close> for \<open>net.ListenTCP\<close>/\<open>net.ListenUDP\<close>
  and the calls that follow it, a function \<open>cl\<close> for the error of \<open>Close\<close>.
  \<open>listen_ok\<close> is the documented behaviour of binding port 0: the kernel picks
  an unprivileged port that no open socket of the protocol holds. The assertions that
  the code makes under \<open>debug.Debug()\<close> only are not modelled.
\<close>

datatype listener = Listener (l_proto: proto) (l_port: u16)

type_synonym sockets = "listener set"

section \<open>setFilterAll\<close>

text \<open>The answers of \<open>SyscallConn\<close>, \<open>Control\<close>, \<open>bpf.Assemble\<close> and
  \<open>SetsockoptSockFprog\<close>; the last two run inside the closure that \<open>Control\<close> calls.\<close>

record filter_answer =
  fa_syscall :: "go_error option"
  fa_control :: "go_error option"
  fa_assemble :: "go_error option"
  fa_sockopt :: "go_error option"

definition setFilterAll :: "filter_answer \<Rightarrow> go_error option" where
  "setFilterAll f =
     (case fa_syscall f of Some e \<Rightarrow> Some e
      | None \<Rightarrow>
         (let e = (case fa_assemble f of Some e \<Rightarrow> Some e | None \<Rightarrow> fa_sockopt f)
          in case fa_control f of Some err \<Rightarrow> Some err | None \<Rightarrow> e))"

section \<open>The manager\<close>

record Manager =
  tcpAddr :: bytes
  tcp :: "u16 \<rightharpoonup> listener"
  udpAddr :: bytes
  udp :: "u16 \<rightharpoonup> listener"

record listen_answer =
  la_listen :: "listener result"
  la_filter :: filter_answer
  la_parse :: "go_error option"

definition NewMgr :: "addr \<Rightarrow> Manager option" where
  "NewMgr a =
     (if \<not> addr_valid a then None
      else Some \<lparr>tcpAddr = addr_slice a, tcp = Map.empty,
                 udpAddr = addr_slice a, udp = Map.empty\<rparr>)"

definition GetTCPPort ::
  "Manager \<Rightarrow> sockets \<Rightarrow> listen_answer \<Rightarrow> Manager \<times> sockets \<times> u16 result" where
  "GetTCPPort p os ans =
     (case la_listen ans of Inl err \<Rightarrow> (p, os, Inl err)
      | Inr l \<Rightarrow>
         (let os = insert l os in
          case setFilterAll (la_filter ans) of Some err \<Rightarrow> (p, os, Inl err)
          | None \<Rightarrow>
             (case la_parse ans of Some err \<Rightarrow> (p, os, Inl err)
              | None \<Rightarrow> (p\<lparr>tcp := (tcp p)(l_port l \<mapsto> l)\<rparr>, os, Inr (l_port l)))))"

definition DelTCPPort ::
  "Manager \<Rightarrow> sockets \<Rightarrow> (listener \<Rightarrow> go_error option) \<Rightarrow> u16
    \<Rightarrow> Manager \<times> sockets \<times> go_error option" where
  "DelTCPPort p os cl port =
     (let l = tcp p port; p = p\<lparr>tcp := (tcp p)(port := None)\<rparr> in
      case l of None \<Rightarrow> (p, os, None) | Some l \<Rightarrow> (p, os - {l}, cl l))"

definition GetUDPPort ::
  "Manager \<Rightarrow> sockets \<Rightarrow> listen_answer \<Rightarrow> Manager \<times> sockets \<times> u16 result" where
  "GetUDPPort p os ans =
     (case la_listen ans of Inl err \<Rightarrow> (p, os, Inl err)
      | Inr c \<Rightarrow>
         (let os = insert c os in
          case setFilterAll (la_filter ans) of Some err \<Rightarrow> (p, os, Inl err)
          | None \<Rightarrow>
             (case la_parse ans of Some err \<Rightarrow> (p, os, Inl err)
              | None \<Rightarrow> (p\<lparr>udp := (udp p)(l_port c \<mapsto> c)\<rparr>, os, Inr (l_port c)))))"

definition DelUDPPort ::
  "Manager \<Rightarrow> sockets \<Rightarrow> (listener \<Rightarrow> go_error option) \<Rightarrow> u16
    \<Rightarrow> Manager \<times> sockets \<times> go_error option" where
  "DelUDPPort p os cl port =
     (let l = udp p port; p = p\<lparr>udp := (udp p)(port := None)\<rparr> in
      case l of None \<Rightarrow> (p, os, None) | Some l \<Rightarrow> (p, os - {l}, cl l))"

definition mgr_Addr :: "Manager \<Rightarrow> addr option" where
  "mgr_Addr p = addr_from_slice (tcpAddr p)"

section \<open>Invariant\<close>

text \<open>Every recorded listener is an open socket of its protocol, filed under its port.\<close>

definition mgr_inv :: "Manager \<Rightarrow> sockets \<Rightarrow> bool" where
  "mgr_inv p os \<longleftrightarrow>
     (\<forall>k l. tcp p k = Some l \<longrightarrow> l = Listener TCP k \<and> l \<in> os \<and> 1024 < k)
   \<and> (\<forall>k l. udp p k = Some l \<longrightarrow> l = Listener UDP k \<and> l \<in> os \<and> 1024 < k)"

definition listen_ok :: "proto \<Rightarrow> sockets \<Rightarrow> listen_answer \<Rightarrow> bool" where
  "listen_ok pr os ans \<longleftrightarrow>
     (case la_listen ans of Inl _ \<Rightarrow> True
      | Inr l \<Rightarrow> l \<notin> os \<and> l_proto l = pr \<and> 1024 < l_port l)"

lemma mgr_invI:
  assumes "\<And>k l. tcp p k = Some l \<Longrightarrow> l = Listener TCP k \<and> l \<in> os \<and> 1024 < k"
    and "\<And>k l. udp p k = Some l \<Longrightarrow> l = Listener UDP k \<and> l \<in> os \<and> 1024 < k"
  shows "mgr_inv p os"
  using assms by (auto simp: mgr_inv_def)

lemma mgr_tcpD: "mgr_inv p os \<Longrightarrow> tcp p k = Some l \<Longrightarrow> l = Listener TCP k \<and> l \<in> os \<and> 1024 < k"
  and mgr_udpD: "mgr_inv p os \<Longrightarrow> udp p k = Some l \<Longrightarrow> l = Listener UDP k \<and> l \<in> os \<and> 1024 < k"
  by (auto simp: mgr_inv_def)

lemma listen_okD:
  "listen_ok pr os ans \<Longrightarrow> la_listen ans = Inr l \<Longrightarrow>
     l = Listener pr (l_port l) \<and> Listener pr (l_port l) \<notin> os \<and> 1024 < l_port l"
  by (cases l) (auto simp: listen_ok_def)

lemma NewMgr_inv: "NewMgr a = Some p \<Longrightarrow> mgr_inv p os"
  by (auto simp: NewMgr_def mgr_inv_def split: if_splits)

lemma NewMgr_Addr: "addr_valid a \<Longrightarrow> map_option mgr_Addr (NewMgr a) = Some (Some (addr_no_zone a))"
  by (simp add: NewMgr_def mgr_Addr_def addr_from_slice_slice)

lemma setFilterAll_None:
  "setFilterAll f = None \<longleftrightarrow>
     fa_syscall f = None \<and> fa_assemble f = None \<and> fa_sockopt f = None \<and> fa_control f = None"
  by (auto simp: setFilterAll_def split: option.splits)

text \<open>What a successful call did. A port handed out is new: no entry of the manager had it.\<close>

lemma GetTCPPort_fresh:
  assumes "mgr_inv p os" "listen_ok TCP os ans" "GetTCPPort p os ans = (p', os', Inr port)"
  shows "tcp p port = None \<and> p' = p\<lparr>tcp := (tcp p)(port \<mapsto> Listener TCP port)\<rparr>
    \<and> os' = insert (Listener TCP port) os \<and> 1024 < port"
proof -
  from assms(3) obtain l where l: "la_listen ans = Inr l" "port = l_port l"
    "p' = p\<lparr>tcp := (tcp p)(l_port l \<mapsto> l)\<rparr>" "os' = insert l os"
    by (auto simp: GetTCPPort_def Let_def split: sum.splits option.splits)
  with listen_okD [OF assms(2) l(1)] mgr_tcpD [OF assms(1), of port] show ?thesis
    by (cases "tcp p port") auto
qed

lemma GetUDPPort_fresh:
  assumes "mgr_inv p os" "listen_ok UDP os ans" "GetUDPPort p os ans = (p', os', Inr port)"
  shows "udp p port = None \<and> p' = p\<lparr>udp := (udp p)(port \<mapsto> Listener UDP port)\<rparr>
    \<and> os' = insert (Listener UDP port) os \<and> 1024 < port"
proof -
  from assms(3) obtain l where l: "la_listen ans = Inr l" "port = l_port l"
    "p' = p\<lparr>udp := (udp p)(l_port l \<mapsto> l)\<rparr>" "os' = insert l os"
    by (auto simp: GetUDPPort_def Let_def split: sum.splits option.splits)
  with listen_okD [OF assms(2) l(1)] mgr_udpD [OF assms(1), of port] show ?thesis
    by (cases "udp p port") auto
qed

lemma GetTCPPort_err: "GetTCPPort p os ans = (p', os', Inl e) \<Longrightarrow> p' = p \<and> os \<subseteq> os'"
  by (auto simp: GetTCPPort_def Let_def split: sum.splits option.splits)

lemma GetUDPPort_err: "GetUDPPort p os ans = (p', os', Inl e) \<Longrightarrow> p' = p \<and> os \<subseteq> os'"
  by (auto simp: GetUDPPort_def Let_def split: sum.splits option.splits)

lemma mgr_inv_mono: "mgr_inv p os \<Longrightarrow> os \<subseteq> os' \<Longrightarrow> mgr_inv p os'"
  by (auto simp: mgr_inv_def)

lemma GetTCPPort_inv [inv_intros]:
  assumes "mgr_inv p os" "listen_ok TCP os ans" "GetTCPPort p os ans = (p', os', r)"
  shows "mgr_inv p' os'"
proof (cases r)
  case (Inl e)
  with assms GetTCPPort_err [of p os ans p' os' e] mgr_inv_mono [of p os os'] show ?thesis by simp
next
  case (Inr port)
  then have eq: "p' = p\<lparr>tcp := (tcp p)(port \<mapsto> Listener TCP port)\<rparr>"
      "os' = insert (Listener TCP port) os" "1024 < port"
    using GetTCPPort_fresh [OF assms(1,2)] assms(3) by simp_all
  show ?thesis unfolding eq(1,2)
    by (rule mgr_invI)
      (use eq(3) in \<open>auto dest: mgr_tcpD [OF assms(1)] mgr_udpD [OF assms(1)] split: if_splits\<close>)
qed

lemma GetUDPPort_inv [inv_intros]:
  assumes "mgr_inv p os" "listen_ok UDP os ans" "GetUDPPort p os ans = (p', os', r)"
  shows "mgr_inv p' os'"
proof (cases r)
  case (Inl e)
  with assms GetUDPPort_err [of p os ans p' os' e] mgr_inv_mono [of p os os'] show ?thesis by simp
next
  case (Inr port)
  then have eq: "p' = p\<lparr>udp := (udp p)(port \<mapsto> Listener UDP port)\<rparr>"
      "os' = insert (Listener UDP port) os" "1024 < port"
    using GetUDPPort_fresh [OF assms(1,2)] assms(3) by simp_all
  show ?thesis unfolding eq(1,2)
    by (rule mgr_invI)
      (use eq(3) in \<open>auto dest: mgr_tcpD [OF assms(1)] mgr_udpD [OF assms(1)] split: if_splits\<close>)
qed

text \<open>Deleting forgets the entry and closes exactly its socket.\<close>

lemma DelTCPPort_eq:
  "mgr_inv p os \<Longrightarrow> DelTCPPort p os cl port =
     (p\<lparr>tcp := (tcp p)(port := None)\<rparr>,
      if port \<in> dom (tcp p) then os - {Listener TCP port} else os,
      if port \<in> dom (tcp p) then cl (Listener TCP port) else None)"
  by (auto simp: DelTCPPort_def Let_def dest: mgr_tcpD split: option.splits)

lemma DelUDPPort_eq:
  "mgr_inv p os \<Longrightarrow> DelUDPPort p os cl port =
     (p\<lparr>udp := (udp p)(port := None)\<rparr>,
      if port \<in> dom (udp p) then os - {Listener UDP port} else os,
      if port \<in> dom (udp p) then cl (Listener UDP port) else None)"
  by (auto simp: DelUDPPort_def Let_def dest: mgr_udpD split: option.splits)

lemma DelTCPPort_inv [inv_intros]:
  "mgr_inv p os \<Longrightarrow> DelTCPPort p os cl port = (p', os', r) \<Longrightarrow> mgr_inv p' os'"
  by (auto simp: DelTCPPort_eq intro!: mgr_invI dest: mgr_tcpD mgr_udpD split: if_splits)

lemma DelUDPPort_inv [inv_intros]:
  "mgr_inv p os \<Longrightarrow> DelUDPPort p os cl port = (p', os', r) \<Longrightarrow> mgr_inv p' os'"
  by (auto simp: DelUDPPort_eq intro!: mgr_invI dest: mgr_tcpD mgr_udpD split: if_splits)

end
