(* ===== verification/Port_Adapter.thy ===== *)
theory Port_Adapter
  imports Addr_Set Port_Manager
begin

text \<open>
  \<open>Adapter\<close> of \<open>ports/adapter.go\<close>: local ports shared between links to
  different remote addresses, so that one port serves many links as long as no two of
  them have the same protocol and the same remote.

  The state of an operation is the adapter with the open sockets of the system. What
  the adapter promises its client, the link manager, is the interface
  \<open>port_allocator\<close>: \<open>GetPort\<close> returns a triple (protocol, port, remote) that
  nobody holds, and \<open>DelPort\<close> releases exactly one triple.
\<close>

section \<open>The interface\<close>

fun del_all ::
  "('s \<Rightarrow> 'c \<Rightarrow> proto \<Rightarrow> u16 \<Rightarrow> addrport \<Rightarrow> ('s \<times> go_error option) option)
    \<Rightarrow> 's \<Rightarrow> 'c \<Rightarrow> (proto \<times> u16 \<times> addrport) list \<Rightarrow> 's option" where
  "del_all del s c [] = Some s"
| "del_all del s c ((pr, p, r) # xs) =
     (case del s c pr p r of None \<Rightarrow> None | Some (s', _) \<Rightarrow> del_all del s' c xs)"

locale port_allocator =
  fixes get :: "'s \<Rightarrow> 'e \<Rightarrow> proto \<Rightarrow> addrport \<Rightarrow> ('s \<times> u16 result) option"
    and del :: "'s \<Rightarrow> 'c \<Rightarrow> proto \<Rightarrow> u16 \<Rightarrow> addrport \<Rightarrow> ('s \<times> go_error option) option"
    and used :: "'s \<Rightarrow> (proto \<times> u16 \<times> addrport) set"
    and inv :: "'s \<Rightarrow> bool"
    and env :: "'s \<Rightarrow> proto \<Rightarrow> 'e \<Rightarrow> bool"
  assumes get_total: "inv s \<Longrightarrow> env s pr e \<Longrightarrow> pr = TCP \<or> pr = UDP \<Longrightarrow> get s e pr r \<noteq> None"
    and get_ok: "inv s \<Longrightarrow> env s pr e \<Longrightarrow> pr = TCP \<or> pr = UDP \<Longrightarrow> get s e pr r = Some (s', Inr p) \<Longrightarrow>
      inv s' \<and> (pr, p, r) \<notin> used s \<and> used s' = insert (pr, p, r) (used s)"
    and get_err: "inv s \<Longrightarrow> env s pr e \<Longrightarrow> get s e pr r = Some (s', Inl err) \<Longrightarrow>
      inv s' \<and> used s' = used s"
    and del_ok: "inv s \<Longrightarrow> (pr, p, r) \<in> used s \<Longrightarrow>
      \<exists>s' err. del s c pr p r = Some (s', err) \<and> inv s' \<and> used s' = used s - {(pr, p, r)}"
begin

lemma del_all_ok:
  assumes "inv s" "set xs \<subseteq> used s" "distinct xs"
  shows "\<exists>s'. del_all del s c xs = Some s' \<and> inv s' \<and> used s' = used s - set xs"
  using assms
proof (induction xs arbitrary: s)
  case Nil
  then show ?case by simp
next
  case (Cons x xs)
  obtain pr p r where x: "x = (pr, p, r)" by (cases x)
  from Cons.prems obtain s' err where s': "del s c pr p r = Some (s', err)" "inv s'"
    "used s' = used s - {(pr, p, r)}"
    using del_ok [of s pr p r c] x by auto
  with Cons.prems have "set xs \<subseteq> used s'" by (auto simp: x)
  with Cons.IH [OF s'(2)] Cons.prems(3) s' show ?case by (auto simp: x)
qed

lemma get_del:
  assumes "inv s" "env s pr e" "pr = TCP \<or> pr = UDP" "get s e pr r = Some (s', Inr p)"
  shows "\<exists>s'' err. del s' c pr p r = Some (s'', err) \<and> inv s'' \<and> used s'' = used s"
  using get_ok [OF assms] del_ok [of s' pr p r c] by auto

end

section \<open>The code\<close>

datatype portKey = PortKey (pk_proto: u8) (pk_port: u16)

record Adapter =
  mgr :: Manager
  ports :: "portKey \<rightharpoonup> AddrSet"

type_synonym ap_state = "Adapter \<times> sockets"

definition NewAdapter :: "addr \<Rightarrow> Adapter option" where
  "NewAdapter a = map_option (\<lambda>m. \<lparr>mgr = m, ports = Map.empty\<rparr>) (NewMgr a)"

text \<open>\<open>GetPort\<close> in the three steps that take the lock separately: the search for a
  port to reuse, under the read lock; the allocation, under no lock of the adapter; the
  update, under the write lock.\<close>

fun getport_scan :: "(portKey \<times> AddrSet) list \<Rightarrow> proto \<Rightarrow> addrport \<Rightarrow> u16" where
  "getport_scan [] proto remote = 0"
| "getport_scan ((k, v) # rest) proto remote =
     (if pk_proto k \<noteq> ucast proto then getport_scan rest proto remote
      else if \<not> as_Has v remote then pk_port k
      else getport_scan rest proto remote)"

definition getport_alloc ::
  "ap_state \<Rightarrow> listen_answer \<Rightarrow> proto \<Rightarrow> ap_state \<times> u16 result" where
  "getport_alloc s ans proto =
     (let (a, os) = s in
      if proto = TCP then
        (let (m, os, r) = GetTCPPort (mgr a) os ans in ((a\<lparr>mgr := m\<rparr>, os), r))
      else if proto = UDP then
        (let (m, os, r) = GetUDPPort (mgr a) os ans in ((a\<lparr>mgr := m\<rparr>, os), r))
      else (s, Inl (ErrProtocol proto)))"

definition getport_record :: "Adapter \<Rightarrow> proto \<Rightarrow> u16 \<Rightarrow> addrport \<Rightarrow> Adapter" where
  "getport_record a proto port remote =
     (let pk = PortKey (ucast proto) port in
      case ports a pk of
        Some as \<Rightarrow> a\<lparr>ports := (ports a)(pk \<mapsto> as_Add as remote)\<rparr>
      | None \<Rightarrow> a\<lparr>ports := (ports a)(pk \<mapsto> as_Add as_empty remote)\<rparr>)"

definition GetPort ::
  "ap_state \<Rightarrow> (portKey \<times> AddrSet) list \<times> listen_answer \<Rightarrow> proto \<Rightarrow> addrport
    \<Rightarrow> (ap_state \<times> u16 result) option" where
  "GetPort s env proto remote =
     (if \<not> ap_valid remote then Some (s, Inl ErrInvalidRemote)
      else let port = getport_scan (fst env) proto remote;
               (s, r) = (if port = 0 then getport_alloc s (snd env) proto else (s, Inr port))
           in case r of Inl err \<Rightarrow> Some (s, Inl err)
              | Inr port \<Rightarrow>
                  (let a = getport_record (fst s) proto port remote in
                   if proto = TCP \<and> port = 443 then None
                   else Some ((a, snd s), Inr port)))"

definition DelPort ::
  "ap_state \<Rightarrow> (listener \<Rightarrow> go_error option) \<Rightarrow> proto \<Rightarrow> u16 \<Rightarrow> addrport
    \<Rightarrow> (ap_state \<times> go_error option) option" where
  "DelPort s cl proto port remote =
     (let (a, os) = s; pk = PortKey (ucast proto) port in
      case ports a pk of None \<Rightarrow> None
      | Some v \<Rightarrow>
         (let v = as_Del v remote in
          if as_Len v \<noteq> 0
          then Some ((a\<lparr>ports := (ports a)(pk \<mapsto> v)\<rparr>, os), None)
          else let a = a\<lparr>ports := (ports a)(pk := None)\<rparr> in
            if proto = TCP then
              (let (m, os, e) = DelTCPPort (mgr a) os cl port in Some ((a\<lparr>mgr := m\<rparr>, os), e))
            else if proto = UDP then
              (let (m, os, e) = DelUDPPort (mgr a) os cl port in Some ((a\<lparr>mgr := m\<rparr>, os), e))
            else Some ((a, os), Some (ErrProtocol proto))))"

definition ap_Addr :: "Adapter \<Rightarrow> addr option" where
  "ap_Addr a = mgr_Addr (mgr a)"

fun close_ports ::
  "Manager \<Rightarrow> sockets \<Rightarrow> (listener \<Rightarrow> go_error option) \<Rightarrow> portKey list \<Rightarrow> go_error option
    \<Rightarrow> Manager \<times> sockets \<times> go_error option" where
  "close_ports m os cl [] err = (m, os, err)"
| "close_ports m os cl (pk # pks) err =
     (let (m, os, e) =
        (if pk_proto pk = ucast TCP then DelTCPPort m os cl (pk_port pk)
         else if pk_proto pk = ucast UDP then DelUDPPort m os cl (pk_port pk)
         else (m, os, None))
      in close_ports m os cl pks (if e \<noteq> None then e else err))"

definition ap_Close ::
  "ap_state \<Rightarrow> (portKey \<times> AddrSet) list \<Rightarrow> (listener \<Rightarrow> go_error option)
    \<Rightarrow> ap_state \<times> go_error option" where
  "ap_Close s ord cl =
     (let (a, os) = s; (m, os, err) = close_ports (mgr a) os cl (map fst ord) None
      in ((\<lparr>mgr = m, ports = Map.empty\<rparr>, os), err))"

section \<open>Invariant and abstraction\<close>

text \<open>Every key has a nonempty address set and a listener of its protocol and port, and
  every listener of the manager has a key: no socket stays open without a user.\<close>

definition adapter_inv :: "ap_state \<Rightarrow> bool" where
  "adapter_inv s \<longleftrightarrow> mgr_inv (mgr (fst s)) (snd s)
   \<and> (\<forall>k v. ports (fst s) k = Some v \<longrightarrow>
        as_inv v \<and> as_elems v \<noteq> {} \<and> (pk_proto k = 6 \<or> pk_proto k = 17))
   \<and> (\<forall>p. ports (fst s) (PortKey 6 p) = None \<longleftrightarrow> tcp (mgr (fst s)) p = None)
   \<and> (\<forall>p. ports (fst s) (PortKey 17 p) = None \<longleftrightarrow> udp (mgr (fst s)) p = None)"

definition used :: "ap_state \<Rightarrow> (proto \<times> u16 \<times> addrport) set" where
  "used s = {(pr, p, r). (pr = TCP \<or> pr = UDP)
     \<and> (\<exists>v. ports (fst s) (PortKey (ucast pr) p) = Some v \<and> r \<in> as_elems v)}"

definition get_env :: "ap_state \<Rightarrow> proto \<Rightarrow> (portKey \<times> AddrSet) list \<times> listen_answer \<Rightarrow> bool" where
  "get_env s pr e \<longleftrightarrow> range_of (ports (fst s)) (fst e) \<and> listen_ok pr (snd s) (snd e)"

lemma adapter_invI:
  assumes "mgr_inv (mgr a) os"
    and "\<And>k v. ports a k = Some v \<Longrightarrow>
          as_inv v \<and> as_elems v \<noteq> {} \<and> (pk_proto k = 6 \<or> pk_proto k = 17)"
    and "\<And>p. ports a (PortKey 6 p) = None \<longleftrightarrow> tcp (mgr a) p = None"
    and "\<And>p. ports a (PortKey 17 p) = None \<longleftrightarrow> udp (mgr a) p = None"
  shows "adapter_inv (a, os)"
  using assms by (auto simp: adapter_inv_def)

lemma adapter_invD:
  assumes "adapter_inv (a, os)"
  shows "mgr_inv (mgr a) os"
    and "ports a k = Some v \<Longrightarrow> as_inv v" and "ports a k = Some v \<Longrightarrow> as_elems v \<noteq> {}"
    and "ports a k = Some v \<Longrightarrow> pk_proto k = 6 \<or> pk_proto k = 17"
    and "ports a (PortKey 6 p) = None \<longleftrightarrow> tcp (mgr a) p = None"
    and "ports a (PortKey 17 p) = None \<longleftrightarrow> udp (mgr a) p = None"
  using assms by (auto simp: adapter_inv_def)

lemma adapter_key_port:
  assumes "adapter_inv (a, os)" "ports a k = Some v"
  shows "1024 < pk_port k"
proof -
  obtain pr p where k: "k = PortKey pr p" by (cases k)
  note D = adapter_invD [OF assms(1)]
  from D(4) [OF assms(2)] k consider "pr = 6" | "pr = 17" by auto
  then show ?thesis
  proof cases
    case 1
    with D(5) [of p] assms(2) k obtain l where "tcp (mgr a) p = Some l" by auto
    with mgr_tcpD [OF D(1)] k show ?thesis by simp
  next
    case 2
    with D(6) [of p] assms(2) k obtain l where "udp (mgr a) p = Some l" by auto
    with mgr_udpD [OF D(1)] k show ?thesis by simp
  qed
qed

lemma usedI: "ports a (PortKey (ucast pr) p) = Some v \<Longrightarrow> r \<in> as_elems v \<Longrightarrow>
    pr = TCP \<or> pr = UDP \<Longrightarrow> (pr, p, r) \<in> used (a, os)"
  by (auto simp: used_def)

lemma usedE:
  assumes "(pr, p, r) \<in> used (a, os)"
  obtains v where "ports a (PortKey (ucast pr) p) = Some v" "r \<in> as_elems v" "pr = TCP \<or> pr = UDP"
  using assms by (auto simp: used_def)

lemma used_iff: "ports a (PortKey (ucast pr) p) = Some v \<Longrightarrow> pr = TCP \<or> pr = UDP \<Longrightarrow>
    (pr, p, r) \<in> used (a, os) \<longleftrightarrow> r \<in> as_elems v"
  by (auto simp: used_def)

text \<open>The abstraction depends on the address sets only; one updated key changes the
  triples of its protocol and port.\<close>

lemma used_update:
  assumes "pr = TCP \<or> pr = UDP" "ports a' = (ports a)(PortKey (ucast pr) p := x)"
  shows "(pr', p', r) \<in> used (a', os') \<longleftrightarrow>
    (if pr' = pr \<and> p' = p then (\<exists>v. x = Some v \<and> r \<in> as_elems v)
     else (pr', p', r) \<in> used (a, os))"
proof -
  have "ucast pr' = (ucast pr :: u8) \<longleftrightarrow> pr' = pr" if "pr' = TCP \<or> pr' = UDP"
    using that assms(1) by auto
  with assms show ?thesis by (auto simp: used_def)
qed

lemma used_remove:
  assumes "pr = TCP \<or> pr = UDP" "ports a (PortKey (ucast pr) p) = Some v"
    and "ports a' = (ports a)(PortKey (ucast pr) p := x)"
    and "\<And>q. (\<exists>w. x = Some w \<and> q \<in> as_elems w) \<longleftrightarrow> q \<in> as_elems v \<and> q \<noteq> r"
  shows "used (a', os') = used (a, os) - {(pr, p, r)}"
proof (rule set_eqI)
  fix y :: "proto \<times> u16 \<times> addrport"
  obtain pr' p' q where y: "y = (pr', p', q)" by (cases y)
  show "y \<in> used (a', os') \<longleftrightarrow> y \<in> used (a, os) - {(pr, p, r)}"
    unfolding y used_update [OF assms(1,3), where os = os]
    using used_iff [OF assms(2,1), of q os] assms(4) by auto
qed

lemma NewAdapter_inv: "NewAdapter a = Some ap \<Longrightarrow> adapter_inv (ap, os) \<and> used (ap, os) = {}"
  by (auto simp: NewAdapter_def adapter_inv_def used_def NewMgr_def mgr_inv_def split: if_splits)

section \<open>The three steps of GetPort\<close>

lemma getport_scan_found:
  "getport_scan ord pr r \<noteq> 0 \<Longrightarrow>
     \<exists>v. (PortKey (ucast pr) (getport_scan ord pr r), v) \<in> set ord \<and> \<not> as_Has v r"
proof (induction ord pr r rule: getport_scan.induct)
  case (2 k v rest proto remote)
  then show ?case by (cases k) (auto split: if_splits)
qed simp

lemma getport_scan_none:
  "getport_scan ord pr r = 0 \<Longrightarrow> (k, v) \<in> set ord \<Longrightarrow> pk_proto k = ucast pr \<Longrightarrow>
     \<forall>k v. (k, v) \<in> set ord \<longrightarrow> pk_port k \<noteq> 0 \<Longrightarrow> as_Has v r"
  by (induction ord pr r rule: getport_scan.induct) (auto split: if_splits)

lemma getport_record_ports:
  "ports (getport_record a pr p r) =
     (ports a)(PortKey (ucast pr) p \<mapsto>
        as_Add (case ports a (PortKey (ucast pr) p) of None \<Rightarrow> as_empty | Some v \<Rightarrow> v) r)"
  "mgr (getport_record a pr p r) = mgr a"
  by (auto simp: getport_record_def Let_def split: option.splits)

lemma ucast_proto [simp]: "ucast (6 :: proto) = (6 :: u8)" "ucast (17 :: proto) = (17 :: u8)"
  by simp_all

text \<open>Recording a triple at a port that has a listener.\<close>

lemma record_correct:
  assumes inv: "mgr_inv (mgr a) os"
    and keys: "\<And>k v. ports a k = Some v \<Longrightarrow>
          as_inv v \<and> as_elems v \<noteq> {} \<and> (pk_proto k = 6 \<or> pk_proto k = 17)"
    and tcp: "\<And>q. (ports a (PortKey 6 q) = None \<and> \<not> (pr = TCP \<and> q = p)) \<longleftrightarrow> tcp (mgr a) q = None"
    and udp: "\<And>q. (ports a (PortKey 17 q) = None \<and> \<not> (pr = UDP \<and> q = p)) \<longleftrightarrow> udp (mgr a) q = None"
    and pr: "pr = TCP \<or> pr = UDP"
  shows "adapter_inv (getport_record a pr p r, os)
    \<and> used (getport_record a pr p r, os) = insert (pr, p, r) (used (a, os))"
proof -
  let ?k = "PortKey (ucast pr) p"
  let ?old = "case ports a ?k of None \<Rightarrow> as_empty | Some v \<Rightarrow> v"
  have old: "as_inv ?old" using keys aset.inv_empty by (auto split: option.splits)
  define w where "w = as_Add ?old r"
  have w: "as_inv w" "as_elems w = insert r (as_elems ?old)"
    using aset.inv_add [OF old] aset.elems_add [OF old] by (simp_all add: w_def)
  have ports': "ports (getport_record a pr p r) = (ports a)(?k \<mapsto> w)"
    by (simp add: getport_record_ports w_def)
  note mgr' = getport_record_ports(2) [of a pr p r]
  have "adapter_inv (getport_record a pr p r, os)"
  proof (rule adapter_invI)
    show "mgr_inv (mgr (getport_record a pr p r)) os" by (simp add: inv mgr')
    show "as_inv v \<and> as_elems v \<noteq> {} \<and> (pk_proto k = 6 \<or> pk_proto k = 17)"
      if "ports (getport_record a pr p r) k = Some v" for k v
    proof (cases "k = ?k")
      case True
      then have "v = w" using that by (simp add: ports')
      with True w pr show ?thesis by auto
    next
      case False
      with that show ?thesis by (intro keys) (simp add: ports')
    qed
    show "ports (getport_record a pr p r) (PortKey 6 q) = None
      \<longleftrightarrow> tcp (mgr (getport_record a pr p r)) q = None" for q
      using tcp [of q] pr by (auto simp: ports' mgr')
    show "ports (getport_record a pr p r) (PortKey 17 q) = None
      \<longleftrightarrow> udp (mgr (getport_record a pr p r)) q = None" for q
      using udp [of q] pr by (auto simp: ports' mgr')
  qed
  moreover have "used (getport_record a pr p r, os) = insert (pr, p, r) (used (a, os))"
    using w(2) pr
    by (auto simp: used_def ports' aset.elems_empty split: option.splits if_splits)
  ultimately show ?thesis ..
qed

text \<open>The allocation step: a new listener, and no key for its port yet.\<close>

lemma alloc_correct:
  assumes inv: "adapter_inv (a, os)" and ok: "listen_ok pr os ans" and pr: "pr = TCP \<or> pr = UDP"
    and al: "getport_alloc (a, os) ans pr = ((a', os'), Inr p)"
  shows "ports a' = ports a \<and> mgr_inv (mgr a') os' \<and> ports a (PortKey (ucast pr) p) = None
    \<and> 1024 < p \<and> os' = insert (Listener pr p) os
    \<and> (\<forall>q. tcp (mgr a') q = None \<longleftrightarrow> tcp (mgr a) q = None \<and> \<not> (pr = TCP \<and> q = p))
    \<and> (\<forall>q. udp (mgr a') q = None \<longleftrightarrow> udp (mgr a) q = None \<and> \<not> (pr = UDP \<and> q = p))"
  using pr
proof
  assume P: "pr = TCP"
  note D = adapter_invD [OF inv]
  from al P obtain m where g: "GetTCPPort (mgr a) os ans = (m, os', Inr p)" "a' = a\<lparr>mgr := m\<rparr>"
    by (auto simp: getport_alloc_def split: prod.splits)
  from GetTCPPort_fresh [OF D(1) ok [unfolded P] g(1)] GetTCPPort_inv [OF D(1) ok [unfolded P] g(1)]
  show ?thesis using D(5) [of p] g(2) P by auto
next
  assume P: "pr = UDP"
  note D = adapter_invD [OF inv]
  from al P obtain m where g: "GetUDPPort (mgr a) os ans = (m, os', Inr p)" "a' = a\<lparr>mgr := m\<rparr>"
    by (auto simp: getport_alloc_def split: prod.splits)
  from GetUDPPort_fresh [OF D(1) ok [unfolded P] g(1)] GetUDPPort_inv [OF D(1) ok [unfolded P] g(1)]
  show ?thesis using D(6) [of p] g(2) P by auto
qed

lemma alloc_error:
  assumes inv: "adapter_inv (a, os)"
    and al: "getport_alloc (a, os) ans pr = ((a', os'), Inl e)"
  shows "a' = a \<and> os \<subseteq> os' \<and> adapter_inv (a', os')"
proof -
  have "a' = a \<and> os \<subseteq> os'"
    using al GetTCPPort_err [of "mgr a" os ans] GetUDPPort_err [of "mgr a" os ans]
    by (fastforce simp: getport_alloc_def split: prod.splits if_splits)
  then show ?thesis using inv mgr_inv_mono by (auto simp: adapter_inv_def)
qed

section \<open>GetPort and DelPort implement the interface\<close>

lemma GetPort_cases:
  assumes inv: "adapter_inv s" and env: "get_env s pr e"
  obtains (bad) "\<not> ap_valid r" "GetPort s e pr r = Some (s, Inl ErrInvalidRemote)"
  | (err) s' er where "getport_alloc s (snd e) pr = (s', Inl er)" "GetPort s e pr r = Some (s', Inl er)"
  | (reuse) p v where "p \<noteq> 0" "p = getport_scan (fst e) pr r"
      "ports (fst s) (PortKey (ucast pr) p) = Some v" "\<not> as_Has v r" "1024 < p"
      "GetPort s e pr r = Some ((getport_record (fst s) pr p r, snd s), Inr p)"
  | (alloc) s' p where "getport_alloc s (snd e) pr = (s', Inr p)"
      "GetPort s e pr r =
         (if pr = TCP \<and> p = 443 then None
          else Some ((getport_record (fst s') pr p r, snd s'), Inr p))"
      "getport_scan (fst e) pr r = 0"
proof (cases "ap_valid r")
  case False
  then show ?thesis using bad by (simp add: GetPort_def)
next
  case True
  obtain a os where s: "s = (a, os)" by (cases s)
  show ?thesis
  proof (cases "getport_scan (fst e) pr r = 0")
    case True
    obtain s' res where "getport_alloc s (snd e) pr = (s', res)"
      by (cases "getport_alloc s (snd e) pr")
    with \<open>ap_valid r\<close> True err alloc show ?thesis
      by (cases res) (auto simp: GetPort_def Let_def)
  next
    case False
    let ?p = "getport_scan (fst e) pr r"
    from getport_scan_found [OF False] env obtain v where v: "\<not> as_Has v r"
      "ports (fst s) (PortKey (ucast pr) ?p) = Some v"
      by (auto simp: get_env_def range_of_mem)
    then have big: "1024 < ?p" using adapter_key_port [of a os] inv s by fastforce
    then have "?p \<noteq> 443" by auto
    then have "GetPort s e pr r = Some ((getport_record (fst s) pr ?p r, snd s), Inr ?p)"
      using False \<open>ap_valid r\<close> by (simp add: GetPort_def Let_def)
    with reuse False v big show ?thesis by blast
  qed
qed

lemma GetPort_get_ok:
  assumes inv: "adapter_inv s" and env: "get_env s pr e" and pr: "pr = TCP \<or> pr = UDP"
    and get: "GetPort s e pr r = Some (s', Inr p)"
  shows "adapter_inv s' \<and> (pr, p, r) \<notin> used s \<and> used s' = insert (pr, p, r) (used s)"
proof -
  obtain a os where s: "s = (a, os)" by (cases s)
  note D = adapter_invD [OF inv [unfolded s]]
  from inv env show ?thesis
  proof (cases rule: GetPort_cases [where r = r])
    case (reuse q v)
    then have q: "q = p" "s' = (getport_record a pr p r, os)" using get s by auto
    have v: "ports a (PortKey (ucast pr) p) = Some v" using reuse(3) s q by simp
    then have live: "pr = TCP \<Longrightarrow> tcp (mgr a) p \<noteq> None" "pr = UDP \<Longrightarrow> udp (mgr a) p \<noteq> None"
      using D(5) [of p] D(6) [of p] by auto
    have "adapter_inv (getport_record a pr p r, os)
        \<and> used (getport_record a pr p r, os) = insert (pr, p, r) (used (a, os))"
      by (rule record_correct [OF D(1)]) (use D(2-6) live pr in auto)
    moreover have "(pr, p, r) \<notin> used s"
      using reuse(4) v D(2) [OF v] s by (auto simp: aset.has_iff elim!: usedE)
    ultimately show ?thesis using q s by simp
  next
    case (alloc t q)
    then have q: "q = p" "s' = (getport_record (fst t) pr p r, snd t)"
      using get by (auto split: if_splits)
    obtain a' os' where t: "t = (a', os')" by (cases t)
    from env s have ok: "listen_ok pr os (snd e)" by (simp add: get_env_def)
    from alloc(1) q t s have al: "getport_alloc (a, os) (snd e) pr = ((a', os'), Inr p)" by simp
    note A = alloc_correct [OF inv [unfolded s] ok pr al]
    then have same: "used (a', os') = used s" using s by (simp add: used_def)
    have "adapter_inv (getport_record a' pr p r, os')
        \<and> used (getport_record a' pr p r, os') = insert (pr, p, r) (used (a', os'))"
      by (rule record_correct [OF _ _ _ _ pr]) (use A D(2-6) in auto)
    moreover have "(pr, p, r) \<notin> used s" using A s by (auto simp: used_def)
    ultimately show ?thesis using q t same by simp
  qed (use get in auto)
qed


text \<open>When the system grants the socket, no call for a valid remote fails.\<close>

definition listen_grants :: "listen_answer \<Rightarrow> bool" where
  "listen_grants ans \<longleftrightarrow> (\<exists>l. la_listen ans = Inr l) \<and> setFilterAll (la_filter ans) = None \<and> la_parse ans = None"

lemma GetPort_granted:
  "GetPort s e pr r = Some (s', Inl err) \<Longrightarrow> ap_valid r \<Longrightarrow> pr = TCP \<or> pr = UDP \<Longrightarrow>
    getport_scan (fst e) pr r = 0 \<and> \<not> listen_grants (snd e)"
  by (auto simp: GetPort_def getport_alloc_def GetTCPPort_def GetUDPPort_def listen_grants_def Let_def
      split: if_splits prod.splits)

lemma GetPort_get_err:
  assumes "adapter_inv s" "get_env s pr e" "GetPort s e pr r = Some (s', Inl er)"
  shows "adapter_inv s' \<and> used s' = used s"
  using assms(1,2)
proof (cases rule: GetPort_cases [where r = r])
  case (err t x)
  obtain a os where s: "s = (a, os)" by (cases s)
  obtain a' os' where t: "t = (a', os')" by (cases t)
  from err assms(3) have "s' = t" by simp
  moreover have "a' = a \<and> adapter_inv (a', os')"
    using alloc_error [of a os "snd e" pr a' os' x] assms(1) err(1) s t by auto
  ultimately show ?thesis using s t by (auto simp: used_def)
qed (use assms in \<open>auto split: if_splits\<close>)

lemma GetPort_get_total:
  assumes "adapter_inv s" "get_env s pr e" "pr = TCP \<or> pr = UDP"
  shows "GetPort s e pr r \<noteq> None"
  using assms(1,2)
proof (cases rule: GetPort_cases [where r = r])
  case (alloc t p)
  obtain a os where s: "s = (a, os)" by (cases s)
  obtain a' os' where t: "t = (a', os')" by (cases t)
  have "1024 < p"
    using alloc_correct [of a os pr "snd e" a' os' p] assms alloc(1) s t by (simp add: get_env_def)
  then have "p \<noteq> 443" by auto
  with alloc(2) show ?thesis by simp
qed auto

lemma DelPort_correct:
  assumes inv: "adapter_inv s" and mem: "(pr, p, r) \<in> used s"
  shows "\<exists>s' err. DelPort s cl pr p r = Some (s', err) \<and> adapter_inv s' \<and> used s' = used s - {(pr, p, r)}
    \<and> (if \<exists>q. (pr, p, q) \<in> used s' then snd s' = snd s \<and> err = None
       else snd s' = snd s - {Listener pr p} \<and> err = cl (Listener pr p))"
proof -
  obtain a os where s: "s = (a, os)" by (cases s)
  note D = adapter_invD [OF inv [unfolded s]]
  let ?k = "PortKey (ucast pr) p"
  from mem s obtain v where v: "ports a ?k = Some v" "r \<in> as_elems v" and pr: "pr = TCP \<or> pr = UDP"
    by (auto elim: usedE)
  define w where "w = as_Del v r"
  have w: "as_inv w" "as_elems w = as_elems v - {r}"
    using aset.inv_del [OF D(2) [OF v(1)]] aset.elems_del [OF D(2) [OF v(1)]] by (simp_all add: w_def)
  have len: "as_Len w = 0 \<longleftrightarrow> as_elems w = {}" using aset.size_zero_iff [OF w(1)] .
  have live: "pr = TCP \<Longrightarrow> tcp (mgr a) p \<noteq> None" "pr = UDP \<Longrightarrow> udp (mgr a) p \<noteq> None"
    using D(5) [of p] D(6) [of p] v(1) by auto
  show ?thesis
  proof (cases "as_Len w = 0")
    case False
    have "adapter_inv (a\<lparr>ports := (ports a)(?k \<mapsto> w)\<rparr>, os)"
    proof (rule adapter_invI)
      show "as_inv u \<and> as_elems u \<noteq> {} \<and> (pk_proto k = 6 \<or> pk_proto k = 17)"
        if "ports (a\<lparr>ports := (ports a)(?k \<mapsto> w)\<rparr>) k = Some u" for k u
        using that D(2-4) [of k u] w(1) len False pr by (auto split: if_splits)
    qed (use D(1,5,6) live pr in auto)
    moreover have "used (a\<lparr>ports := (ports a)(?k \<mapsto> w)\<rparr>, os) = used s - {(pr, p, r)}"
      unfolding s using w(2)
      by (intro used_remove [OF pr v(1)]) auto
    moreover have "DelPort s cl pr p r = Some ((a\<lparr>ports := (ports a)(?k \<mapsto> w)\<rparr>, os), None)"
      using v(1) False by (simp add: DelPort_def s w_def Let_def)
    moreover have "\<exists>q. (pr, p, q) \<in> used s - {(pr, p, r)}"
      using len w False used_iff [OF v(1) pr] s by auto
    ultimately show ?thesis using s by auto
  next
    case True
    then have e: "as_elems v = {r}" using v(2) w len by auto
    define a' where "a' = a\<lparr>ports := (ports a)(?k := None)\<rparr>"
    have gone: "(pr, p, q) \<notin> used s - {(pr, p, r)}" for q
      using e used_iff [OF v(1) pr] s by auto
    from pr show ?thesis
    proof
      assume P: "pr = TCP"
      obtain m os' er where d: "DelTCPPort (mgr a) os cl p = (m, os', er)"
        by (cases "DelTCPPort (mgr a) os cl p")
      have m: "m = (mgr a)\<lparr>tcp := (tcp (mgr a))(p := None)\<rparr>" "os' = os - {Listener pr p}"
          "er = cl (Listener pr p)"
        using d DelTCPPort_eq [OF D(1)] live P by (auto split: if_splits)
      have "adapter_inv (a'\<lparr>mgr := m\<rparr>, os')"
        by (rule adapter_invI) (use D DelTCPPort_inv [OF D(1) d] P in
            \<open>auto simp: a'_def m(1) split: if_splits\<close>)
      moreover have "used (a'\<lparr>mgr := m\<rparr>, os') = used s - {(pr, p, r)}"
        unfolding s using e by (intro used_remove [OF pr v(1)]) (auto simp: a'_def)
      moreover have "DelPort s cl pr p r = Some ((a'\<lparr>mgr := m\<rparr>, os'), er)"
        using v(1) True d P by (simp add: DelPort_def s w_def Let_def a'_def)
      ultimately show ?thesis using gone m(2,3) s by auto
    next
      assume P: "pr = UDP"
      obtain m os' er where d: "DelUDPPort (mgr a) os cl p = (m, os', er)"
        by (cases "DelUDPPort (mgr a) os cl p")
      have m: "m = (mgr a)\<lparr>udp := (udp (mgr a))(p := None)\<rparr>" "os' = os - {Listener pr p}"
          "er = cl (Listener pr p)"
        using d DelUDPPort_eq [OF D(1)] live P by (auto split: if_splits)
      have "adapter_inv (a'\<lparr>mgr := m\<rparr>, os')"
        by (rule adapter_invI) (use D DelUDPPort_inv [OF D(1) d] P in
            \<open>auto simp: a'_def m(1) split: if_splits\<close>)
      moreover have "used (a'\<lparr>mgr := m\<rparr>, os') = used s - {(pr, p, r)}"
        unfolding s using e by (intro used_remove [OF pr v(1)]) (auto simp: a'_def)
      moreover have "DelPort s cl pr p r = Some ((a'\<lparr>mgr := m\<rparr>, os'), er)"
        using v(1) True d P by (simp add: DelPort_def s w_def Let_def a'_def)
      ultimately show ?thesis using gone m(2,3) s by auto
    qed
  qed
qed

lemma DelPort_del_ok:
  assumes "adapter_inv s" "(pr, p, r) \<in> used s"
  shows "\<exists>s' err. DelPort s cl pr p r = Some (s', err) \<and> adapter_inv s' \<and> used s' = used s - {(pr, p, r)}"
  using DelPort_correct [OF assms, of cl] by blast

interpretation pa: port_allocator GetPort DelPort used adapter_inv get_env
  by unfold_locales
    (rule GetPort_get_total GetPort_get_ok GetPort_get_err DelPort_del_ok; assumption)+

section \<open>Close\<close>

lemma close_ports_inv:
  "mgr_inv m os \<Longrightarrow> close_ports m os cl pks err = (m', os', err') \<Longrightarrow> mgr_inv m' os'"
  by (induction m os cl pks err rule: close_ports.induct)
    (auto split: prod.splits if_splits dest: DelTCPPort_inv DelUDPPort_inv)

lemma close_ports_correct:
  assumes "mgr_inv m os" "close_ports m os cl pks err = (m', os', err')"
  shows "tcp m' p = (if PortKey 6 p \<in> set pks then None else tcp m p)
    \<and> udp m' p = (if PortKey 17 p \<in> set pks then None else udp m p)
    \<and> (l \<in> os' \<longleftrightarrow> l \<in> os
        \<and> \<not> (l_proto l = TCP \<and> PortKey 6 (l_port l) \<in> set pks \<and> tcp m (l_port l) \<noteq> None)
        \<and> \<not> (l_proto l = UDP \<and> PortKey 17 (l_port l) \<in> set pks \<and> udp m (l_port l) \<noteq> None))"
  using assms
proof (induction pks arbitrary: m os err)
  case Nil
  then show ?case by auto
next
  case (Cons pk pks)
  obtain pr q where pk: "pk = PortKey pr q" by (cases pk)
  consider (t) "pr = 6" | (u) "pr = 17" | (o) "pr \<noteq> 6" "pr \<noteq> 17" by blast
  then show ?case
  proof cases
    case t
    obtain m1 os1 e1 where d: "DelTCPPort m os cl q = (m1, os1, e1)"
      by (cases "DelTCPPort m os cl q")
    with Cons.prems(2) t pk
    have c: "close_ports m1 os1 cl pks (if e1 \<noteq> None then e1 else err) = (m', os', err')" by simp
    from d DelTCPPort_eq [OF Cons.prems(1)]
    have m1: "tcp m1 = (tcp m)(q := None)" "udp m1 = udp m"
      "os1 = (if tcp m q \<noteq> None then os - {Listener TCP q} else os)" by (auto split: if_splits)
    from Cons.IH [OF DelTCPPort_inv [OF Cons.prems(1) d] c] show ?thesis
      unfolding m1 pk t by (cases l) auto
  next
    case u
    obtain m1 os1 e1 where d: "DelUDPPort m os cl q = (m1, os1, e1)"
      by (cases "DelUDPPort m os cl q")
    with Cons.prems(2) u pk
    have c: "close_ports m1 os1 cl pks (if e1 \<noteq> None then e1 else err) = (m', os', err')" by simp
    from d DelUDPPort_eq [OF Cons.prems(1)]
    have m1: "tcp m1 = tcp m" "udp m1 = (udp m)(q := None)"
      "os1 = (if udp m q \<noteq> None then os - {Listener UDP q} else os)" by (auto split: if_splits)
    from Cons.IH [OF DelUDPPort_inv [OF Cons.prems(1) d] c] show ?thesis
      unfolding m1 pk u by (cases l) auto
  next
    case o
    with Cons.prems(2) pk have "close_ports m os cl pks err = (m', os', err')" by simp
    from Cons.IH [OF Cons.prems(1) this] o show ?thesis unfolding pk by auto
  qed
qed

lemma ap_Close_correct:
  assumes inv: "adapter_inv s" and ord: "range_of (ports (fst s)) ord"
    and c: "ap_Close s ord cl = (s', err)"
  shows "adapter_inv s' \<and> used s' = {} \<and> tcp (mgr (fst s')) = Map.empty
    \<and> udp (mgr (fst s')) = Map.empty
    \<and> snd s' = snd s - (ran (tcp (mgr (fst s))) \<union> ran (udp (mgr (fst s))))"
proof -
  obtain a os where s: "s = (a, os)" by (cases s)
  note D = adapter_invD [OF inv [unfolded s]]
  obtain m os' where cp: "close_ports (mgr a) os cl (map fst ord) None = (m, os', err)"
    "s' = (\<lparr>mgr = m, ports = Map.empty\<rparr>, os')"
    using c s by (auto simp: ap_Close_def split: prod.splits)
  have keys: "k \<in> set (map fst ord) \<longleftrightarrow> ports a k \<noteq> None" for k
    using ord s map_of_eq_None_iff [of ord k] by (auto simp: range_of_def)
  note C = close_ports_correct [OF D(1) cp(1)]
  have none: "tcp m = Map.empty" "udp m = Map.empty"
    using C D(5,6) keys by (auto simp: fun_eq_iff)
  have held: "l \<in> ran (tcp (mgr a)) \<union> ran (udp (mgr a)) \<longleftrightarrow>
      (l_proto l = TCP \<and> tcp (mgr a) (l_port l) \<noteq> None \<or> l_proto l = UDP \<and> udp (mgr a) (l_port l) \<noteq> None)" for l
    using mgr_tcpD [OF D(1)] mgr_udpD [OF D(1)] by (cases l) (fastforce simp: ran_def)
  have "os' = os - (ran (tcp (mgr a)) \<union> ran (udp (mgr a)))"
  proof (rule set_eqI)
    fix l show "l \<in> os' \<longleftrightarrow> l \<in> os - (ran (tcp (mgr a)) \<union> ran (udp (mgr a)))"
      unfolding Diff_iff held using C [of _ l] D(5,6) keys by auto
  qed
  moreover have "adapter_inv s'"
    using close_ports_inv [OF D(1) cp(1)] none by (auto simp: adapter_inv_def cp(2))
  ultimately show ?thesis using none s by (simp add: cp(2) used_def)
qed

end
