(* ===== verification/Port_Race.thy ===== *)
theory Port_Race
  imports Port_Adapter
begin

text \<open>
  \<open>GetPort\<close> of \<open>ports/adapter.go\<close> called by several goroutines. The function
  releases the adapter's lock between its three steps (search under the read lock,
  allocation, update under the write lock), so calls interleave at those points; a step
  relation over the shared adapter and one program counter per goroutine describes all
  interleavings. The goroutines are the connections of the server, which add links
  without a common lock.
\<close>

datatype gp_pc =
    GpStart proto addrport
  | GpScanned proto addrport u16
  | GpGot proto addrport u16
  | GpDone proto addrport u16
  | GpFailed proto addrport

record gp_state =
  gp_ap :: ap_state
  gp_pcs :: "nat \<Rightarrow> gp_pc"

inductive gp_step :: "gp_state \<Rightarrow> gp_state \<Rightarrow> bool" where
  scan: "gp_pcs s i = GpStart pr r \<Longrightarrow> range_of (ports (fst (gp_ap s))) ord \<Longrightarrow>
     gp_step s (s\<lparr>gp_pcs := (gp_pcs s)(i := GpScanned pr r (getport_scan ord pr r))\<rparr>)"
| reuse: "gp_pcs s i = GpScanned pr r p \<Longrightarrow> p \<noteq> 0 \<Longrightarrow>
     gp_step s (s\<lparr>gp_pcs := (gp_pcs s)(i := GpGot pr r p)\<rparr>)"
| alloc: "gp_pcs s i = GpScanned pr r 0 \<Longrightarrow> listen_ok pr (snd (gp_ap s)) ans \<Longrightarrow>
     getport_alloc (gp_ap s) ans pr = (ap, Inr p) \<Longrightarrow>
     gp_step s (s\<lparr>gp_ap := ap, gp_pcs := (gp_pcs s)(i := GpGot pr r p)\<rparr>)"
| alloc_err: "gp_pcs s i = GpScanned pr r 0 \<Longrightarrow> listen_ok pr (snd (gp_ap s)) ans \<Longrightarrow>
     getport_alloc (gp_ap s) ans pr = (ap, Inl e) \<Longrightarrow>
     gp_step s (s\<lparr>gp_ap := ap, gp_pcs := (gp_pcs s)(i := GpFailed pr r)\<rparr>)"
| store: "gp_pcs s i = GpGot pr r p \<Longrightarrow>
     gp_step s (s\<lparr>gp_ap := (getport_record (fst (gp_ap s)) pr p r, snd (gp_ap s)),
                  gp_pcs := (gp_pcs s)(i := GpDone pr r p)\<rparr>)"

inductive_cases gp_stepE: "gp_step s t"

definition gp_init :: "gp_state \<Rightarrow> bool" where
  "gp_init s \<longleftrightarrow> adapter_inv (gp_ap s)
     \<and> (\<forall>i. \<exists>pr r. gp_pcs s i = GpStart pr r \<and> (pr = TCP \<or> pr = UDP))"

inductive gp_reach :: "gp_state \<Rightarrow> gp_state \<Rightarrow> bool" for s0 where
  start: "gp_reach s0 s0"
| step: "gp_reach s0 s \<Longrightarrow> gp_step s t \<Longrightarrow> gp_reach s0 t"

section \<open>What every interleaving keeps\<close>

text \<open>The listeners of a protocol.\<close>

definition live :: "Adapter \<Rightarrow> proto \<Rightarrow> u16 \<Rightarrow> bool" where
  "live a pr p \<longleftrightarrow> (if pr = TCP then tcp (mgr a) p \<noteq> None else udp (mgr a) p \<noteq> None)"

definition pc_ok :: "ap_state \<Rightarrow> gp_pc \<Rightarrow> bool" where
  "pc_ok ap pc \<longleftrightarrow>
     (case pc of GpStart pr r \<Rightarrow> pr = TCP \<or> pr = UDP
      | GpScanned pr r p \<Rightarrow> (pr = TCP \<or> pr = UDP) \<and> (p \<noteq> 0 \<longrightarrow> live (fst ap) pr p)
      | GpGot pr r p \<Rightarrow> (pr = TCP \<or> pr = UDP) \<and> live (fst ap) pr p
      | GpDone pr r p \<Rightarrow> live (fst ap) pr p \<and> (pr, p, r) \<in> used ap
      | GpFailed pr r \<Rightarrow> True)"

definition keys_ok :: "Adapter \<Rightarrow> bool" where
  "keys_ok a \<longleftrightarrow> (\<forall>k v. ports a k = Some v \<longrightarrow> as_inv v \<and>
     (pk_proto k = 6 \<and> live a TCP (pk_port k) \<or> pk_proto k = 17 \<and> live a UDP (pk_port k)))"

definition gp_inv :: "gp_state \<Rightarrow> bool" where
  "gp_inv s \<longleftrightarrow> mgr_inv (mgr (fst (gp_ap s))) (snd (gp_ap s)) \<and> keys_ok (fst (gp_ap s))
     \<and> (\<forall>i. pc_ok (gp_ap s) (gp_pcs s i))"

lemma gp_init_inv: "gp_init s \<Longrightarrow> gp_inv s"
proof -
  assume init: "gp_init s"
  obtain a os where ap: "gp_ap s = (a, os)" by (cases "gp_ap s")
  from init ap have inv: "adapter_inv (a, os)" by (simp add: gp_init_def)
  note D = adapter_invD [OF inv]
  have "keys_ok a" unfolding keys_ok_def
  proof (intro allI impI)
    fix k v assume k: "ports a k = Some v"
    obtain pr p where pk: "k = PortKey pr p" by (cases k)
    show "as_inv v \<and> (pk_proto k = 6 \<and> live a TCP (pk_port k) \<or> pk_proto k = 17 \<and> live a UDP (pk_port k))"
      using D(2,4) [OF k] D(5) [of p] D(6) [of p] k pk by (auto simp: live_def)
  qed
  moreover have "pc_ok (gp_ap s) (gp_pcs s i)" for i
    using init by (auto simp: gp_init_def pc_ok_def split: gp_pc.splits) (metis gp_pc.distinct gp_pc.inject)+
  ultimately show "gp_inv s" using D(1) by (simp add: gp_inv_def ap)
qed

text \<open>A step that keeps the listeners and the recorded triples keeps the other goroutines.\<close>

lemma pc_ok_mono:
  assumes "pc_ok ap pc" "\<And>pr p. live (fst ap) pr p \<Longrightarrow> live (fst ap') pr p" "used ap \<subseteq> used ap'"
  shows "pc_ok ap' pc"
  using assms by (auto simp: pc_ok_def split: gp_pc.splits)

lemma gp_inv_update:
  assumes "gp_inv s" "mgr_inv (mgr (fst ap)) (snd ap)" "keys_ok (fst ap)"
    and "\<And>pr p. live (fst (gp_ap s)) pr p \<Longrightarrow> live (fst ap) pr p" "used (gp_ap s) \<subseteq> used ap"
    and "pc_ok ap pc"
  shows "gp_inv (s\<lparr>gp_ap := ap, gp_pcs := (gp_pcs s)(i := pc)\<rparr>)"
  using assms pc_ok_mono [of "gp_ap s" _ ap] by (auto simp: gp_inv_def)

lemma gp_inv_pc:
  "gp_inv s \<Longrightarrow> pc_ok (gp_ap s) pc \<Longrightarrow> gp_inv (s\<lparr>gp_pcs := (gp_pcs s)(i := pc)\<rparr>)"
  by (auto simp: gp_inv_def)

lemma alloc_inv:
  assumes mgr: "mgr_inv (mgr (fst ap)) (snd ap)" and keys: "keys_ok (fst ap)"
    and ok: "listen_ok pr (snd ap) ans" and al: "getport_alloc ap ans pr = (ap', r)"
  shows "mgr_inv (mgr (fst ap')) (snd ap') \<and> keys_ok (fst ap')
    \<and> (\<forall>pr p. live (fst ap) pr p \<longrightarrow> live (fst ap') pr p) \<and> used ap' = used ap
    \<and> (case r of Inl _ \<Rightarrow> True | Inr p \<Rightarrow> (pr = TCP \<or> pr = UDP) \<and> live (fst ap') pr p)"
proof -
  obtain a os where ap: "ap = (a, os)" by (cases ap)
  consider (t) "pr = TCP" | (u) "pr = UDP" | (o) "pr \<noteq> TCP" "pr \<noteq> UDP" by blast
  then show ?thesis
  proof cases
    case t
    obtain m os' where g: "GetTCPPort (mgr a) os ans = (m, os', r)" "ap' = (a\<lparr>mgr := m\<rparr>, os')"
      using al t ap by (auto simp: getport_alloc_def split: prod.splits)
    have inv: "mgr_inv (mgr a) os" and ok': "listen_ok TCP os ans" using mgr ok ap t by simp_all
    have "m = mgr a \<or> (\<exists>p. r = Inr p \<and> m = (mgr a)\<lparr>tcp := (tcp (mgr a))(p \<mapsto> Listener TCP p)\<rparr>)"
      using GetTCPPort_err [of "mgr a" os ans m os'] GetTCPPort_fresh [OF inv ok'] g(1)
      by (cases r) auto
    then show ?thesis
      using GetTCPPort_inv [OF inv ok' g(1)] keys t GetTCPPort_fresh [OF inv ok', of m os'] g(1)
      by (auto simp: g(2) ap used_def keys_ok_def live_def split: sum.splits if_splits)
  next
    case u
    obtain m os' where g: "GetUDPPort (mgr a) os ans = (m, os', r)" "ap' = (a\<lparr>mgr := m\<rparr>, os')"
      using al u ap by (auto simp: getport_alloc_def split: prod.splits)
    have inv: "mgr_inv (mgr a) os" and ok': "listen_ok UDP os ans" using mgr ok ap u by simp_all
    have "m = mgr a \<or> (\<exists>p. r = Inr p \<and> m = (mgr a)\<lparr>udp := (udp (mgr a))(p \<mapsto> Listener UDP p)\<rparr>)"
      using GetUDPPort_err [of "mgr a" os ans m os'] GetUDPPort_fresh [OF inv ok'] g(1)
      by (cases r) auto
    then show ?thesis
      using GetUDPPort_inv [OF inv ok' g(1)] keys u GetUDPPort_fresh [OF inv ok', of m os'] g(1)
      by (auto simp: g(2) ap used_def keys_ok_def live_def split: sum.splits if_splits)
  next
    case o
    with al have "ap' = ap" "r = Inl (ErrProtocol pr)" by (auto simp: getport_alloc_def split: prod.splits)
    with mgr keys show ?thesis by simp
  qed
qed

lemma record_inv:
  assumes keys: "keys_ok a" and pr: "pr = TCP \<or> pr = UDP" and lv: "live a pr p"
  shows "keys_ok (getport_record a pr p r)
    \<and> insert (pr, p, r) (used (a, os)) = used (getport_record a pr p r, os)"
proof -
  let ?k = "PortKey (ucast pr) p"
  define old where "old = (case ports a ?k of None \<Rightarrow> as_empty | Some v \<Rightarrow> v)"
  have old: "as_inv old" using keys aset.inv_empty by (auto simp: old_def keys_ok_def split: option.splits)
  define w where "w = as_Add old r"
  have w: "as_inv w" "as_elems w = insert r (as_elems old)"
    using aset.inv_add [OF old] aset.elems_add [OF old] by (simp_all add: w_def)
  have p': "ports (getport_record a pr p r) = (ports a)(?k \<mapsto> w)"
    by (simp add: getport_record_ports w_def old_def)
  have l': "live (getport_record a pr p r) = live a"
    by (simp add: live_def fun_eq_iff getport_record_ports(2))
  have "keys_ok (getport_record a pr p r)"
    using keys w(1) pr lv unfolding keys_ok_def p' l' by (auto split: if_splits)
  moreover have "used (getport_record a pr p r, os) = insert (pr, p, r) (used (a, os))"
  proof (rule set_eqI)
    fix y :: "proto \<times> u16 \<times> addrport"
    obtain pr' q s where y: "y = (pr', q, s)" by (cases y)
    have "(pr, p, s) \<in> used (a, os) \<longleftrightarrow> s \<in> as_elems old"
      using pr by (auto simp: used_def old_def aset.elems_empty split: option.splits)
    then show "y \<in> used (getport_record a pr p r, os) \<longleftrightarrow> y \<in> insert (pr, p, r) (used (a, os))"
      unfolding y used_update [OF pr p', where os = os] using w(2) by auto
  qed
  ultimately show ?thesis by simp
qed

lemma gp_step_inv [inv_intros]: "gp_step s t \<Longrightarrow> gp_inv s \<Longrightarrow> gp_inv t"
proof (induction rule: gp_step.induct)
  case (scan s i pr r ord)
  let ?p = "getport_scan ord pr r"
  have pr: "pr = TCP \<or> pr = UDP" using scan(1,3) by (auto simp: gp_inv_def pc_ok_def dest: spec [of _ i])
  have "live (fst (gp_ap s)) pr ?p" if "?p \<noteq> 0"
  proof -
    from getport_scan_found [OF that] scan(2) obtain v
      where "ports (fst (gp_ap s)) (PortKey (ucast pr) ?p) = Some v" by (auto simp: range_of_mem)
    moreover have "keys_ok (fst (gp_ap s))" using scan(3) by (simp add: gp_inv_def)
    ultimately show ?thesis using pr by (fastforce simp: keys_ok_def)
  qed
  with pr scan(3) show ?case by (intro gp_inv_pc) (simp_all add: pc_ok_def)
next
  case (reuse s i pr r p)
  then have "pc_ok (gp_ap s) (GpScanned pr r p)" by (metis gp_inv_def)
  with reuse show ?case by (intro gp_inv_pc) (simp_all add: pc_ok_def)
next
  case (alloc s i pr r ans ap p)
  with alloc_inv [of "gp_ap s" pr ans ap "Inr p"] show ?case
    by (intro gp_inv_update) (simp_all add: gp_inv_def pc_ok_def)
next
  case (alloc_err s i pr r ans ap e)
  with alloc_inv [of "gp_ap s" pr ans ap "Inl e"] show ?case
    by (intro gp_inv_update) (simp_all add: gp_inv_def pc_ok_def)
next
  case (store s i pr r p)
  then have "pc_ok (gp_ap s) (GpGot pr r p)" by (metis gp_inv_def)
  then have pc: "pr = TCP \<or> pr = UDP" "live (fst (gp_ap s)) pr p" by (simp_all add: pc_ok_def)
  obtain a os where ap: "gp_ap s = (a, os)" by (cases "gp_ap s")
  have inv: "mgr_inv (mgr a) os" "keys_ok a" using store(2) ap by (simp_all add: gp_inv_def)
  from record_inv [OF inv(2) pc(1), of p r os] pc(2) ap
  have R: "keys_ok (getport_record a pr p r)"
    "insert (pr, p, r) (used (a, os)) = used (getport_record a pr p r, os)" by simp_all
  have l: "live (getport_record a pr p r) = live a"
    by (simp add: live_def fun_eq_iff getport_record_ports(2))
  from store(2) show ?case
    by (rule gp_inv_update) (use R inv pc ap l in \<open>auto simp: pc_ok_def getport_record_ports(2)\<close>)
qed

lemma gp_reach_inv: "gp_reach s0 s \<Longrightarrow> gp_inv s0 \<Longrightarrow> gp_inv s"
  by (induction rule: gp_reach.induct) (auto intro: gp_step_inv)

end
