(* ===== verification/Port_Props.thy ===== *)
theory Port_Props
  imports Port_Race
begin

text \<open>
  The properties of the port layer: \<open>AddrSet\<close> and \<open>Adapter\<close> of
  \<open>ports/adapter.go\<close>, \<open>Manager\<close> of \<open>ports/manager.go\<close>. Each is a few
  steps over the lemmas of the components and the interpretations \<open>aset\<close> (a set of
  addresses) and \<open>pa\<close> (a port allocator); the witnesses share one adapter that
  holds the TCP port 5000 for one remote.
\<close>

section \<open>Data of the witnesses\<close>

definition w_remote :: "u8 \<Rightarrow> addrport" where
  "w_remote n = AddrPort (Addr4 8 8 8 n) 80"

definition w_filter :: filter_answer where
  "w_filter = \<lparr>fa_syscall = None, fa_control = None, fa_assemble = None, fa_sockopt = None\<rparr>"

definition w_listen :: "proto \<Rightarrow> u16 \<Rightarrow> listen_answer" where
  "w_listen pr p = \<lparr>la_listen = Inr (Listener pr p), la_filter = w_filter, la_parse = None\<rparr>"

definition w_ap0 :: ap_state where
  "w_ap0 = (\<lparr>mgr = \<lparr>tcpAddr = [10, 0, 0, 1], tcp = Map.empty,
                     udpAddr = [10, 0, 0, 1], udp = Map.empty\<rparr>, ports = Map.empty\<rparr>, {})"

definition w_ap1 :: ap_state where
  "w_ap1 = (\<lparr>mgr = \<lparr>tcpAddr = [10, 0, 0, 1], tcp = [5000 \<mapsto> Listener TCP 5000],
                     udpAddr = [10, 0, 0, 1], udp = Map.empty\<rparr>,
             ports = [PortKey 6 5000 \<mapsto> \<lparr>addrs = [w_remote 8]\<rparr>]\<rparr>, {Listener TCP 5000})"

lemmas w_defs = w_remote_def w_filter_def w_listen_def w_ap0_def w_ap1_def

lemma w_ap0_new: "NewAdapter (Addr4 10 0 0 1) = Some (fst w_ap0)"
  by (simp add: NewAdapter_def NewMgr_def w_ap0_def)

lemma w_ap0_inv: "adapter_inv w_ap0" "used w_ap0 = {}"
  by (simp_all add: adapter_inv_def mgr_inv_def used_def w_ap0_def)

lemma w_ap1_inv: "adapter_inv w_ap1"
  by (auto simp: adapter_inv_def mgr_inv_def w_ap1_def as_inv_def as_elems_def)

lemma w_ap1_used: "used w_ap1 = {(TCP, 5000, w_remote 8)}"
  by (auto simp: used_def w_ap1_def as_elems_def split: if_splits)

lemma w_has [simp]: "as_Has \<lparr>addrs = [w_remote a]\<rparr> (w_remote b) = (a = b)"
  by (subst as_Has_iff) (auto simp: as_inv_def as_elems_def w_remote_def)

lemma w_env0: "get_env w_ap0 TCP ([], w_listen TCP 5000)"
  by (simp add: get_env_def listen_ok_def w_defs)

lemma w_env1: "get_env w_ap1 TCP ([(PortKey 6 5000, \<lparr>addrs = [w_remote 8]\<rparr>)], w_listen TCP 6000)"
  by (simp add: get_env_def listen_ok_def range_of_def w_defs)

lemma w_get0: "\<exists>s. GetPort w_ap0 ([], w_listen TCP 5000) TCP (w_remote 8) = Some (s, Inr 5000)"
  by (simp add: GetPort_def getport_alloc_def GetTCPPort_def setFilterAll_def ap_valid_def w_defs)

lemma w_get1: "\<exists>s. GetPort w_ap1 ([(PortKey 6 5000, \<lparr>addrs = [w_remote 8]\<rparr>)], w_listen TCP 6000)
    TCP (w_remote 9) = Some (s, Inr 5000)"
  by (simp add: GetPort_def ap_valid_def) (simp add: w_remote_def)

section \<open>AddrSet\<close>

text \<open>
  Bisection in a sorted duplicate-free slice: \<open>Find\<close> returns the index of the
  address when it is present, and -1 exactly when it is absent, so \<open>Has\<close> is membership.
\<close>

theorem find_correct:
  assumes "as_inv a"
  shows "(as_Find a x = int n \<longleftrightarrow> n < length (addrs a) \<and> addrs a ! n = x)
    \<and> (as_Find a x = -1 \<longleftrightarrow> x \<notin> set (addrs a))
    \<and> (as_Has a x \<longleftrightarrow> x \<in> set (addrs a))"
  using assms
proof (cases rule: as_Find_cases [where x = x])
  case (found m)
  then show ?thesis
    using assms nth_eq_iff_index_eq [of "addrs a" n m]
    by (auto simp: as_Has_def as_inv_def)
next
  case missing
  then show ?thesis by (auto simp: as_elems_def as_Has_def)
qed

theorem find_correct_witness:
  "as_Find \<lparr>addrs = [w_remote 8, w_remote 9]\<rparr> (w_remote 9) = int 1"
proof -
  have inv: "as_inv \<lparr>addrs = [w_remote 8, w_remote 9]\<rparr>"
    by (simp add: as_inv_def w_remote_def netip_less_simps less_imp_le)
  show ?thesis using find_correct [OF inv, of "w_remote 9" 1] by simp
qed

text \<open>
  C26. \<open>AddrSet\<close> refines a finite set: \<open>Add\<close> and \<open>Del\<close> keep the slice sorted and
  duplicate-free and change membership of their argument only, and \<open>Len\<close> counts the
  members.
\<close>

theorem addrset_refines_set:
  assumes "as_inv a"
  shows "as_inv (as_Add a x) \<and> as_inv (as_Del a x)
    \<and> (as_Has (as_Add a x) y \<longleftrightarrow> y = x \<or> as_Has a y)
    \<and> (as_Has (as_Del a x) y \<longleftrightarrow> y \<noteq> x \<and> as_Has a y)
    \<and> as_Len (as_Add a x) = (if as_Has a x then as_Len a else as_Len a + 1)
    \<and> as_Len a = card {z. as_Has a z}"
  using assms aset.inv_add aset.inv_del aset.has_add aset.has_del aset.size_add
  by (simp add: aset.size_card aset.has_iff)

theorem addrset_refines_set_witness:
  "as_Len (as_Add \<lparr>addrs = [w_remote 8]\<rparr> (w_remote 9)) = 2"
proof -
  have inv: "as_inv \<lparr>addrs = [w_remote 8]\<rparr>" by (simp add: as_inv_def)
  show ?thesis using addrset_refines_set [OF inv, of "w_remote 9"] by (simp add: as_Len_def)
qed

section \<open>Adapter\<close>

text \<open>
  C12. \<open>GetPort\<close> never hands out a triple (protocol, local port, remote) that is in use:
  with the runtime's iteration order and the kernel's answer arbitrary, a successful call
  returns a port whose triple was free, records exactly this triple, and keeps the
  adapter's invariant; a failed call records nothing, and no call panics.
\<close>

theorem getport_fresh:
  assumes "adapter_inv s" "get_env s pr env" "pr = TCP \<or> pr = UDP"
  shows "\<exists>s' r. GetPort s env pr remote = Some (s', r) \<and> adapter_inv s'
    \<and> (case r of Inl _ \<Rightarrow> used s' = used s
       | Inr p \<Rightarrow> (pr, p, remote) \<notin> used s \<and> used s' = insert (pr, p, remote) (used s))"
proof -
  obtain s' r where g: "GetPort s env pr remote = Some (s', r)"
    using pa.get_total [OF assms] by fastforce
  then show ?thesis
    using pa.get_ok [OF assms, of remote s'] pa.get_err [OF assms(1,2), of remote s']
    by (cases r) auto
qed

theorem getport_fresh_witness:
  "\<exists>s'. GetPort w_ap1 ([(PortKey 6 5000, \<lparr>addrs = [w_remote 8]\<rparr>)], w_listen TCP 6000)
      TCP (w_remote 9) = Some (s', Inr 5000)
    \<and> used s' = {(TCP, 5000, w_remote 8), (TCP, 5000, w_remote 9)}"
  using getport_fresh [OF w_ap1_inv w_env1, of "w_remote 9"] w_get1 w_ap1_used by auto

text \<open>
  Ports are reused before new ones are allocated: a successful \<open>GetPort\<close> opens a
  socket (exactly one, at the returned port) if every port of the protocol already serves
  the remote, and otherwise opens none and returns a port that already has users.
\<close>

theorem getport_reuses:
  assumes inv: "adapter_inv s" and env: "get_env s pr env" and pr: "pr = TCP \<or> pr = UDP"
    and get: "GetPort s env pr remote = Some (s', Inr p)"
  shows "if \<forall>q v. ports (fst s) (PortKey (ucast pr) q) = Some v \<longrightarrow> as_Has v remote
    then snd s' = insert (Listener pr p) (snd s) \<and> ports (fst s) (PortKey (ucast pr) p) = None
    else snd s' = snd s \<and> ports (fst s) (PortKey (ucast pr) p) \<noteq> None"
  using inv env
proof (cases rule: GetPort_cases [where r = remote])
  case (reuse q v)
  then show ?thesis using get by auto
next
  case (alloc t q)
  obtain a os a' os' where st: "s = (a, os)" "t = (a', os')" by (cases s; cases t)
  from alloc get have q: "q = p" "snd s' = os'" by (auto simp: st split: if_splits)
  from alloc_correct [OF inv [unfolded st] _ pr, of "snd env" a' os' p] alloc(1) env q
  have A: "ports a (PortKey (ucast pr) p) = None" "os' = insert (Listener pr p) os"
    by (simp_all add: st get_env_def)
  have "as_Has v remote" if "ports a (PortKey (ucast pr) q) = Some v" for q v
    using getport_scan_none [of "fst env" pr remote "PortKey (ucast pr) q" v] that env alloc(3)
      adapter_key_port [OF inv [unfolded st]]
    by (fastforce simp: st get_env_def range_of_mem)
  with A q show ?thesis by (simp add: st)
qed (use get in auto)

theorem getport_reuses_witness:
  "\<exists>s'. GetPort w_ap1 ([(PortKey 6 5000, \<lparr>addrs = [w_remote 8]\<rparr>)], w_listen TCP 6000)
      TCP (w_remote 9) = Some (s', Inr 5000) \<and> snd s' = snd w_ap1"
proof -
  obtain s' where g: "GetPort w_ap1 ([(PortKey 6 5000, \<lparr>addrs = [w_remote 8]\<rparr>)], w_listen TCP 6000)
      TCP (w_remote 9) = Some (s', Inr 5000)" using w_get1 by blast
  from getport_reuses [OF w_ap1_inv w_env1 _ g] g show ?thesis
    by (auto simp: w_ap1_def split: if_splits)
qed

text \<open>
  C13. \<open>DelPort\<close> of a triple in use never panics, releases exactly this triple, and
  closes the port's socket exactly when no other remote uses the port any more; the error
  it returns is the one of that \<open>Close\<close>.
\<close>

theorem delport_releases:
  assumes "adapter_inv s" "(pr, p, remote) \<in> used s"
  shows "\<exists>s' err. DelPort s cl pr p remote = Some (s', err) \<and> adapter_inv s'
    \<and> used s' = used s - {(pr, p, remote)}
    \<and> (if \<exists>q. (pr, p, q) \<in> used s' then snd s' = snd s \<and> err = None
       else snd s' = snd s - {Listener pr p} \<and> err = cl (Listener pr p))"
  by (rule DelPort_correct [OF assms])

theorem delport_releases_witness:
  "\<exists>s'. DelPort w_ap1 (\<lambda>_. None) TCP 5000 (w_remote 8) = Some (s', None)
    \<and> used s' = {} \<and> snd s' = {}"
  using delport_releases [OF w_ap1_inv, of TCP 5000 "w_remote 8" "\<lambda>_. None"]
  by (auto simp: w_ap1_used) (simp_all add: w_ap1_def)

text \<open>
  C31. \<open>Close\<close> releases everything: whatever the iteration order and the errors of the
  individual closes, no triple stays in use, both listener maps are empty, and the
  sockets that were held, and only those, are closed.
\<close>

theorem adapter_close_releases_all:
  assumes "adapter_inv s" "range_of (ports (fst s)) ord" "ap_Close s ord cl = (s', err)"
  shows "used s' = {} \<and> tcp (mgr (fst s')) = Map.empty \<and> udp (mgr (fst s')) = Map.empty
    \<and> snd s' = snd s - (ran (tcp (mgr (fst s))) \<union> ran (udp (mgr (fst s))))"
  using ap_Close_correct [OF assms] by simp

theorem adapter_close_releases_all_witness:
  "snd (fst (ap_Close w_ap1 [(PortKey 6 5000, \<lparr>addrs = [w_remote 8]\<rparr>)] (\<lambda>_. None))) = {}"
proof -
  let ?ord = "[(PortKey 6 5000, \<lparr>addrs = [w_remote 8]\<rparr>)]"
  have ord: "range_of (ports (fst w_ap1)) ?ord" using w_env1 by (simp add: get_env_def)
  obtain s' err where c: "ap_Close w_ap1 ?ord (\<lambda>_. None) = (s', err)"
    by (cases "ap_Close w_ap1 ?ord (\<lambda>_. None)")
  show ?thesis using adapter_close_releases_all [OF w_ap1_inv ord c] c by (simp add: w_ap1_def)
qed

section \<open>Concurrent callers\<close>

text \<open>
  C30. Under every interleaving of concurrent \<open>GetPort\<close> calls, a call that has returned
  a port has its triple recorded and the port is backed by a listener of its protocol that
  the manager holds and the system has open.
\<close>

theorem getport_concurrent_backed:
  assumes "gp_init s0" "gp_reach s0 s" "gp_pcs s i = GpDone pr r p"
  shows "(pr, p, r) \<in> used (gp_ap s) \<and> Listener pr p \<in> snd (gp_ap s)
    \<and> (if pr = TCP then tcp (mgr (fst (gp_ap s))) p = Some (Listener pr p)
       else udp (mgr (fst (gp_ap s))) p = Some (Listener pr p))"
proof -
  have inv: "gp_inv s" by (rule gp_reach_inv [OF assms(2) gp_init_inv [OF assms(1)]])
  then have mgr: "mgr_inv (mgr (fst (gp_ap s))) (snd (gp_ap s))" by (simp add: gp_inv_def)
  have "pc_ok (gp_ap s) (GpDone pr r p)" using inv assms(3) by (metis gp_inv_def)
  then have pc: "live (fst (gp_ap s)) pr p" "(pr, p, r) \<in> used (gp_ap s)" by (simp_all add: pc_ok_def)
  then have "pr = TCP \<or> pr = UDP" by (auto simp: used_def)
  with pc mgr_tcpD [OF mgr, of p] mgr_udpD [OF mgr, of p] show ?thesis
    by (auto simp: live_def)
qed

definition w_gp :: "nat \<Rightarrow> gp_pc \<Rightarrow> gp_pc \<Rightarrow> ap_state \<Rightarrow> gp_state" where
  "w_gp n p0 p1 ap = \<lparr>gp_ap = ap, gp_pcs = (\<lambda>i. GpStart TCP (w_remote 9))(0 := p0, 1 := p1)\<rparr>"

text \<open>Two goroutines that ask for the same remote search before either of them records.\<close>

lemma w_race_scan:
  "gp_reach (w_gp 0 (GpStart TCP (w_remote 9)) (GpStart TCP (w_remote 9)) w_ap1)
     (w_gp 0 (GpScanned TCP (w_remote 9) 5000) (GpScanned TCP (w_remote 9) 5000) w_ap1)"
  (is "gp_reach ?s0 _")
proof -
  let ?ord = "[(PortKey 6 5000, \<lparr>addrs = [w_remote 8]\<rparr>)]"
  have ord: "range_of (ports (fst w_ap1)) ?ord" using w_env1 by (simp add: get_env_def)
  have sc: "getport_scan ?ord TCP (w_remote 9) = 5000" by simp
  have 1: "gp_step ?s0 (w_gp 0 (GpScanned TCP (w_remote 9) 5000) (GpStart TCP (w_remote 9)) w_ap1)"
    (is "gp_step _ ?s1")
    using gp_step.scan [of ?s0 0 TCP "w_remote 9" ?ord] ord sc
    by (simp add: w_gp_def fun_upd_twist)
  have 2: "gp_step ?s1 (w_gp 0 (GpScanned TCP (w_remote 9) 5000) (GpScanned TCP (w_remote 9) 5000) w_ap1)"
    using gp_step.scan [of ?s1 1 TCP "w_remote 9" ?ord] ord sc
    by (simp add: w_gp_def fun_upd_twist)
  show ?thesis using gp_reach.start 1 2 by (blast intro: gp_reach.step)
qed

lemma w_race_done:
  "\<exists>ap. gp_reach (w_gp 0 (GpStart TCP (w_remote 9)) (GpStart TCP (w_remote 9)) w_ap1)
     (w_gp 0 (GpDone TCP (w_remote 9) 5000) (GpDone TCP (w_remote 9) 5000) ap)"
  (is "\<exists>ap. gp_reach ?s0 (?done ap)")
proof -
  let ?sc = "GpScanned TCP (w_remote 9) 5000" and ?got = "GpGot TCP (w_remote 9) 5000"
    and ?dn = "GpDone TCP (w_remote 9) 5000"
  let ?rec = "\<lambda>ap. (getport_record (fst ap) TCP 5000 (w_remote 9), snd ap)"
  have 1: "gp_step (w_gp 0 ?sc ?sc w_ap1) (w_gp 0 ?got ?sc w_ap1)"
    using gp_step.reuse [of "w_gp 0 ?sc ?sc w_ap1" 0] by (simp add: w_gp_def fun_upd_twist)
  have 2: "gp_step (w_gp 0 ?got ?sc w_ap1) (w_gp 0 ?got ?got w_ap1)"
    using gp_step.reuse [of "w_gp 0 ?got ?sc w_ap1" 1] by (simp add: w_gp_def fun_upd_twist)
  have 3: "gp_step (w_gp 0 ?got ?got w_ap1) (w_gp 0 ?dn ?got (?rec w_ap1))"
    using gp_step.store [of "w_gp 0 ?got ?got w_ap1" 0] by (simp add: w_gp_def fun_upd_twist)
  have 4: "gp_step (w_gp 0 ?dn ?got (?rec w_ap1)) (w_gp 0 ?dn ?dn (?rec (?rec w_ap1)))"
    using gp_step.store [of "w_gp 0 ?dn ?got (?rec w_ap1)" 1] by (simp add: w_gp_def fun_upd_twist)
  from w_race_scan 1 2 3 4 show ?thesis by (blast intro: gp_reach.step)
qed

lemma w_race_init: "gp_init (w_gp 0 (GpStart TCP (w_remote 9)) (GpStart TCP (w_remote 9)) w_ap1)"
  using w_ap1_inv by (auto simp: gp_init_def w_gp_def)

theorem getport_concurrent_backed_witness:
  "\<exists>s. gp_reach (w_gp 0 (GpStart TCP (w_remote 9)) (GpStart TCP (w_remote 9)) w_ap1) s
    \<and> Listener TCP 5000 \<in> snd (gp_ap s) \<and> (TCP, 5000, w_remote 9) \<in> used (gp_ap s)"
proof -
  obtain ap where r: "gp_reach (w_gp 0 (GpStart TCP (w_remote 9)) (GpStart TCP (w_remote 9)) w_ap1)
     (w_gp 0 (GpDone TCP (w_remote 9) 5000) (GpDone TCP (w_remote 9) 5000) ap)"
    using w_race_done by blast
  have d: "gp_pcs (w_gp 0 (GpDone TCP (w_remote 9) 5000) (GpDone TCP (w_remote 9) 5000) ap) 0
      = GpDone TCP (w_remote 9) 5000" by (simp add: w_gp_def)
  from getport_concurrent_backed [OF w_race_init r d] r show ?thesis by blast
qed

text \<open>
  C35. The freshness that \<open>getport_fresh\<close> states does not survive concurrency: from an adapter that satisfies
  the invariant, two goroutines can both be handed the same local port for the same
  remote, because the search and the update take the lock separately. Their links are
  then indistinguishable on the downlink.
\<close>

theorem getport_race_duplicates:
  "\<exists>s0 s pr r p i j. gp_init s0 \<and> gp_reach s0 s \<and> i \<noteq> j
    \<and> gp_pcs s i = GpDone pr r p \<and> gp_pcs s j = GpDone pr r p"
proof -
  obtain ap where r: "gp_reach (w_gp 0 (GpStart TCP (w_remote 9)) (GpStart TCP (w_remote 9)) w_ap1)
     (w_gp 0 (GpDone TCP (w_remote 9) 5000) (GpDone TCP (w_remote 9) 5000) ap)"
    using w_race_done by blast
  let ?s = "w_gp 0 (GpDone TCP (w_remote 9) 5000) (GpDone TCP (w_remote 9) 5000) ap"
  have "gp_pcs ?s 0 = GpDone TCP (w_remote 9) 5000" "gp_pcs ?s 1 = GpDone TCP (w_remote 9) 5000"
    by (simp_all add: w_gp_def)
  with r w_race_init show ?thesis using zero_neq_one by blast
qed

section \<open>Manager\<close>

text \<open>
  A socket whose filter cannot be attached leaks: when the kernel grants a listener
  and \<open>setFilterAll\<close> then fails, \<open>GetTCPPort\<close> returns the error with the manager
  unchanged, yet the socket stays open, so no later \<open>DelTCPPort\<close> or \<open>Close\<close> of
  the adapter can release it.
\<close>

theorem gettcpport_filter_leak:
  assumes "adapter_inv s" "listen_ok TCP (snd s) ans"
    and "la_listen ans = Inr l" "setFilterAll (la_filter ans) = Some e"
    and "GetTCPPort (mgr (fst s)) (snd s) ans = (m', os', res)"
    and "range_of (ports (fst s)) ord"
    and "ap_Close (\<lparr>mgr = m', ports = ports (fst s)\<rparr>, os') ord cl = (s', err)"
  shows "res = Inl e \<and> m' = mgr (fst s) \<and> l \<in> snd s'"
proof -
  obtain a os where s: "s = (a, os)" by (cases s)
  note D = adapter_invD [OF assms(1) [unfolded s]]
  from assms(3-5) s have r: "res = Inl e" "m' = mgr a" "os' = insert l os"
    by (auto simp: GetTCPPort_def Let_def)
  have "adapter_inv (\<lparr>mgr = m', ports = ports a\<rparr>, os')"
    using assms(1) s r mgr_inv_mono [OF D(1), of os'] by (auto simp: adapter_inv_def)
  from ap_Close_correct [OF this _ assms(7) [unfolded s fst_conv]] assms(6) s r
  have "snd s' = insert l os - (ran (tcp (mgr a)) \<union> ran (udp (mgr a)))" by simp
  moreover have "l \<notin> os" using assms(2,3) s by (simp add: listen_ok_def)
  then have "l \<notin> ran (tcp (mgr a)) \<union> ran (udp (mgr a))"
    using mgr_tcpD [OF D(1)] mgr_udpD [OF D(1)] by (auto simp: ran_def)
  ultimately show ?thesis using r s by simp
qed

theorem gettcpport_filter_leak_witness:
  "Listener TCP 5000 \<in> snd (fst (ap_Close
     (\<lparr>mgr = mgr (fst w_ap0), ports = ports (fst w_ap0)\<rparr>, {Listener TCP 5000}) [] (\<lambda>_. None)))"
proof -
  let ?ans = "w_listen TCP 5000 \<lparr>la_filter := w_filter\<lparr>fa_sockopt := Some (ErrExt 1)\<rparr>\<rparr>"
  have g: "GetTCPPort (mgr (fst w_ap0)) (snd w_ap0) ?ans
      = (mgr (fst w_ap0), {Listener TCP 5000}, Inl (ErrExt 1))"
    by (simp add: GetTCPPort_def setFilterAll_def w_defs)
  define c where "c = ap_Close (\<lparr>mgr = mgr (fst w_ap0), ports = ports (fst w_ap0)\<rparr>,
      {Listener TCP 5000}) [] (\<lambda>_. None)"
  have c: "ap_Close (\<lparr>mgr = mgr (fst w_ap0), ports = ports (fst w_ap0)\<rparr>,
      {Listener TCP 5000}) [] (\<lambda>_. None) = (fst c, snd c)" by (simp add: c_def)
  have "range_of (ports (fst w_ap0)) []" by (simp add: w_ap0_def)
  from gettcpport_filter_leak [OF w_ap0_inv(1) _ _ _ g this c] c show ?thesis
    by (simp add: listen_ok_def setFilterAll_def w_defs)
qed

end
