(* ===== verification/Link_Types.thy ===== *)
theory Link_Types
  imports Netip
begin

text \<open>
  The keys of \<open>links/links.go\<close>: the uplink (client process to server) and downlink
  (server to proxy) sides of a link, and the use counter with the local port that
  \<open>links/maps/maps.go\<close> packs into one 64-bit atomic.
\<close>

section \<open>Links\<close>

record Uplink =
  up_process :: addrport
  up_proto :: proto
  up_server :: addrport

record Downlink =
  dn_server :: addrport
  dn_proto :: proto
  dn_local :: addrport

record Link =
  link_up :: Uplink
  link_local :: addrport

section \<open>The packed port\<close>

text \<open>The upper 16 bits hold the local port, the lower 48 count its uses since the last
  \<open>Idle\<close>.\<close>

type_synonym port = u64

definition NewPort :: "u16 \<Rightarrow> port" where
  "NewPort p = push_bit 48 (ucast p)"

definition port_flags :: u64 where
  "port_flags = 0xffff000000000000"

definition port_Idle :: "port \<Rightarrow> bool \<times> port" where
  "port_Idle d = (d AND NOT port_flags = 0, d AND port_flags)"

definition port_Port :: "port \<Rightarrow> u16 \<times> port" where
  "port_Port d = (let d = d + 1 in (ucast (drop_bit 48 d), d))"

definition port_num :: "port \<Rightarrow> u16" where
  "port_num d = ucast (drop_bit 48 d)"

definition port_uses :: "port \<Rightarrow> nat" where
  "port_uses d = unat (take_bit 48 d)"

lemma not_flags: "NOT port_flags = mask 48"
  by (simp add: port_flags_def mask_eq_exp_minus_1)

lemma and_not_flags: "d AND NOT port_flags = take_bit 48 d"
  by (simp add: not_flags take_bit_eq_mask)

lemma and_flags: "d AND port_flags = push_bit 48 (drop_bit 48 d)"
proof (rule bit_word_eqI)
  fix n assume n: "n < LENGTH(64)"
  have "bit port_flags n \<longleftrightarrow> \<not> bit (NOT port_flags) n" using n by (simp add: bit_not_iff)
  then show "bit (d AND port_flags) n = bit (push_bit 48 (drop_bit 48 d)) n"
    using n by (auto simp: not_flags bit_simps)
qed

lemma take_bit_NewPort: "take_bit 48 (NewPort p) = 0"
  by (rule bit_word_eqI) (auto simp: NewPort_def bit_simps)

lemma port_num_NewPort [simp]: "port_num (NewPort p) = p"
  by (rule bit_word_eqI) (auto simp: NewPort_def port_num_def bit_simps dest: bit_imp_le_length)

lemma port_uses_NewPort [simp]: "port_uses (NewPort p) = 0"
  by (simp add: port_uses_def take_bit_NewPort)

lemma unat_port: "unat (d :: port) = 2 ^ 48 * unat (port_num d) + port_uses d"
proof -
  have "unat (port_num d) = unat d div 2 ^ 48"
  proof -
    have "unat d div 2 ^ 48 < 2 ^ 16"
      using unsigned_less [where ?'a = nat, of d] by (simp add: less_mult_imp_div_less)
    then show ?thesis
      unfolding port_num_def unsigned_ucast_eq unsigned_drop_bit_eq
      by (simp add: take_bit_nat_eq_self drop_bit_eq_div)
  qed
  moreover have "port_uses d = unat d mod 2 ^ 48"
    unfolding port_uses_def unsigned_take_bit_eq by (rule take_bit_eq_mod)
  ultimately show ?thesis by simp
qed

lemma port_uses_lt: "port_uses d < 2 ^ 48"
  using take_bit_nat_less_exp [of 48 "unat d"] by (simp add: port_uses_def unsigned_take_bit_eq)

lemma port_eqI: "unat (d :: port) = 2 ^ 48 * unat q + u \<Longrightarrow> u < 2 ^ 48 \<Longrightarrow> port_num d = q \<and> port_uses d = u"
proof -
  assume d: "unat d = 2 ^ 48 * unat q + u" "u < 2 ^ 48"
  have "unat (port_num d) = (2 ^ 48 * unat q + u) div 2 ^ 48"
    using unat_port [of d] port_uses_lt [of d] d(1)
    by (metis div_mult_self4 div_less add.right_neutral power_not_zero zero_neq_numeral)
  then have "unat (port_num d) = unat q" using d(2) by simp
  then have "port_num d = q" by (simp add: word_unat_eq_iff)
  with unat_port [of d] d(1) show ?thesis by simp
qed

lemma port_incr:
  assumes "port_uses d < 2 ^ 48 - 1"
  shows "port_num (d + 1) = port_num d \<and> port_uses (d + 1) = port_uses d + 1"
proof (rule port_eqI)
  have "unat (port_num d) < 2 ^ 16" using unsigned_less [where ?'a = nat, of "port_num d"] by simp
  then have "unat d + 1 < 2 ^ 64" using unat_port [of d] assms by simp
  then show "unat (d + 1) = 2 ^ 48 * unat (port_num d) + (port_uses d + 1)"
    using unat_port [of d] by (simp add: unat_word_ariths)
qed (use assms in simp)

lemma port_Idle_eq:
  "fst (port_Idle d) \<longleftrightarrow> port_uses d = 0"
  "port_num (snd (port_Idle d)) = port_num d" "port_uses (snd (port_Idle d)) = 0"
proof -
  show "fst (port_Idle d) \<longleftrightarrow> port_uses d = 0"
    by (simp add: port_Idle_def and_not_flags port_uses_def unat_eq_0)
  show "port_num (snd (port_Idle d)) = port_num d"
    unfolding port_Idle_def port_num_def and_flags snd_conv
    by (rule bit_word_eqI) (auto simp: bit_simps dest: bit_imp_le_length)
  have "take_bit 48 (push_bit 48 (drop_bit 48 d)) = 0"
    by (rule bit_word_eqI) (auto simp: bit_simps)
  then show "port_uses (snd (port_Idle d)) = 0"
    by (simp add: port_Idle_def and_flags port_uses_def)
qed

lemma port_Port_eq:
  "port_uses d < 2 ^ 48 - 1 \<Longrightarrow> fst (port_Port d) = port_num d"
  by (simp add: port_Port_def Let_def flip: port_num_def) (use port_incr in simp)

lemma port_iter: "n < 2 ^ 48 \<Longrightarrow>
    port_num (((\<lambda>d. snd (port_Port d)) ^^ n) (NewPort p)) = p
      \<and> port_uses (((\<lambda>d. snd (port_Port d)) ^^ n) (NewPort p)) = n"
proof (induction n)
  case (Suc n)
  then have IH: "port_num (((\<lambda>d. snd (port_Port d)) ^^ n) (NewPort p)) = p"
    "port_uses (((\<lambda>d. snd (port_Port d)) ^^ n) (NewPort p)) = n" by simp_all
  show ?case using port_incr [of "((\<lambda>d. snd (port_Port d)) ^^ n) (NewPort p)"] IH Suc.prems
    by (simp add: port_Port_def Let_def)
qed simp

lemma port_word_eq: "port_num d = port_num d' \<Longrightarrow> port_uses d = port_uses d' \<Longrightarrow> d = d'"
  using unat_port [of d] unat_port [of d'] by (simp add: word_unat_eq_iff)

lemma port_Idle_reset: "snd (port_Idle d) = NewPort (port_num d)"
  by (rule port_word_eq) (simp_all add: port_Idle_eq)

lemma port_Port_num: "fst (port_Port d) = (if port_uses d = 2 ^ 48 - 1 then port_num d + 1 else port_num d)"
proof (cases "port_uses d = 2 ^ 48 - 1")
  case False
  then show ?thesis using port_uses_lt [of d] by (simp add: port_Port_eq)
next
  case True
  have F: "fst (port_Port d) = port_num (d + 1)" by (simp add: port_Port_def port_num_def Let_def)
  have "unat (port_num d) < 2 ^ 16" using unsigned_less [where ?'a = nat, of "port_num d"] by simp
  then have w: "unat (d + 1) = (2 ^ 48 * (unat (port_num d) + 1)) mod 2 ^ 64"
    using unat_port [of d] True by (simp add: unat_word_ariths)
  also have "\<dots> = 2 ^ 48 * ((unat (port_num d) + 1) mod 2 ^ 16)"
    using mult_mod_right [of "2 ^ 48" "unat (port_num d) + 1" "2 ^ 16"] by simp
  also have "(unat (port_num d) + 1) mod 2 ^ 16 = unat (port_num d + 1)"
    by (simp add: unat_word_ariths)
  finally show ?thesis using port_eqI [of "d + 1" "port_num d + 1" 0] F True by simp
qed

end
