(* ===== verification/Link_Heap.thy ===== *)
theory Link_Heap
  imports Go_Prelude
begin

text \<open>
  \<open>Heap\<close> of \<open>links/links.go\<close>: despite its name a FIFO ring buffer that doubles
  when it is full. The link manager keeps its time-to-live entries in one. The argument
  \<open>zero\<close> is Go's zero value of the element type. The interface \<open>fifo\<close> is what the
  link manager relies on.
\<close>

section \<open>The interface\<close>

locale fifo =
  fixes put :: "'q \<Rightarrow> 'a \<Rightarrow> 'q option"
    and pop :: "'q \<Rightarrow> ('a \<times> 'q) option"
    and peek :: "'q \<Rightarrow> 'a option"
    and size :: "'q \<Rightarrow> nat"
    and list :: "'q \<Rightarrow> 'a list"
    and inv :: "'q \<Rightarrow> bool"
  assumes put_ok: "inv q \<Longrightarrow> \<exists>q'. put q x = Some q' \<and> inv q' \<and> list q' = list q @ [x]"
    and pop_ok: "inv q \<Longrightarrow> list q = x # xs \<Longrightarrow> \<exists>q'. pop q = Some (x, q') \<and> inv q' \<and> list q' = xs"
    and peek_ok: "inv q \<Longrightarrow> list q = x # xs \<Longrightarrow> peek q = Some x"
    and size_length: "inv q \<Longrightarrow> size q = length (list q)"
begin

fun put_all :: "'q \<Rightarrow> 'a list \<Rightarrow> 'q option" where
  "put_all q [] = Some q"
| "put_all q (x # xs) = Option.bind (put q x) (\<lambda>q. put_all q xs)"

fun pop_n :: "nat \<Rightarrow> 'q \<Rightarrow> ('a list \<times> 'q) option" where
  "pop_n 0 q = Some ([], q)"
| "pop_n (Suc n) q =
     Option.bind (pop q) (\<lambda>(x, q). map_option (\<lambda>(xs, q). (x # xs, q)) (pop_n n q))"

lemma put_all_ok: "inv q \<Longrightarrow> \<exists>q'. put_all q xs = Some q' \<and> inv q' \<and> list q' = list q @ xs"
proof (induction xs arbitrary: q)
  case (Cons x xs)
  obtain q1 where "put q x = Some q1" "inv q1" "list q1 = list q @ [x]"
    using put_ok [OF Cons.prems] by blast
  with Cons.IH [of q1] show ?case by auto
qed simp

lemma pop_n_ok:
  "inv q \<Longrightarrow> n \<le> size q \<Longrightarrow>
    \<exists>q'. pop_n n q = Some (take n (list q), q') \<and> inv q' \<and> list q' = drop n (list q)"
proof (induction n arbitrary: q)
  case (Suc n)
  then obtain x xs where l: "list q = x # xs" by (cases "list q") (auto simp: size_length)
  obtain q1 where q1: "pop q = Some (x, q1)" "inv q1" "list q1 = xs"
    using pop_ok [OF Suc.prems(1) l] by blast
  with Suc.prems l have "n \<le> size q1" by (simp add: size_length)
  from Suc.IH [OF q1(2) this] q1 l show ?case by auto
qed simp

lemma first_in_first_out:
  assumes "inv q"
  shows "\<exists>q1 q2. put_all q xs = Some q1 \<and> pop_n (size q + length xs) q1 = Some (list q @ xs, q2)
    \<and> list q2 = []"
proof -
  obtain q1 where q1: "put_all q xs = Some q1" "inv q1" "list q1 = list q @ xs"
    using put_all_ok [OF assms] by blast
  with pop_n_ok [OF q1(2), of "size q + length xs"] assms show ?thesis by (auto simp: size_length)
qed

end

section \<open>The code\<close>

record 'a Heap =
  vals :: "'a list"
  sart :: nat
  hsize :: nat

definition NewHeap :: "'a \<Rightarrow> nat \<Rightarrow> 'a Heap" where
  "NewHeap zero initCap = \<lparr>vals = replicate initCap zero, sart = 0, hsize = 0\<rparr>"

definition h_grow :: "'a \<Rightarrow> 'a Heap \<Rightarrow> 'a Heap option" where
  "h_grow zero h = do {
     src \<leftarrow> go_slice (vals h) (sart h) (length (vals h));
     let (tmp, n1) = go_copy (replicate (length (vals h) * 2) zero) src;
     dst \<leftarrow> go_slice tmp n1 (hsize h);
     let (dst, _) = go_copy dst (vals h);
     Some (h\<lparr>vals := take n1 tmp @ dst @ drop (hsize h) tmp, sart := 0\<rparr>)
   }"

definition h_Put :: "'a \<Rightarrow> 'a Heap \<Rightarrow> 'a \<Rightarrow> 'a Heap option" where
  "h_Put zero h t = do {
     h \<leftarrow> (if length (vals h) = hsize h then h_grow zero h else Some h);
     let i = sart h + hsize h;
     let i = (if i \<ge> length (vals h) then i - length (vals h) else i);
     vs \<leftarrow> go_store (vals h) i t;
     Some (h\<lparr>vals := vs, hsize := hsize h + 1\<rparr>)
   }"

definition h_Pop :: "'a \<Rightarrow> 'a Heap \<Rightarrow> ('a \<times> 'a Heap) option" where
  "h_Pop zero h =
     (if hsize h = 0 then Some (zero, h)
      else do {
        val \<leftarrow> go_index (vals h) (sart h);
        let s = sart h + 1;
        let s = (if s \<ge> length (vals h) then s - length (vals h) else s);
        Some (val, h\<lparr>hsize := hsize h - 1, sart := s\<rparr>)
      })"

definition h_Peek :: "'a \<Rightarrow> 'a Heap \<Rightarrow> 'a option" where
  "h_Peek zero h = (if hsize h = 0 then Some zero else go_index (vals h) (sart h))"

definition h_Size :: "'a Heap \<Rightarrow> nat" where
  "h_Size h = hsize h"

section \<open>The queue it implements\<close>

definition heap_inv :: "'a Heap \<Rightarrow> bool" where
  "heap_inv h \<longleftrightarrow> sart h < length (vals h) \<and> hsize h \<le> length (vals h)"

definition heap_list :: "'a Heap \<Rightarrow> 'a list" where
  "heap_list h = map (\<lambda>k. vals h ! ((sart h + k) mod length (vals h))) [0..<hsize h]"

lemma length_heap_list [simp]: "length (heap_list h) = hsize h"
  by (simp add: heap_list_def)

lemma NewHeap_ok: "0 < n \<Longrightarrow> heap_inv (NewHeap zero n) \<and> heap_list (NewHeap zero n) = []"
  by (simp add: heap_inv_def heap_list_def NewHeap_def)

lemma ring_index: "i < n \<Longrightarrow> k \<le> n \<Longrightarrow> (if i + k \<ge> n then i + k - n else i + k) = (i + k) mod (n :: nat)"
  by (cases "i + k = n + n") (auto simp: mod_if)

lemma ring_index_inj: "k < m \<Longrightarrow> m < n \<Longrightarrow> (i + k) mod n \<noteq> (i + m) mod (n :: nat)"
proof
  assume km: "k < m" "m < n" and "(i + k) mod n = (i + m) mod n"
  then have "n dvd (i + m) - (i + k)" using mod_eq_dvd_iff_nat [of "i + k" "i + m" n] by simp
  then have "n dvd m - k" by simp
  with km show False using nat_dvd_not_less [of "m - k" n] by simp
qed

lemma heap_list_full:
  assumes "heap_inv h" "hsize h = length (vals h)"
  shows "heap_list h = drop (sart h) (vals h) @ take (sart h) (vals h)"
proof (rule nth_equalityI)
  show "length (heap_list h) = length (drop (sart h) (vals h) @ take (sart h) (vals h))"
    using assms by (simp add: heap_inv_def)
  fix k assume k: "k < length (heap_list h)"
  then show "heap_list h ! k = (drop (sart h) (vals h) @ take (sart h) (vals h)) ! k"
    using assms ring_index [of "sart h" "length (vals h)" k, symmetric]
    by (auto simp: heap_list_def heap_inv_def nth_append algebra_simps)
qed

lemma h_grow_full:
  assumes "heap_inv h" "hsize h = length (vals h)"
  shows "h_grow zero h = Some (h\<lparr>vals := heap_list h @ replicate (length (vals h)) zero, sart := 0\<rparr>)"
  using assms
  by (simp add: h_grow_def heap_list_full heap_inv_def slice_simps go_copy_def Let_def min_def)

lemma heap_grow_ok:
  assumes "heap_inv h"
  shows "\<exists>g. (if length (vals h) = hsize h then h_grow zero h else Some h) = Some g
    \<and> heap_inv g \<and> hsize g < length (vals g) \<and> hsize g = hsize h \<and> heap_list g = heap_list h"
proof (cases "length (vals h) = hsize h")
  case True
  have "heap_list (h\<lparr>vals := heap_list h @ replicate (length (vals h)) zero, sart := 0\<rparr>) = heap_list h"
    using True assms
    by (intro nth_equalityI) (auto simp: heap_list_def [of "h\<lparr>vals := _, sart := _\<rparr>"] heap_inv_def nth_append)
  with True h_grow_full [OF assms, of zero] assms show ?thesis
    by (simp add: heap_inv_def)
next
  case False
  with assms show ?thesis by (simp add: heap_inv_def)
qed

lemma h_Put_ok:
  assumes "heap_inv h"
  shows "\<exists>h'. h_Put zero h x = Some h' \<and> heap_inv h' \<and> heap_list h' = heap_list h @ [x]"
proof -
  obtain g where g: "(if length (vals h) = hsize h then h_grow zero h else Some h) = Some g"
    "heap_inv g" "hsize g < length (vals g)" "heap_list g = heap_list h"
    using heap_grow_ok [OF assms] by blast
  let ?n = "length (vals g)" let ?i = "(sart g + hsize g) mod ?n"
  let ?h = "g\<lparr>vals := (vals g)[?i := x], hsize := hsize g + 1\<rparr>"
  have i: "?i < ?n" using g(3) by (intro mod_less_divisor) (cases "vals g", simp_all)
  have "h_Put zero h x = Some ?h"
    using g i ring_index [of "sart g" ?n "hsize g"]
    by (simp add: h_Put_def Let_def heap_inv_def go_store_Some)
  moreover have "heap_list ?h = heap_list g @ [x]"
    using ring_index_inj [of _ "hsize g" ?n "sart g"] g(3) i
    by (auto simp: heap_list_def intro!: nth_list_update_neq) metis
  ultimately show ?thesis using g(2-4) by (simp add: heap_inv_def)
qed

lemma h_Pop_ok:
  assumes "heap_inv h" "heap_list h = x # xs"
  shows "\<exists>h'. h_Pop zero h = Some (x, h') \<and> heap_inv h' \<and> heap_list h' = xs"
proof -
  let ?n = "length (vals h)"
  have pos: "0 < hsize h" using assms(2) length_heap_list [of h] by (cases "hsize h") auto
  have l: "heap_list h = vals h ! sart h # map (\<lambda>k. vals h ! ((sart h + Suc k) mod ?n)) [0..<hsize h - 1]"
  proof -
    have "[0..<hsize h] = 0 # map Suc [0..<hsize h - 1]"
      using pos upt_conv_Cons [of 0 "hsize h"] by (simp add: map_Suc_upt del: upt_Suc)
    then show ?thesis using assms(1) by (simp add: heap_list_def heap_inv_def)
  qed
  let ?h = "h\<lparr>hsize := hsize h - 1, sart := (sart h + 1) mod ?n\<rparr>"
  have "h_Pop zero h = Some (vals h ! sart h, ?h)"
    using pos assms(1) ring_index [of "sart h" ?n 1]
    by (cases "sart h + 1 = ?n") (auto simp: h_Pop_def Let_def heap_inv_def go_index_Some)
  moreover have "heap_list ?h = map (\<lambda>k. vals h ! ((sart h + Suc k) mod ?n)) [0..<hsize h - 1]"
    by (simp add: heap_list_def mod_add_left_eq)
  moreover have "heap_inv ?h"
    using assms(1) mod_less_divisor [of ?n "Suc (sart h)"]
    by (cases "vals h = []") (auto simp: heap_inv_def)
  ultimately show ?thesis using l assms(2) by simp
qed

lemma h_Peek_ok: "heap_inv h \<Longrightarrow> heap_list h = x # xs \<Longrightarrow> h_Peek zero h = Some x"
  by (cases "hsize h") (auto simp: h_Peek_def heap_list_def heap_inv_def go_index_Some upt_conv_Cons simp del: upt_Suc)

lemma h_empty: "hsize h = 0 \<Longrightarrow> h_Pop zero h = Some (zero, h) \<and> h_Peek zero h = Some zero"
  by (simp add: h_Pop_def h_Peek_def)

interpretation ring: fifo "h_Put zero" "h_Pop zero" "h_Peek zero" h_Size heap_list heap_inv for zero
  by unfold_locales (auto simp: h_Put_ok h_Pop_ok h_Peek_ok h_Size_def)

end
