(* ===== verification/Link_Manager.thy ===== *)
theory Link_Manager
  imports Link_Types Link_Heap Port_Adapter
begin

text \<open>
  \<open>linkManager\<close> of \<open>links/maps/maps.go\<close>: the links of the proxy server, found
  by their uplink side (client packet to local port) and by their downlink side (server
  packet to client connection), with a time-to-live queue.

  The port adapter can be shared between several managers (\<open>links/maps/mutx.go\<close>), so
  it is not a field here but passed along with the open sockets of the system. A time is
  a number of nanoseconds, with 0 for Go's zero time; \<open>clk k\<close> is the \<open>k\<close>-th
  reading of the clock during a call. A client connection is a value of the type
  parameter \<open>'c\<close>.
\<close>

section \<open>State\<close>

type_synonym time = int

record ttlkey =
  tk_up :: Uplink
  tk_start :: time

record 'c downkey =
  dk_conn :: 'c
  dk_port :: u16

record 'c linkManager =
  lm_addr :: addr
  duration :: int
  uplinkMap :: "Uplink \<rightharpoonup> port"
  ttl :: "ttlkey Heap"
  downlinkMap :: "Downlink \<rightharpoonup> 'c downkey"

definition zero_ap :: addrport where "zero_ap = AddrPort AddrZero 0"

definition zero_ttlkey :: ttlkey where
  "zero_ttlkey = \<lparr>tk_up = \<lparr>up_process = zero_ap, up_proto = 0, up_server = zero_ap\<rparr>, tk_start = 0\<rparr>"

definition tk_valid :: "ttlkey \<Rightarrow> bool" where
  "tk_valid t \<longleftrightarrow>
     ap_valid (up_process (tk_up t)) \<and> ap_valid (up_server (tk_up t)) \<and> tk_start t \<noteq> 0"

definition newLinkManager :: "Adapter \<Rightarrow> int \<Rightarrow> 'c linkManager option" where
  "newLinkManager ap d =
     map_option (\<lambda>a. \<lparr>lm_addr = a, duration = d, uplinkMap = Map.empty,
        ttl = NewHeap zero_ttlkey 64, downlinkMap = Map.empty\<rparr>) (ap_Addr ap)"

section \<open>Cleanup\<close>

text \<open>The loop that pops the queue. \<open>ls\<close> collects the removed links; the slice
  \<open>ups\<close> of the code is the list of their uplinks. An uplink missing from the map is
  a nil pointer, so \<open>Idle\<close> panics. The reading \<open>clk k\<close> of \<open>time.Since\<close> is
  not taken for an invalid entry, and its number is then left unused.\<close>

lemma h_Pop_hsize: "h_Pop z h = Some (v, h') \<Longrightarrow> 0 < hsize h \<Longrightarrow> hsize h' = hsize h - 1"
  by (auto simp: h_Pop_def Let_def bind_eq_Some_conv split: if_splits)

lemma h_grow_hsize: "h_grow z h = Some g \<Longrightarrow> hsize g = hsize h"
  by (auto simp: h_grow_def Let_def case_prod_beta bind_eq_Some_conv)

lemma h_Put_hsize: "h_Put z h v = Some h' \<Longrightarrow> hsize h' = hsize h + 1"
  by (auto simp: h_Put_def Let_def bind_eq_Some_conv h_grow_hsize split: if_splits)

function cleanup_loop ::
  "(nat \<Rightarrow> time) \<Rightarrow> nat \<Rightarrow> nat \<Rightarrow> 'c linkManager \<Rightarrow> Link list
    \<Rightarrow> ('c linkManager \<times> Link list) option" where
  "cleanup_loop clk k i t ls =
     (if i < h_Size (ttl t) then
        (case h_Pop zero_ttlkey (ttl t) of
           None \<Rightarrow> None
         | Some (e, q) \<Rightarrow>
             if tk_valid e \<and> clk k - tk_start e > duration t then
               (case uplinkMap t (tk_up e) of
                  None \<Rightarrow> None
                | Some p \<Rightarrow>
                    (let (idle, p) = port_Idle p in
                     if idle then
                       cleanup_loop clk (k + 1) (i + 1)
                         (t\<lparr>ttl := q, uplinkMap := (uplinkMap t)(tk_up e := None)\<rparr>)
                         (ls @ [\<lparr>link_up = tk_up e,
                                 link_local = AddrPort (lm_addr t) (fst (port_Port p))\<rparr>])
                     else
                       (case h_Put zero_ttlkey q \<lparr>tk_up = tk_up e, tk_start = clk (k + 1)\<rparr> of
                          None \<Rightarrow> None
                        | Some q \<Rightarrow>
                            cleanup_loop clk (k + 2) (i + 1)
                              (t\<lparr>ttl := q, uplinkMap := (uplinkMap t)(tk_up e \<mapsto> p)\<rparr>) ls)))
             else
               (case h_Put zero_ttlkey q \<lparr>tk_up = tk_up e, tk_start = clk (k + 1)\<rparr> of
                  None \<Rightarrow> None
                | Some q \<Rightarrow> Some (t\<lparr>ttl := q\<rparr>, ls)))
      else Some (t, ls))"
  by pat_completeness auto
termination
  by (relation "measure (\<lambda>(clk, k, i, t, ls). h_Size (ttl t) - i)")
    (auto simp: h_Size_def dest!: h_Pop_hsize h_Put_hsize)

declare cleanup_loop.simps [simp del]

definition down_key :: "addr \<Rightarrow> Uplink \<Rightarrow> u16 \<Rightarrow> Downlink" where
  "down_key a e p = \<lparr>dn_server = up_server e, dn_proto = up_proto e, dn_local = AddrPort a p\<rparr>"

fun cleanup_downlinks :: "'c linkManager \<Rightarrow> Link list \<Rightarrow> 'c linkManager" where
  "cleanup_downlinks t [] = t"
| "cleanup_downlinks t (l # ls) =
     cleanup_downlinks
       (t\<lparr>downlinkMap := (downlinkMap t)
            (down_key (lm_addr t) (link_up l) (ap_port (link_local l)) := None)\<rparr>) ls"

definition link_triple :: "Link \<Rightarrow> proto \<times> u16 \<times> addrport" where
  "link_triple l = (up_proto (link_up l), ap_port (link_local l), up_server (link_up l))"

definition Cleanup ::
  "ap_state \<Rightarrow> (listener \<Rightarrow> go_error option) \<Rightarrow> (nat \<Rightarrow> time) \<Rightarrow> 'c linkManager
    \<Rightarrow> (ap_state \<times> 'c linkManager \<times> Link list) option" where
  "Cleanup ap cl clk t = do {
     (t, ls) \<leftarrow> cleanup_loop clk 0 0 t [];
     if ls = [] then Some (ap, t, [])
     else do {
       let t = cleanup_downlinks t ls;
       ap \<leftarrow> del_all DelPort ap cl (map link_triple ls);
       Some (ap, t, ls)
     }
   }"

section \<open>The other operations\<close>

record add_env =
  ae_close :: "listener \<Rightarrow> go_error option"
  ae_clock :: "nat \<Rightarrow> time"
  ae_now :: time
  ae_port :: "(portKey \<times> AddrSet) list \<times> listen_answer"

definition lm_Add ::
  "ap_state \<Rightarrow> add_env \<Rightarrow> 'c linkManager \<Rightarrow> Uplink \<Rightarrow> 'c
    \<Rightarrow> (ap_state \<times> 'c linkManager \<times> u16 result) option" where
  "lm_Add ap env t s conn = do {
     (ap, t, _) \<leftarrow> Cleanup ap (ae_close env) (ae_clock env) t;
     (ap, r) \<leftarrow> GetPort ap (ae_port env) (up_proto s) (up_server s);
     case r of
       Inl err \<Rightarrow> Some (ap, t, Inl err)
     | Inr localPort \<Rightarrow> do {
         q \<leftarrow> h_Put zero_ttlkey (ttl t) \<lparr>tk_up = s, tk_start = ae_now env\<rparr>;
         let t = t\<lparr>uplinkMap := (uplinkMap t)(s \<mapsto> NewPort localPort), ttl := q\<rparr>;
         let t = t\<lparr>downlinkMap := (downlinkMap t)(down_key (lm_addr t) s localPort \<mapsto>
               \<lparr>dk_conn = conn, dk_port = ap_port (up_process s)\<rparr>)\<rparr>;
         Some (ap, t, Inr localPort)
       }
   }"

definition lm_Uplink :: "'c linkManager \<Rightarrow> Uplink \<Rightarrow> 'c linkManager \<times> u16 option" where
  "lm_Uplink t s =
     (case uplinkMap t s of None \<Rightarrow> (t, None)
      | Some p \<Rightarrow>
         (let (port, p) = port_Port p in (t\<lparr>uplinkMap := (uplinkMap t)(s \<mapsto> p)\<rparr>, Some port)))"

definition lm_Downlink :: "'c linkManager \<Rightarrow> Downlink \<Rightarrow> ('c \<times> u16) option" where
  "lm_Downlink t s =
     (case downlinkMap t s of None \<Rightarrow> None | Some key \<Rightarrow> Some (dk_conn key, dk_port key))"

definition lm_Close ::
  "ap_state \<Rightarrow> (portKey \<times> AddrSet) list \<Rightarrow> (listener \<Rightarrow> go_error option)
    \<Rightarrow> ap_state \<times> go_error option" where
  "lm_Close ap ord cl = ap_Close ap ord cl"

section \<open>Invariant\<close>

text \<open>The triples of the port adapter that the live links of a manager occupy.\<close>

definition own :: "'c linkManager \<Rightarrow> (proto \<times> u16 \<times> addrport) set" where
  "own t = {(up_proto s, port_num d, up_server s) | s d. uplinkMap t s = Some d}"

text \<open>The queue holds exactly one valid entry per live uplink.\<close>

definition queue_inv :: "'c linkManager \<Rightarrow> bool" where
  "queue_inv t \<longleftrightarrow> heap_inv (ttl t) \<and> distinct (map tk_up (heap_list (ttl t)))
     \<and> set (map tk_up (heap_list (ttl t))) = dom (uplinkMap t)
     \<and> (\<forall>e \<in> set (heap_list (ttl t)). tk_valid e)"

text \<open>The two maps agree, and no two live uplinks share a triple, hence a downlink key.\<close>

definition links_inv :: "'c linkManager \<Rightarrow> bool" where
  "links_inv t \<longleftrightarrow>
     (\<forall>s d. uplinkMap t s = Some d \<longrightarrow> (\<exists>k. downlinkMap t (down_key (lm_addr t) s (port_num d)) = Some k
        \<and> dk_port k = ap_port (up_process s)))
   \<and> (\<forall>x k. downlinkMap t x = Some k \<longrightarrow> (\<exists>s d. uplinkMap t s = Some d
        \<and> x = down_key (lm_addr t) s (port_num d)))
   \<and> (\<forall>s d s' d'. uplinkMap t s = Some d \<longrightarrow> uplinkMap t s' = Some d' \<longrightarrow>
        (up_proto s, port_num d, up_server s) = (up_proto s', port_num d', up_server s') \<longrightarrow> s = s')"

lemma links_down: "links_inv t \<Longrightarrow> uplinkMap t s = Some d \<Longrightarrow>
    \<exists>k. downlinkMap t (down_key (lm_addr t) s (port_num d)) = Some k \<and> dk_port k = ap_port (up_process s)"
  by (simp add: links_inv_def)

lemma links_unique: "links_inv t \<Longrightarrow> uplinkMap t s = Some d \<Longrightarrow> uplinkMap t s' = Some d' \<Longrightarrow>
    (up_proto s, port_num d, up_server s) = (up_proto s', port_num d', up_server s') \<Longrightarrow> s = s'"
  unfolding links_inv_def by blast

definition lm_inv :: "ap_state \<Rightarrow> 'c linkManager \<Rightarrow> bool" where
  "lm_inv ap t \<longleftrightarrow> adapter_inv ap \<and> own t \<subseteq> used ap \<and> queue_inv t \<and> links_inv t"

lemma down_key_eq: "down_key a s p = down_key a s' p' \<longleftrightarrow>
    (up_proto s, p, up_server s) = (up_proto s', p', up_server s')"
  by (auto simp: down_key_def)

section \<open>The sweep of Cleanup\<close>

text \<open>What removing a link requires: in the state before the sweep its counter was zero
  and its queue entry had expired at some reading of the clock.\<close>

definition removable :: "(nat \<Rightarrow> time) \<Rightarrow> 'c linkManager \<Rightarrow> Link \<Rightarrow> bool" where
  "removable clk t l \<longleftrightarrow>
     (\<exists>d. uplinkMap t (link_up l) = Some d \<and> port_uses d = 0
        \<and> link_local l = AddrPort (lm_addr t) (port_num d))
   \<and> (\<exists>e k. e \<in> set (heap_list (ttl t)) \<and> tk_up e = link_up l \<and> duration t < clk k - tk_start e)"

definition same_port :: "port option \<Rightarrow> port option \<Rightarrow> bool" where
  "same_port x y = rel_option (\<lambda>d d'. port_num d = port_num d') x y"

text \<open>The invariant of the loop: the entries not yet visited are in front, unchanged; the
  visited ones are requeued behind them or removed.\<close>

definition sweep_inv ::
  "(nat \<Rightarrow> time) \<Rightarrow> 'c linkManager \<Rightarrow> nat \<Rightarrow> 'c linkManager \<Rightarrow> Link list \<Rightarrow> ttlkey list \<Rightarrow> bool" where
  "sweep_inv clk t0 i t ls rq \<longleftrightarrow>
     heap_inv (ttl t) \<and> heap_list (ttl t) = drop i (heap_list (ttl t0)) @ rq \<and> length rq \<le> i
   \<and> distinct (map tk_up (drop i (heap_list (ttl t0))) @ map tk_up rq @ map link_up ls)
   \<and> set (map tk_up (drop i (heap_list (ttl t0)))) \<union> set (map tk_up rq) \<union> set (map link_up ls)
       = dom (uplinkMap t0)
   \<and> (\<forall>e \<in> set rq. tk_valid e) \<and> (\<forall>l \<in> set ls. removable clk t0 l)
   \<and> lm_addr t = lm_addr t0 \<and> duration t = duration t0 \<and> downlinkMap t = downlinkMap t0
   \<and> (\<forall>s. if s \<in> set (map link_up ls) then uplinkMap t s = None
          else same_port (uplinkMap t s) (uplinkMap t0 s))
   \<and> (\<forall>s \<in> set (map tk_up (drop i (heap_list (ttl t0)))). uplinkMap t s = uplinkMap t0 s)"

lemma sweep_start: "queue_inv t \<Longrightarrow> sweep_inv clk t 0 t [] []"
  by (auto simp: sweep_inv_def queue_inv_def same_port_def option.rel_refl)

lemma sweep_next:
  assumes "sweep_inv clk t0 i t ls rq" "i < h_Size (ttl t)"
  obtains e q where "h_Pop zero_ttlkey (ttl t) = Some (e, q)" "heap_inv q"
    "drop i (heap_list (ttl t0)) = e # drop (i + 1) (heap_list (ttl t0))"
    "heap_list q = drop (i + 1) (heap_list (ttl t0)) @ rq"
proof -
  let ?L = "heap_list (ttl t0)"
  have h: "heap_inv (ttl t)" "heap_list (ttl t) = drop i ?L @ rq" "length rq \<le> i"
    using assms(1) by (auto simp: sweep_inv_def)
  have "i < length ?L"
    using assms(2) h(2,3) length_heap_list [of "ttl t"] by (cases "i < length ?L") (auto simp: h_Size_def)
  then have d: "drop i ?L = ?L ! i # drop (i + 1) ?L" by (simp add: Cons_nth_drop_Suc)
  from ring.pop_ok [OF h(1), of "?L ! i" "drop (i + 1) ?L @ rq"] h(2) d that [of "?L ! i"]
  show ?thesis by auto
qed

lemma sweep_remove:
  assumes inv: "sweep_inv clk t0 i t ls rq"
    and d: "drop i (heap_list (ttl t0)) = e # drop (i + 1) (heap_list (ttl t0))"
    and q: "heap_inv q" "heap_list q = drop (i + 1) (heap_list (ttl t0)) @ rq"
    and l: "link_up l = tk_up e" "removable clk t0 l"
  shows "sweep_inv clk t0 (i + 1) (t\<lparr>ttl := q, uplinkMap := (uplinkMap t)(tk_up e := None)\<rparr>)
    (ls @ [l]) rq"
  using assms unfolding sweep_inv_def d
  by (auto split: if_splits) (metis imageI)

lemma sweep_requeue:
  assumes inv: "sweep_inv clk t0 i t ls rq"
    and d: "drop i (heap_list (ttl t0)) = e # drop (i + 1) (heap_list (ttl t0))"
    and q: "heap_inv q" "heap_list q = drop (i + 1) (heap_list (ttl t0)) @ rq @ [e']"
    and e': "tk_up e' = tk_up e" "tk_valid e'"
    and p: "uplinkMap t0 (tk_up e) = Some p" "port_num p' = port_num p"
  shows "sweep_inv clk t0 (i + 1) (t\<lparr>ttl := q, uplinkMap := (uplinkMap t)(tk_up e \<mapsto> p')\<rparr>)
    ls (rq @ [e'])"
  using assms unfolding sweep_inv_def d
  by (auto simp: same_port_def split: if_splits) (metis imageI)


text \<open>Under the queue invariant the loop returns: it pops no missing uplink.\<close>

lemma cleanup_loop_ok:
  assumes "queue_inv t0" "\<And>k. clk k \<noteq> 0" "sweep_inv clk t0 i t ls rq"
  shows "\<exists>t' ls' j rq'. cleanup_loop clk k i t ls = Some (t', ls') \<and> sweep_inv clk t0 j t' ls' rq'"
  using assms(3)
proof (induction "h_Size (ttl t) - i" arbitrary: k i t ls rq rule: less_induct)
  case less
  note inv = less.prems
  show ?case
  proof (cases "i < h_Size (ttl t)")
    case False
    then have "cleanup_loop clk k i t ls = Some (t, ls)" by (subst cleanup_loop.simps) simp
    with inv show ?thesis by blast
  next
    case True
    obtain e q where e: "h_Pop zero_ttlkey (ttl t) = Some (e, q)" "heap_inv q"
      "drop i (heap_list (ttl t0)) = e # drop (i + 1) (heap_list (ttl t0))"
      "heap_list q = drop (i + 1) (heap_list (ttl t0)) @ rq"
      using sweep_next [OF inv True] .
    have mem: "e \<in> set (heap_list (ttl t0))" using e(3) in_set_dropD [of e i] by simp
    with assms(1) obtain p where p: "uplinkMap t0 (tk_up e) = Some p" and val: "tk_valid e"
      by (fastforce simp: queue_inv_def)
    have pt: "uplinkMap t (tk_up e) = Some p" using inv e(3) p by (simp add: sweep_inv_def)
    have fields: "lm_addr t = lm_addr t0" "duration t = duration t0" using inv by (simp_all add: sweep_inv_def)
    define e' where "e' = \<lparr>tk_up = tk_up e, tk_start = clk (k + 1)\<rparr>"
    have e': "tk_up e' = tk_up e" "tk_valid e'"
      using val assms(2) [of "k + 1"] by (simp_all add: e'_def tk_valid_def)
    obtain q' where q': "h_Put zero_ttlkey q e' = Some q'" "heap_inv q'"
      "heap_list q' = drop (i + 1) (heap_list (ttl t0)) @ rq @ [e']"
      using ring.put_ok [OF e(2), of zero_ttlkey e'] e(4) by auto
    obtain idle d where id: "port_Idle p = (idle, d)" by (cases "port_Idle p")
    have d: "port_num d = port_num p" "port_uses d = 0" "idle \<longleftrightarrow> port_uses p = 0"
      using port_Idle_eq [of p] id by simp_all
    have size: "h_Size q - (i + 1) < h_Size (ttl t) - i" "h_Size q' - (i + 1) < h_Size (ttl t) - i"
      using True h_Pop_hsize [OF e(1)] h_Put_hsize [OF q'(1)] by (simp_all add: h_Size_def)
    note unf = cleanup_loop.simps [of clk k i t ls]
    show ?thesis
    proof (cases "clk k - tk_start e > duration t")
      case False
      then have "cleanup_loop clk k i t ls = Some (t\<lparr>ttl := q'\<rparr>, ls)"
        using True e(1) q'(1) by (simp add: unf e'_def)
      moreover have "t\<lparr>ttl := q'\<rparr> = t\<lparr>ttl := q', uplinkMap := (uplinkMap t)(tk_up e \<mapsto> p)\<rparr>"
        using pt by (cases t) (simp add: fun_upd_idem)
      ultimately show ?thesis
        using sweep_requeue [OF inv e(3) q'(2,3) e' p, of p] by metis
    next
      case expired: True
      show ?thesis
      proof (cases idle)
        case True
        let ?l = "\<lparr>link_up = tk_up e, link_local = AddrPort (lm_addr t) (fst (port_Port d))\<rparr>"
        have "removable clk t0 ?l"
          using p d True mem expired fields port_Port_eq [of d] by (fastforce simp: removable_def)
        from sweep_remove [OF inv e(3) e(2) e(4) _ this]
        have "sweep_inv clk t0 (i + 1) (t\<lparr>ttl := q, uplinkMap := (uplinkMap t)(tk_up e := None)\<rparr>)
          (ls @ [?l]) rq" by simp
        from less.hyps [OF _ this] size(1)
        show ?thesis using \<open>i < h_Size (ttl t)\<close> e(1) val expired pt id True by (simp add: unf)
      next
        case False
        from less.hyps [OF _ sweep_requeue [OF inv e(3) q'(2,3) e' p d(1)]] size(2)
        show ?thesis using \<open>i < h_Size (ttl t)\<close> e(1) val expired pt id False q'(1)
          by (simp add: unf e'_def)
      qed
    qed
  qed
qed

section \<open>Cleanup keeps the invariant\<close>

definition down_of :: "addr \<Rightarrow> Link \<Rightarrow> Downlink" where
  "down_of a l = down_key a (link_up l) (ap_port (link_local l))"

lemma cleanup_downlinks_eq:
  "cleanup_downlinks t ls = t\<lparr>downlinkMap := (\<lambda>x. if x \<in> down_of (lm_addr t) ` set ls then None
     else downlinkMap t x)\<rparr>"
  by (induction t ls rule: cleanup_downlinks.induct) (auto simp: down_of_def fun_eq_iff)

lemma sweep_queue_inv: "sweep_inv clk t0 i t ls rq \<Longrightarrow> queue_inv t0 \<Longrightarrow> queue_inv t"
  unfolding queue_inv_def
proof (intro conjI)
  assume s: "sweep_inv clk t0 i t ls rq"
    and q: "heap_inv (ttl t0) \<and> distinct (map tk_up (heap_list (ttl t0)))
      \<and> set (map tk_up (heap_list (ttl t0))) = dom (uplinkMap t0)
      \<and> (\<forall>e \<in> set (heap_list (ttl t0)). tk_valid e)"
  let ?d = "drop i (heap_list (ttl t0))"
  have up: "if x \<in> set (map link_up ls) then uplinkMap t x = None
      else same_port (uplinkMap t x) (uplinkMap t0 x)" for x
    using s by (simp add: sweep_inv_def)
  have dom: "x \<in> dom (uplinkMap t) \<longleftrightarrow> x \<in> dom (uplinkMap t0) - set (map link_up ls)" for x
    using up [of x] by (auto simp: same_port_def rel_option_iff split: if_splits option.splits)
  have l: "heap_list (ttl t) = ?d @ rq"
    and ds: "distinct (map tk_up ?d @ map tk_up rq @ map link_up ls)"
    and un: "set (map tk_up ?d) \<union> set (map tk_up rq) \<union> set (map link_up ls) = dom (uplinkMap t0)"
    using s by (simp_all add: sweep_inv_def)
  show "set (map tk_up (heap_list (ttl t))) = dom (uplinkMap t)"
  proof (rule set_eqI)
    fix x show "x \<in> set (map tk_up (heap_list (ttl t))) \<longleftrightarrow> x \<in> dom (uplinkMap t)"
      unfolding dom un [symmetric] l using ds by auto
  qed
  show "distinct (map tk_up (heap_list (ttl t)))" using ds l by (auto simp: Int_Un_distrib)
  show "heap_inv (ttl t)" using s by (simp add: sweep_inv_def)
  show "\<forall>e \<in> set (heap_list (ttl t)). tk_valid e"
    using s q in_set_dropD [of _ i "heap_list (ttl t0)"] by (auto simp: sweep_inv_def)
qed

text \<open>What the maps hold after the sweep and the removal of the downlinks.\<close>

lemma sweep_up:
  assumes "sweep_inv clk t0 i t ls rq"
  shows "uplinkMap t s = Some d \<Longrightarrow> s \<notin> set (map link_up ls)
      \<and> (\<exists>d0. uplinkMap t0 s = Some d0 \<and> port_num d0 = port_num d)"
    and "uplinkMap t0 s = Some d0 \<Longrightarrow> s \<notin> set (map link_up ls) \<Longrightarrow>
      \<exists>d. uplinkMap t s = Some d \<and> port_num d0 = port_num d"
proof -
  have up: "if s \<in> set (map link_up ls) then uplinkMap t s = None
      else same_port (uplinkMap t s) (uplinkMap t0 s)"
    using assms by (simp add: sweep_inv_def)
  then show "uplinkMap t s = Some d \<Longrightarrow> s \<notin> set (map link_up ls)
      \<and> (\<exists>d0. uplinkMap t0 s = Some d0 \<and> port_num d0 = port_num d)"
    by (auto simp: same_port_def rel_option_iff split: if_splits option.splits)
  from up show "uplinkMap t0 s = Some d0 \<Longrightarrow> s \<notin> set (map link_up ls) \<Longrightarrow>
      \<exists>d. uplinkMap t s = Some d \<and> port_num d0 = port_num d"
    by (auto simp: same_port_def rel_option_iff split: if_splits option.splits)
qed

lemma removableD:
  assumes "removable clk t l"
  obtains d where "uplinkMap t (link_up l) = Some d" "port_uses d = 0"
    "link_local l = AddrPort (lm_addr t) (port_num d)"
    "link_triple l = (up_proto (link_up l), port_num d, up_server (link_up l))"
    "down_of (lm_addr t) l = down_key (lm_addr t) (link_up l) (port_num d)"
  using assms by (auto simp: removable_def link_triple_def down_of_def)

lemma sweep_own:
  assumes s: "sweep_inv clk t0 i t ls rq" and inv: "links_inv t0"
  shows "own t = own t0 - set (map link_triple ls)"
    and "set (map link_triple ls) \<subseteq> own t0" and "distinct (map link_triple ls)"
proof -
  have rem: "removable clk t0 l" if "l \<in> set ls" for l using s that by (simp add: sweep_inv_def)
  have inj: "s = s'" if "uplinkMap t0 s = Some d" "uplinkMap t0 s' = Some d'"
    "(up_proto s, port_num d, up_server s) = (up_proto s', port_num d', up_server s')" for s d s' d'
    using inv that unfolding links_inv_def by (elim conjE) (drule spec, drule spec, blast)
  have tri: "link_up l = x" if l: "l \<in> set ls" and x: "uplinkMap t0 x = Some d"
    and eq: "link_triple l = (up_proto x, port_num d, up_server x)" for l x d
  proof -
    from rem [OF l] obtain d' where "uplinkMap t0 (link_up l) = Some d'"
      "link_triple l = (up_proto (link_up l), port_num d', up_server (link_up l))" by (rule removableD)
    with inj [OF this(1) x] eq show ?thesis by simp
  qed
  show "set (map link_triple ls) \<subseteq> own t0"
  proof (rule subsetI)
    fix x assume "x \<in> set (map link_triple ls)"
    then obtain l where "l \<in> set ls" "x = link_triple l" by auto
    then show "x \<in> own t0" using rem [of l] by (auto simp: own_def elim!: removableD)
  qed
  have "inj_on link_triple (set ls)"
  proof (rule inj_onI)
    fix l l' assume l: "l \<in> set ls" "l' \<in> set ls" "link_triple l = link_triple l'"
    from rem [OF l(2)] obtain d where "uplinkMap t0 (link_up l') = Some d"
      "link_triple l' = (up_proto (link_up l'), port_num d, up_server (link_up l'))"
      "link_local l' = AddrPort (lm_addr t0) (port_num d)" by (rule removableD)
    moreover from rem [OF l(1)] obtain d' where "link_local l = AddrPort (lm_addr t0) (port_num d')"
      "link_triple l = (up_proto (link_up l), port_num d', up_server (link_up l))" by (rule removableD)
    ultimately show "l = l'" using tri [OF l(1)] l(3) by simp
  qed
  moreover have "distinct ls" using s by (auto simp: sweep_inv_def distinct_map)
  ultimately show "distinct (map link_triple ls)" by (simp add: distinct_map)
  show "own t = own t0 - set (map link_triple ls)"
  proof (intro set_eqI iffI)
    fix x assume "x \<in> own t"
    then obtain u d where u: "uplinkMap t u = Some d" and x: "x = (up_proto u, port_num d, up_server u)"
      by (auto simp: own_def)
    from sweep_up(1) [OF s u] obtain d0 where d0: "uplinkMap t0 u = Some d0" "port_num d0 = port_num d"
      and n: "u \<notin> set (map link_up ls)" by blast
    then have "x \<in> own t0" unfolding own_def x by (metis (mono_tags, lifting) mem_Collect_eq)
    moreover have "x \<noteq> link_triple l" if "l \<in> set ls" for l
      using tri [OF that d0(1)] d0(2) n that x by auto
    ultimately show "x \<in> own t0 - set (map link_triple ls)" by auto
  next
    fix x assume x: "x \<in> own t0 - set (map link_triple ls)"
    then obtain u d0 where u: "uplinkMap t0 u = Some d0" "x = (up_proto u, port_num d0, up_server u)"
      by (auto simp: own_def)
    have "u \<noteq> link_up l" if l: "l \<in> set ls" for l
    proof
      assume "u = link_up l"
      with rem [OF l] u have "x = link_triple l" by (auto elim!: removableD)
      with l x show False by auto
    qed
    then have "u \<notin> set (map link_up ls)" by auto
    from sweep_up(2) [OF s u(1) this] u(2) show "x \<in> own t" by (auto simp: own_def)
  qed
qed

lemma down_key_inj [simp]: "down_key a u p = down_key b v q \<longleftrightarrow>
    a = b \<and> p = q \<and> up_proto u = up_proto v \<and> up_server u = up_server v"
  by (auto simp: down_key_def)

lemma sweep_links_inv:
  assumes s: "sweep_inv clk t0 i t ls rq" and inv: "links_inv t0"
  shows "links_inv (cleanup_downlinks t ls)"
proof -
  let ?t = "cleanup_downlinks t ls"
  have f: "lm_addr t = lm_addr t0" "downlinkMap t = downlinkMap t0" using s by (simp_all add: sweep_inv_def)
  have upt: "uplinkMap ?t = uplinkMap t" "lm_addr ?t = lm_addr t0" using f by (simp_all add: cleanup_downlinks_eq)
  have dn: "downlinkMap ?t x = (if x \<in> down_of (lm_addr t0) ` set ls then None else downlinkMap t0 x)" for x
    using f by (simp add: cleanup_downlinks_eq)
  have rem: "removable clk t0 l" if "l \<in> set ls" for l using s that by (simp add: sweep_inv_def)
  have inj: "u = v" if "uplinkMap t0 u = Some d" "uplinkMap t0 v = Some d'"
    "down_key (lm_addr t0) u (port_num d) = down_key (lm_addr t0) v (port_num d')" for u d v d'
    using inv that unfolding links_inv_def by (elim conjE) (drule spec, drule spec, simp, blast)
  have miss: "down_key (lm_addr t0) u (port_num d) \<notin> down_of (lm_addr t0) ` set ls"
    if u: "uplinkMap t0 u = Some d" "u \<notin> set (map link_up ls)" for u d
  proof
    assume "down_key (lm_addr t0) u (port_num d) \<in> down_of (lm_addr t0) ` set ls"
    then obtain l where l: "l \<in> set ls" "down_key (lm_addr t0) u (port_num d) = down_of (lm_addr t0) l" by blast
    from rem [OF l(1)] obtain d' where "uplinkMap t0 (link_up l) = Some d'"
      "down_of (lm_addr t0) l = down_key (lm_addr t0) (link_up l) (port_num d')" by (rule removableD)
    with inj [OF u(1) this(1)] l u(2) show False by auto
  qed
  have one: "\<exists>k. downlinkMap ?t (down_key (lm_addr ?t) u (port_num d)) = Some k
      \<and> dk_port k = ap_port (up_process u)" if u: "uplinkMap ?t u = Some d" for u d
  proof -
    from u sweep_up(1) [OF s, of u d] upt obtain d0 where
      d0: "uplinkMap t0 u = Some d0" "port_num d0 = port_num d" "u \<notin> set (map link_up ls)" by auto
    then have "\<exists>k. downlinkMap t0 (down_key (lm_addr t0) u (port_num d0)) = Some k
        \<and> dk_port k = ap_port (up_process u)"
      using inv unfolding links_inv_def by blast
    then show ?thesis using miss [OF d0(1,3)] d0(2) by (simp add: dn upt)
  qed
  have two: "\<exists>u d. uplinkMap ?t u = Some d \<and> x = down_key (lm_addr ?t) u (port_num d)"
    if x: "downlinkMap ?t x = Some k" for x k
  proof -
    from x have "downlinkMap t0 x = Some k" and nx: "x \<notin> down_of (lm_addr t0) ` set ls"
      by (auto simp: dn split: if_splits)
    with inv obtain u d0 where u: "uplinkMap t0 u = Some d0" "x = down_key (lm_addr t0) u (port_num d0)"
      unfolding links_inv_def by blast
    have "u \<notin> set (map link_up ls)"
    proof
      assume "u \<in> set (map link_up ls)"
      then obtain l where l: "l \<in> set ls" "u = link_up l" by auto
      from rem [OF l(1)] u l(2) have "x = down_of (lm_addr t0) l" by (auto elim!: removableD)
      with l(1) nx show False by blast
    qed
    from sweep_up(2) [OF s u(1) this] u(2) show ?thesis by (auto simp: upt)
  qed
  have three: "u = v" if "uplinkMap ?t u = Some d" "uplinkMap ?t v = Some d'"
    "(up_proto u, port_num d, up_server u) = (up_proto v, port_num d', up_server v)" for u d v d'
  proof -
    from sweep_up(1) [OF s, of u d] that upt obtain d0 where "uplinkMap t0 u = Some d0" "port_num d0 = port_num d" by auto
    moreover from sweep_up(1) [OF s, of v d'] that upt obtain d1 where "uplinkMap t0 v = Some d1" "port_num d1 = port_num d'" by auto
    ultimately show ?thesis using inj [of u d0 v d1] that(3) by simp
  qed
  from one two three show ?thesis unfolding links_inv_def by blast
qed

lemma Cleanup_ok:
  assumes inv: "lm_inv ap t" and clk: "\<forall>k. clk k \<noteq> 0"
  shows "\<exists>ap' t' ls. Cleanup ap cl clk t = Some (ap', t', ls) \<and> lm_inv ap' t'
    \<and> (\<forall>l \<in> set ls. removable clk t l)
    \<and> distinct (map link_up ls)
    \<and> dom (uplinkMap t') = dom (uplinkMap t) - link_up ` set ls
    \<and> downlinkMap t' = downlinkMap t |` (- down_of (lm_addr t) ` set ls)
    \<and> (\<forall>s d. uplinkMap t' s = Some d \<longrightarrow> (\<exists>d0. uplinkMap t s = Some d0 \<and> port_num d0 = port_num d))
    \<and> used ap' = used ap - link_triple ` set ls
    \<and> lm_addr t' = lm_addr t \<and> duration t' = duration t"
proof -
  have q: "queue_inv t" and li: "links_inv t" and ad: "adapter_inv ap" and ow: "own t \<subseteq> used ap"
    using inv by (simp_all add: lm_inv_def)
  obtain t1 ls j rq where loop: "cleanup_loop clk 0 0 t [] = Some (t1, ls)" and s: "sweep_inv clk t j t1 ls rq"
    using cleanup_loop_ok [where clk = clk and k = 0, OF q spec [OF clk] sweep_start [OF q]] by blast
  note own = sweep_own [OF s li]
  let ?t = "cleanup_downlinks t1 ls"
  have f0: "lm_addr t1 = lm_addr t" "duration t1 = duration t" "downlinkMap t1 = downlinkMap t"
    using s by (simp_all add: sweep_inv_def)
  then have f: "lm_addr ?t = lm_addr t" "duration ?t = duration t" "uplinkMap ?t = uplinkMap t1" "ttl ?t = ttl t1"
    "downlinkMap ?t = (\<lambda>x. if x \<in> down_of (lm_addr t) ` set ls then None else downlinkMap t x)"
    using f0 by (simp_all add: cleanup_downlinks_eq cong: if_cong)
  from pa.del_all_ok [OF ad _ own(3)] own(2) ow obtain ap' where
    ap': "del_all DelPort ap cl (map link_triple ls) = Some ap'" "adapter_inv ap'"
      "used ap' = used ap - set (map link_triple ls)" by blast
  have empty: "ls = [] \<Longrightarrow> ap' = ap \<and> ?t = t1" using ap'(1) by simp
  have C: "Cleanup ap cl clk t = Some (ap', ?t, ls)"
    using loop ap'(1) empty by (simp add: Cleanup_def)
  have ownt: "own ?t = own t1" by (simp add: own_def f)
  have "queue_inv ?t" using sweep_queue_inv [OF s q] by (simp add: queue_inv_def f)
  with sweep_links_inv [OF s li] ap'(2,3) own(1) ow have L: "lm_inv ap' ?t"
    by (auto simp: lm_inv_def ownt)
  have dom: "dom (uplinkMap ?t) = dom (uplinkMap t) - link_up ` set ls"
  proof (rule set_eqI)
    fix x show "x \<in> dom (uplinkMap ?t) \<longleftrightarrow> x \<in> dom (uplinkMap t) - link_up ` set ls"
      using sweep_up(1) [OF s, of x] sweep_up(2) [OF s, of x] by (auto simp: f)
  qed
  have dd: "downlinkMap ?t = downlinkMap t |` (- down_of (lm_addr t) ` set ls)"
    by (auto simp: f restrict_map_def)
  have ups: "\<forall>s d. uplinkMap ?t s = Some d \<longrightarrow> (\<exists>d0. uplinkMap t s = Some d0 \<and> port_num d0 = port_num d)"
    using sweep_up(1) [OF s] by (simp add: f)
  have "\<forall>l \<in> set ls. removable clk t l" "distinct (map link_up ls)"
    using s by (simp_all add: sweep_inv_def)
  with C L dom dd ups ap'(3) f(1,2) show ?thesis by auto
qed

lemma removable_own: "removable clk t l \<Longrightarrow> link_triple l \<in> own t"
  by (erule removableD) (auto simp: own_def)

section \<open>Add, Uplink and Downlink\<close>

lemma ownI: "uplinkMap t u = Some d \<Longrightarrow> (up_proto u, port_num d, up_server u) \<in> own t"
  by (auto simp: own_def)

lemma insert_link_inv:
  assumes inv: "adapter_inv ap'" "own t \<subseteq> used ap" "queue_inv t" "links_inv t"
    and free: "(up_proto s, p, up_server s) \<notin> used ap" "used ap' = insert (up_proto s, p, up_server s) (used ap)"
    and s: "uplinkMap t s = None"
    and q: "heap_inv q" "heap_list q = heap_list (ttl t) @ [e]" "tk_up e = s" "tk_valid e"
    and k: "dk_port k = ap_port (up_process s)"
  shows "lm_inv ap' (t\<lparr>uplinkMap := (uplinkMap t)(s \<mapsto> NewPort p), ttl := q,
      downlinkMap := (downlinkMap t)(down_key (lm_addr t) s p \<mapsto> k)\<rparr>)" (is "lm_inv ap' ?t")
proof -
  have "own ?t \<subseteq> insert (up_proto s, p, up_server s) (own t)"
    by (auto simp: own_def split: if_splits)
  with inv(2) free(2) have own: "own ?t \<subseteq> used ap'" by auto
  have fresh: "(up_proto s, p, up_server s) \<noteq> (up_proto u, port_num d, up_server u)"
    if "uplinkMap t u = Some d" for u d
    using ownI [OF that] inv(2) free(1) by auto
  have "s \<notin> set (map tk_up (heap_list (ttl t)))" using inv(3) s by (auto simp: queue_inv_def)
  then have queue: "queue_inv ?t" using inv(3) q by (auto simp: queue_inv_def)
  have one: "\<exists>k. downlinkMap ?t (down_key (lm_addr ?t) u (port_num d)) = Some k
      \<and> dk_port k = ap_port (up_process u)" if u: "uplinkMap ?t u = Some d" for u d
  proof (cases "u = s")
    case True
    then have "port_num d = p" using u port_num_NewPort [of p] by auto
    then show ?thesis using True k by simp
  next
    case False
    with u have u': "uplinkMap t u = Some d" by simp
    with inv(4) have "\<exists>k. downlinkMap t (down_key (lm_addr t) u (port_num d)) = Some k
      \<and> dk_port k = ap_port (up_process u)" unfolding links_inv_def by blast
    then show ?thesis using fresh [OF u'] by auto
  qed
  have two: "\<exists>u d. uplinkMap ?t u = Some d \<and> x = down_key (lm_addr ?t) u (port_num d)"
    if x: "downlinkMap ?t x = Some j" for x j
  proof (cases "x = down_key (lm_addr t) s p")
    case True
    then show ?thesis by (intro exI [of _ s] exI [of _ "NewPort p"]) simp
  next
    case False
    with x have "downlinkMap t x = Some j" by simp
    with inv(4) obtain u d where "uplinkMap t u = Some d" "x = down_key (lm_addr t) u (port_num d)"
      unfolding links_inv_def by blast
    then show ?thesis using s by (intro exI [of _ u] exI [of _ d]) auto
  qed
  have three: "u = v" if "uplinkMap ?t u = Some d" "uplinkMap ?t v = Some d'"
    "(up_proto u, port_num d, up_server u) = (up_proto v, port_num d', up_server v)" for u d v d'
  proof (cases "u = s \<or> v = s")
    case True
    then show ?thesis using that fresh [of u d] fresh [of v d'] by (auto split: if_splits)
  next
    case False
    then show ?thesis using that links_unique [OF inv(4), of u d v d'] by auto
  qed
  have "links_inv ?t" using one two three unfolding links_inv_def by blast
  with inv(1) own queue show ?thesis by (simp add: lm_inv_def)
qed

lemma lm_inv_counter:
  assumes inv: "lm_inv ap t" and s: "uplinkMap t s = Some p" "port_num p' = port_num p"
  shows "lm_inv ap (t\<lparr>uplinkMap := (uplinkMap t)(s \<mapsto> p')\<rparr>)"
proof -
  let ?t = "t\<lparr>uplinkMap := (uplinkMap t)(s \<mapsto> p')\<rparr>"
  have fwd: "\<exists>d0. uplinkMap t u = Some d0 \<and> port_num d0 = port_num d" if "uplinkMap ?t u = Some d" for u d
    using that s by (auto split: if_splits)
  have bwd: "\<exists>d. uplinkMap ?t u = Some d \<and> port_num d = port_num d0" if "uplinkMap t u = Some d0" for u d0
    using that s by auto
  have li: "links_inv t" using inv by (simp add: lm_inv_def)
  have "own ?t \<subseteq> own t"
  proof (rule subsetI)
    fix x assume "x \<in> own ?t"
    then obtain u d where "uplinkMap ?t u = Some d" "x = (up_proto u, port_num d, up_server u)"
      unfolding own_def by blast
    with fwd [OF this(1)] ownI [of t u] show "x \<in> own t" by auto
  qed
  moreover have "queue_inv ?t" using inv s by (auto simp: lm_inv_def queue_inv_def)
  moreover have "adapter_inv ap" "own t \<subseteq> used ap" using inv by (simp_all add: lm_inv_def)
  ultimately have base: "adapter_inv ap" "own ?t \<subseteq> used ap" "queue_inv ?t" by simp_all
  have one: "\<exists>k. downlinkMap ?t (down_key (lm_addr ?t) u (port_num d)) = Some k
      \<and> dk_port k = ap_port (up_process u)" if u: "uplinkMap ?t u = Some d" for u d
    using fwd [OF u] links_down [OF li] by fastforce
  have two: "\<exists>u d. uplinkMap ?t u = Some d \<and> x = down_key (lm_addr ?t) u (port_num d)"
    if x: "downlinkMap ?t x = Some j" for x j
  proof -
    from x have "downlinkMap t x = Some j" by simp
    with li obtain u d0 where "uplinkMap t u = Some d0" "x = down_key (lm_addr t) u (port_num d0)"
      unfolding links_inv_def by blast
    with bwd [OF this(1)] show ?thesis by (intro exI [of _ u]) auto
  qed
  have three: "u = v" if "uplinkMap ?t u = Some d" "uplinkMap ?t v = Some d'"
    "(up_proto u, port_num d, up_server u) = (up_proto v, port_num d', up_server v)" for u d v d'
  proof -
    from fwd [OF that(1)] fwd [OF that(2)] that(3) obtain d0 d1 where
      "uplinkMap t u = Some d0" "uplinkMap t v = Some d1"
      "(up_proto u, port_num d0, up_server u) = (up_proto v, port_num d1, up_server v)" by auto
    with li show ?thesis by (blast intro: links_unique)
  qed
  have "links_inv ?t" using one two three unfolding links_inv_def by blast
  with base show ?thesis unfolding lm_inv_def by blast
qed

lemma lm_Uplink_ok:
  assumes "lm_inv ap t" "\<forall>d. uplinkMap t s = Some d \<longrightarrow> port_uses d < 2 ^ 48 - 1"
  shows "lm_inv ap (fst (lm_Uplink t s))
    \<and> snd (lm_Uplink t s) = map_option port_num (uplinkMap t s)"
proof (cases "uplinkMap t s")
  case None
  then show ?thesis using assms(1) by (simp add: lm_Uplink_def)
next
  case (Some d)
  then have u: "port_uses d < 2 ^ 48 - 1" using assms(2) by simp
  have "lm_Uplink t s = (t\<lparr>uplinkMap := (uplinkMap t)(s \<mapsto> d + 1)\<rparr>, Some (port_num d))"
    using Some port_Port_eq [OF u] by (simp add: lm_Uplink_def port_Port_def Let_def)
  then show ?thesis using lm_inv_counter [OF assms(1) Some] port_incr [OF u] Some by simp
qed

definition add_env_ok :: "ap_state \<Rightarrow> add_env \<Rightarrow> 'c linkManager \<Rightarrow> Uplink \<Rightarrow> bool" where
  "add_env_ok ap env t s \<longleftrightarrow> ae_now env \<noteq> 0 \<and> (\<forall>k. ae_clock env k \<noteq> 0)
     \<and> (case Cleanup ap (ae_close env) (ae_clock env) t of None \<Rightarrow> True
        | Some (ap', _) \<Rightarrow> get_env ap' (up_proto s) (ae_port env))"

text \<open>\<open>Add\<close> of an uplink that is not live: it returns, keeps the invariant and the
  other links' routes, and its result is routed in both directions.\<close>

definition routed :: "'c linkManager \<Rightarrow> Uplink \<Rightarrow> u16 \<Rightarrow> 'c \<Rightarrow> bool" where
  "routed t s p conn \<longleftrightarrow> snd (lm_Uplink t s) = Some p
     \<and> lm_Downlink t (down_key (lm_addr t) s p) = Some (conn, ap_port (up_process s))"

lemma lm_Add_ok:
  assumes inv: "lm_inv ap t" and env: "add_env_ok ap env t s"
    and pr: "up_proto s = TCP \<or> up_proto s = UDP" and s: "uplinkMap t s = None" "ap_valid (up_process s)"
  shows "\<exists>ap' t' r. lm_Add ap env t s conn = Some (ap', t', r) \<and> lm_inv ap' t' \<and> lm_addr t' = lm_addr t
    \<and> used ap - own t \<subseteq> used ap' \<and> dom (uplinkMap t') \<subseteq> insert s (dom (uplinkMap t))
    \<and> (case r of
         Inr p \<Rightarrow> uplinkMap t' s = Some (NewPort p) \<and> routed t' s p conn
           \<and> (\<forall>x j. x \<noteq> down_key (lm_addr t) s p \<longrightarrow> lm_Downlink t' x = Some j \<longrightarrow> lm_Downlink t x = Some j)
       | Inl e \<Rightarrow> uplinkMap t' s = None)"
proof -
  from env have clk: "\<forall>k. ae_clock env k \<noteq> 0" and now: "ae_now env \<noteq> 0" by (simp_all add: add_env_ok_def)
  obtain ap1 t1 ls where c: "Cleanup ap (ae_close env) (ae_clock env) t = Some (ap1, t1, ls)"
    and inv1: "lm_inv ap1 t1" and dom: "dom (uplinkMap t1) = dom (uplinkMap t) - link_up ` set ls"
    and dn: "downlinkMap t1 = downlinkMap t |` (- down_of (lm_addr t) ` set ls)"
    and a: "lm_addr t1 = lm_addr t" and rem: "\<forall>l \<in> set ls. removable (ae_clock env) t l"
    and us: "used ap1 = used ap - link_triple ` set ls"
    using Cleanup_ok [where clk = "ae_clock env" and cl = "ae_close env", OF inv clk]
    by (elim exE conjE) (rule that; assumption)
  have s1: "uplinkMap t1 s = None" using dom s(1) by (auto simp: domIff)
  have keep: "used ap - own t \<subseteq> used ap1" using us rem removable_own by blast
  have sub: "dom (uplinkMap t1) \<subseteq> dom (uplinkMap t)" using dom by blast
  have ge: "get_env ap1 (up_proto s) (ae_port env)" using env c by (simp add: add_env_ok_def)
  from inv1 have ad: "adapter_inv ap1" "own t1 \<subseteq> used ap1" "queue_inv t1" "links_inv t1"
    by (simp_all add: lm_inv_def)
  obtain ap2 r where g: "GetPort ap1 (ae_port env) (up_proto s) (up_server s) = Some (ap2, r)"
    using pa.get_total [OF ad(1) ge pr, of "up_server s"] by (cases "GetPort ap1 (ae_port env) (up_proto s) (up_server s)") auto
  show ?thesis
  proof (cases r)
    case (Inl e)
    with pa.get_err [OF ad(1) ge g [unfolded Inl]] inv1 have "lm_inv ap2 t1" "used ap2 = used ap1"
      by (simp_all add: lm_inv_def)
    then show ?thesis using c g Inl s1 a keep sub by (auto simp: lm_Add_def)
  next
    case (Inr p)
    note G = pa.get_ok [OF ad(1) ge pr g [unfolded Inr]]
    have val: "ap_valid (up_server s)"
      using g Inr by (simp add: GetPort_def split: if_splits)
    let ?e = "\<lparr>tk_up = s, tk_start = ae_now env\<rparr>"
    have "heap_inv (ttl t1)" using ad(3) by (simp add: queue_inv_def)
    from ring.put_ok [OF this, of zero_ttlkey ?e] obtain q where
      q: "h_Put zero_ttlkey (ttl t1) ?e = Some q" "heap_inv q" "heap_list q = heap_list (ttl t1) @ [?e]" by blast
    let ?k = "\<lparr>dk_conn = conn, dk_port = ap_port (up_process s)\<rparr>"
    let ?t = "t1\<lparr>uplinkMap := (uplinkMap t1)(s \<mapsto> NewPort p), ttl := q,
      downlinkMap := (downlinkMap t1)(down_key (lm_addr t1) s p \<mapsto> ?k)\<rparr>"
    have "lm_inv ap2 ?t"
    proof (rule insert_link_inv [where ap = ap1 and e = ?e])
      show "tk_valid ?e" using s(2) val now by (simp add: tk_valid_def)
    qed (use G ad s1 q in simp_all)
    moreover have "lm_Add ap env t s conn = Some (ap2, ?t, Inr p)"
      using c g q(1) by (simp add: lm_Add_def Inr)
    moreover have "routed ?t s p conn"
      using port_Port_eq [of "NewPort p"] by (simp add: routed_def lm_Uplink_def lm_Downlink_def case_prod_beta)
    moreover have "lm_Downlink t x = Some j" if "x \<noteq> down_key (lm_addr t) s p" "lm_Downlink ?t x = Some j" for x j
      using that(1) that(2) by (simp add: lm_Downlink_def dn a restrict_map_def split: if_splits option.splits)
    moreover have "used ap - own t \<subseteq> used ap2" using G keep by blast
    moreover have "dom (uplinkMap ?t) \<subseteq> insert s (dom (uplinkMap t))" using sub by auto
    ultimately show ?thesis using a by auto
  qed
qed

lemma lm_Add_granted:
  assumes "lm_Add ap env t s conn = Some (ap', t', Inl e)" "ap_valid (up_server s)" "up_proto s = TCP \<or> up_proto s = UDP"
  shows "getport_scan (fst (ae_port env)) (up_proto s) (up_server s) = 0 \<and> \<not> listen_grants (snd (ae_port env))"
proof -
  obtain ap1 t1 ls ap2 g where g: "Cleanup ap (ae_close env) (ae_clock env) t = Some (ap1, t1, ls)"
    "GetPort ap1 (ae_port env) (up_proto s) (up_server s) = Some (ap2, g)"
    using assms(1) by (auto simp: lm_Add_def bind_eq_Some_conv)
  then obtain err where "g = Inl err" using assms(1) by (cases g) (auto simp: lm_Add_def bind_eq_Some_conv)
  with GetPort_granted [OF _ assms(2,3)] g(2) show ?thesis by blast
qed

lemma lm_Add_err:
  assumes inv: "lm_inv ap t" and env: "add_env_ok ap env t s" and add: "lm_Add ap env t s conn = Some (ap', t', Inl e)"
  shows "lm_Downlink t' x = Some j \<Longrightarrow> lm_Downlink t x = Some j"
proof -
  from env have clk: "\<forall>k. ae_clock env k \<noteq> 0" by (simp add: add_env_ok_def)
  obtain ap1 t1 ls where c: "Cleanup ap (ae_close env) (ae_clock env) t = Some (ap1, t1, ls)"
    "downlinkMap t1 = downlinkMap t |` (- down_of (lm_addr t) ` set ls)"
    using Cleanup_ok [where clk = "ae_clock env" and cl = "ae_close env", OF inv clk]
    by (elim exE conjE) (rule that; assumption)
  obtain ap2 g where g: "GetPort ap1 (ae_port env) (up_proto s) (up_server s) = Some (ap2, g)"
    using add c by (auto simp: lm_Add_def bind_eq_Some_conv)
  have "t' = t1" using add c(1) g by (cases g) (auto simp: lm_Add_def bind_eq_Some_conv)
  then show "lm_Downlink t' x = Some j \<Longrightarrow> lm_Downlink t x = Some j"
    by (simp add: lm_Downlink_def c(2) restrict_map_def split: if_splits option.splits)
qed

text \<open>A link that the sweep may not remove stays, with its route, whether \<open>Add\<close> succeeds or not.\<close>

definition may_remove :: "(nat \<Rightarrow> time) \<Rightarrow> 'c linkManager \<Rightarrow> Uplink \<Rightarrow> bool" where
  "may_remove clk t u \<longleftrightarrow>
     (\<exists>d. uplinkMap t u = Some d \<and> port_uses d = 0)
   \<and> (\<exists>e k. e \<in> set (heap_list (ttl t)) \<and> tk_up e = u \<and> duration t < clk k - tk_start e)"

lemma lm_Add_keeps:
  assumes inv: "lm_inv ap t" and env: "add_env_ok ap env t s"
    and pr: "up_proto s = TCP \<or> up_proto s = UDP" and s: "uplinkMap t s = None" "ap_valid (up_process s)"
    and add: "lm_Add ap env t s conn = Some (ap', t', r)"
    and u: "uplinkMap t u = Some d" "\<not> may_remove (ae_clock env) t u"
  shows "(\<exists>d'. uplinkMap t' u = Some d' \<and> port_num d' = port_num d)
    \<and> lm_Downlink t' (down_key (lm_addr t) u (port_num d)) = lm_Downlink t (down_key (lm_addr t) u (port_num d))"
proof -
  let ?x = "down_key (lm_addr t) u (port_num d)"
  from env have clk: "\<forall>k. ae_clock env k \<noteq> 0" by (simp add: add_env_ok_def)
  obtain ap1 t1 ls where c: "Cleanup ap (ae_close env) (ae_clock env) t = Some (ap1, t1, ls)"
    and rem: "\<forall>l \<in> set ls. removable (ae_clock env) t l" and dom: "dom (uplinkMap t1) = dom (uplinkMap t) - link_up ` set ls"
    and dn: "downlinkMap t1 = downlinkMap t |` (- down_of (lm_addr t) ` set ls)"
    and num: "\<forall>s d. uplinkMap t1 s = Some d \<longrightarrow> (\<exists>d0. uplinkMap t s = Some d0 \<and> port_num d0 = port_num d)"
    using Cleanup_ok [where clk = "ae_clock env" and cl = "ae_close env", OF inv clk]
    by (elim exE conjE) (rule that; assumption)
  have li: "links_inv t" using inv by (simp add: lm_inv_def)
  have ls: "link_up l \<noteq> u" if "l \<in> set ls" for l
    using bspec [OF rem that] u(2) unfolding removable_def may_remove_def by blast
  then have "u \<in> dom (uplinkMap t1)" using dom u(1) by blast
  then obtain d1 where d1: "uplinkMap t1 u = Some d1" "port_num d1 = port_num d" using num u(1) by fastforce
  have "down_of (lm_addr t) l \<noteq> ?x" if l: "l \<in> set ls" for l
  proof
    assume eq: "down_of (lm_addr t) l = ?x"
    obtain d0 where d0: "uplinkMap t (link_up l) = Some d0" "link_local l = AddrPort (lm_addr t) (port_num d0)"
      using bspec [OF rem l] unfolding removable_def by blast
    from eq d0(2) have "(up_proto (link_up l), port_num d0, up_server (link_up l)) = (up_proto u, port_num d, up_server u)"
      by (simp add: down_of_def down_key_eq)
    from links_unique [OF li d0(1) u(1) this] ls [OF l] show False by contradiction
  qed
  then have "?x \<notin> down_of (lm_addr t) ` set ls" by (metis imageE)
  then have d: "downlinkMap t1 ?x = downlinkMap t ?x" unfolding dn by simp
  have us: "u \<noteq> s" using u(1) s(1) by auto
  obtain ap2 g where g: "GetPort ap1 (ae_port env) (up_proto s) (up_server s) = Some (ap2, g)"
    using add c by (auto simp: lm_Add_def bind_eq_Some_conv)
  show ?thesis
  proof (cases g)
    case (Inl e)
    then have "t' = t1" using add c g by (auto simp: lm_Add_def)
    with d d1 show ?thesis by (simp add: lm_Downlink_def)
  next
    case (Inr p)
    then have t': "uplinkMap t' u = Some d1" "r = Inr p"
      "downlinkMap t' = (downlinkMap t1)(down_key (lm_addr t1) s p \<mapsto> \<lparr>dk_conn = conn, dk_port = ap_port (up_process s)\<rparr>)"
      using add c g us d1(1) by (auto simp: lm_Add_def bind_eq_Some_conv)
    have ok: "links_inv t'" "uplinkMap t' s = Some (NewPort p)"
      using lm_Add_ok [OF inv env pr s, of conn] add t'(2) by (auto simp: lm_inv_def)
    have "?x \<noteq> down_key (lm_addr t1) s p"
    proof
      assume "?x = down_key (lm_addr t1) s p"
      then have "(up_proto u, port_num d1, up_server u) = (up_proto s, port_num (NewPort p), up_server s)"
        using d1(2) by (simp add: down_key_def)
      from links_unique [OF ok(1) t'(1) ok(2) this] us show False by contradiction
    qed
    then have "downlinkMap t' ?x = downlinkMap t ?x" using t'(3) d by (metis fun_upd_other)
    with t'(1) d1(2) show ?thesis by (simp add: lm_Downlink_def)
  qed
qed

end
