(* ===== verification/Link_Mutx.thy ===== *)
theory Link_Mutx
  imports Link_Manager
begin

text \<open>
  \<open>mutxLinkManager\<close> of \<open>links/maps/mutx.go\<close>: several link managers over one shared
  port adapter, selected by the last byte of the server address. Each manager has its own
  clock readings in a \<open>Cleanup\<close> of all of them.
\<close>

section \<open>The code\<close>

record 'c mutxLinkManager =
  mutx :: u8
  mgrs :: "'c linkManager list"

definition NewLinkManager :: "int \<Rightarrow> addr \<Rightarrow> (Adapter \<times> 'c linkManager) option" where
  "NewLinkManager d a = do {
     ap \<leftarrow> NewAdapter a;
     t \<leftarrow> newLinkManager ap d;
     Some (ap, t)
   }"

definition NewMutxLinkManager :: "u8 \<Rightarrow> int \<Rightarrow> addr \<Rightarrow> (Adapter \<times> 'c mutxLinkManager) option" where
  "NewMutxLinkManager mx d a = do {
     ap \<leftarrow> NewAdapter a;
     t \<leftarrow> newLinkManager ap d;
     Some (ap, \<lparr>mutx = mx, mgrs = replicate (unat (max mx 4)) t\<rparr>)
   }"

text \<open>The index of the manager: no value for an empty address slice and for \<open>mutx = 0\<close>,
  where the code panics.\<close>

definition mx_index :: "'c mutxLinkManager \<Rightarrow> addr \<Rightarrow> nat option" where
  "mx_index m server =
     (let s = addr_slice server in
      if s = [] \<or> mutx m = 0 then None else Some (unat (last s mod mutx m)))"

definition mx_get :: "'c mutxLinkManager \<Rightarrow> addr \<Rightarrow> (nat \<times> 'c linkManager) option" where
  "mx_get m server = do {
     i \<leftarrow> mx_index m server;
     t \<leftarrow> go_index (mgrs m) i;
     Some (i, t)
   }"

definition mx_set :: "'c mutxLinkManager \<Rightarrow> nat \<Rightarrow> 'c linkManager \<Rightarrow> 'c mutxLinkManager" where
  "mx_set m i t = m\<lparr>mgrs := (mgrs m)[i := t]\<rparr>"

definition mx_Downlink :: "'c mutxLinkManager \<Rightarrow> Downlink \<Rightarrow> ('c \<times> u16) option option" where
  "mx_Downlink m l = map_option (\<lambda>(i, t). lm_Downlink t l) (mx_get m (ap_addr (dn_server l)))"

definition mx_Uplink :: "'c mutxLinkManager \<Rightarrow> Uplink \<Rightarrow> ('c mutxLinkManager \<times> u16 option) option" where
  "mx_Uplink m l =
     map_option (\<lambda>(i, t). (let (t, r) = lm_Uplink t l in (mx_set m i t, r)))
       (mx_get m (ap_addr (up_server l)))"

definition mx_Add ::
  "ap_state \<Rightarrow> add_env \<Rightarrow> 'c mutxLinkManager \<Rightarrow> Uplink \<Rightarrow> 'c
    \<Rightarrow> (ap_state \<times> 'c mutxLinkManager \<times> u16 result) option" where
  "mx_Add ap env m l conn = do {
     (i, t) \<leftarrow> mx_get m (ap_addr (up_server l));
     (ap, t, r) \<leftarrow> lm_Add ap env t l conn;
     Some (ap, mx_set m i t, r)
   }"

fun mx_cleanup_from ::
  "ap_state \<Rightarrow> (listener \<Rightarrow> go_error option) \<Rightarrow> (nat \<Rightarrow> nat \<Rightarrow> time) \<Rightarrow> nat \<Rightarrow> 'c linkManager list
    \<Rightarrow> (ap_state \<times> 'c linkManager list \<times> Link list) option" where
  "mx_cleanup_from ap cl clk i [] = Some (ap, [], [])"
| "mx_cleanup_from ap cl clk i (t # ts) = do {
     (ap, t, ls) \<leftarrow> Cleanup ap cl (clk i) t;
     (ap, ts, ls') \<leftarrow> mx_cleanup_from ap cl clk (i + 1) ts;
     Some (ap, t # ts, ls @ ls')
   }"

definition mx_Cleanup ::
  "ap_state \<Rightarrow> (listener \<Rightarrow> go_error option) \<Rightarrow> (nat \<Rightarrow> nat \<Rightarrow> time) \<Rightarrow> 'c mutxLinkManager
    \<Rightarrow> (ap_state \<times> 'c mutxLinkManager \<times> Link list) option" where
  "mx_Cleanup ap cl clk m = do {
     (ap, ts, ls) \<leftarrow> mx_cleanup_from ap cl clk 0 (mgrs m);
     Some (ap, m\<lparr>mgrs := ts\<rparr>, ls)
   }"

definition mx_Close ::
  "ap_state \<Rightarrow> (portKey \<times> AddrSet) list \<Rightarrow> (listener \<Rightarrow> go_error option)
    \<Rightarrow> ap_state \<times> go_error option" where
  "mx_Close ap ord cl = ap_Close ap ord cl"

section \<open>Invariant\<close>

text \<open>Every manager satisfies its own invariant over the shared adapter and holds only
  links whose server selects it.\<close>

definition mx_inv :: "ap_state \<Rightarrow> 'c mutxLinkManager \<Rightarrow> bool" where
  "mx_inv ap m \<longleftrightarrow> adapter_inv ap \<and> mutx m \<noteq> 0 \<and> unat (mutx m) \<le> length (mgrs m)
     \<and> (\<forall>i < length (mgrs m). lm_inv ap (mgrs m ! i)
         \<and> (\<forall>s \<in> dom (uplinkMap (mgrs m ! i)). mx_index m (ap_addr (up_server s)) = Some i))"

lemma lm_inv_frame:
  "lm_inv ap t \<Longrightarrow> adapter_inv ap' \<Longrightarrow> own t \<subseteq> used ap' \<Longrightarrow> lm_inv ap' t"
  by (simp add: lm_inv_def)

lemma mx_index_mx_set [simp]: "mx_index (m\<lparr>mgrs := ts\<rparr>) a = mx_index m a"
  by (simp add: mx_index_def Let_def cong: if_cong)

text \<open>The links of two managers occupy different triples of the adapter.\<close>

lemma own_disjoint:
  assumes "mx_inv ap m" "i < length (mgrs m)" "j < length (mgrs m)" "i \<noteq> j"
  shows "own (mgrs m ! i) \<inter> own (mgrs m ! j) = {}"
proof -
  have idx: "mx_index m (ap_addr srv) = Some k" if "(pr, p, srv) \<in> own (mgrs m ! k)" "k < length (mgrs m)" for pr p srv k
  proof -
    from that(1) obtain s d where "uplinkMap (mgrs m ! k) s = Some d" "up_server s = srv"
      by (auto simp: own_def)
    then show ?thesis using assms(1) that(2) by (auto simp: mx_inv_def domIff)
  qed
  have False if x: "x \<in> own (mgrs m ! i)" "x \<in> own (mgrs m ! j)" for x
    using idx [of "fst x" "fst (snd x)" "snd (snd x)" i] idx [of "fst x" "fst (snd x)" "snd (snd x)" j] x assms(2-4)
    by simp
  then show ?thesis by blast
qed

text \<open>A step of one manager that keeps the triples of the others keeps the whole.\<close>

lemma mx_step:
  assumes inv: "mx_inv ap m" and i: "i < length (mgrs m)"
    and t: "lm_inv ap' t'" "used ap - own (mgrs m ! i) \<subseteq> used ap'"
    and d: "\<forall>s \<in> dom (uplinkMap t'). mx_index m (ap_addr (up_server s)) = Some i"
  shows "mx_inv ap' (mx_set m i t')"
proof -
  have ad: "adapter_inv ap'" using t(1) by (simp add: lm_inv_def)
  have "lm_inv ap' (mgrs m ! j)" if "j < length (mgrs m)" "j \<noteq> i" for j
  proof (rule lm_inv_frame [OF _ ad])
    show "lm_inv ap (mgrs m ! j)" using inv that by (simp add: mx_inv_def)
    then have "own (mgrs m ! j) \<subseteq> used ap" by (simp add: lm_inv_def)
    with own_disjoint [OF inv that(1) i that(2)] t(2) show "own (mgrs m ! j) \<subseteq> used ap'" by blast
  qed
  then show ?thesis
    using inv i t(1) d ad by (simp add: mx_inv_def mx_set_def nth_list_update)
qed

lemma mx_get_ok:
  assumes "mx_inv ap m" "addr_valid a"
  shows "\<exists>i. mx_index m a = Some i \<and> i < length (mgrs m) \<and> mx_get m a = Some (i, mgrs m ! i)"
proof -
  let ?s = "addr_slice a"
  have "?s \<noteq> []" using assms(2) by (cases a) (auto simp: be_bytes_def)
  moreover have m0: "mutx m \<noteq> 0" "unat (mutx m) \<le> length (mgrs m)" using assms(1) by (simp_all add: mx_inv_def)
  moreover have "unat (last ?s mod mutx m) < unat (mutx m)"
    using m0 by (simp add: unat_mod unat_gt_0)
  ultimately show ?thesis
    by (simp add: mx_get_def mx_index_def Let_def slice_simps)
qed

lemma mx_Add_ok:
  assumes inv: "mx_inv ap m" and idx: "mx_index m (ap_addr (up_server s)) = Some i" "i < length (mgrs m)"
    and env: "add_env_ok ap env (mgrs m ! i) s"
    and pr: "up_proto s = TCP \<or> up_proto s = UDP"
    and s: "uplinkMap (mgrs m ! i) s = None" "ap_valid (up_process s)"
  shows "\<exists>ap' t' r. lm_Add ap env (mgrs m ! i) s conn = Some (ap', t', r)
    \<and> mx_Add ap env m s conn = Some (ap', mx_set m i t', r) \<and> mx_inv ap' (mx_set m i t')
    \<and> (\<forall>p. r = Inr p \<longrightarrow> routed t' s p conn \<and> lm_addr t' = lm_addr (mgrs m ! i))"
proof -
  have li: "lm_inv ap (mgrs m ! i)" using inv idx by (simp add: mx_inv_def)
  obtain ap' t' r where A: "lm_Add ap env (mgrs m ! i) s conn = Some (ap', t', r)" "lm_inv ap' t'"
    "lm_addr t' = lm_addr (mgrs m ! i)"
    "used ap - own (mgrs m ! i) \<subseteq> used ap'" "dom (uplinkMap t') \<subseteq> insert s (dom (uplinkMap (mgrs m ! i)))"
    and R0: "case r of Inr p \<Rightarrow> uplinkMap t' s = Some (NewPort p) \<and> routed t' s p conn
       \<and> (\<forall>x j. x \<noteq> down_key (lm_addr (mgrs m ! i)) s p \<longrightarrow> lm_Downlink t' x = Some j \<longrightarrow>
            lm_Downlink (mgrs m ! i) x = Some j)
       | Inl e \<Rightarrow> uplinkMap t' s = None"
    using lm_Add_ok [OF li env pr s, of conn] by (elim exE conjE) (rule that; assumption)
  then have R: "\<forall>p. r = Inr p \<longrightarrow> routed t' s p conn" by (cases r) simp_all
  have "\<forall>x \<in> dom (uplinkMap (mgrs m ! i)). mx_index m (ap_addr (up_server x)) = Some i"
    using inv idx by (simp add: mx_inv_def)
  with A(5) idx have "\<forall>x \<in> dom (uplinkMap t'). mx_index m (ap_addr (up_server x)) = Some i" by blast
  from mx_step [OF inv idx(2) A(2,4) this] A(1,3) R idx show ?thesis
    by (simp add: mx_Add_def mx_get_def slice_simps)
qed

lemma mx_set_append: "length pre = i \<Longrightarrow> mx_set (m\<lparr>mgrs := pre @ t # ts\<rparr>) i t' = m\<lparr>mgrs := pre @ t' # ts\<rparr>"
  by (auto simp: mx_set_def list_update_append)

lemma mx_cleanup_ok:
  assumes clk: "\<forall>i k. clk i k \<noteq> 0"
  shows "mx_inv ap (m\<lparr>mgrs := pre @ ts\<rparr>) \<Longrightarrow> length pre = i \<Longrightarrow>
    \<exists>ap' ts' ls. mx_cleanup_from ap cl clk i ts = Some (ap', ts', ls)
      \<and> mx_inv ap' (m\<lparr>mgrs := pre @ ts'\<rparr>) \<and> length ts' = length ts
      \<and> (\<forall>l \<in> set ls. \<exists>j < length ts. removable (clk (i + j)) (ts ! j) l)"
proof (induction ts arbitrary: ap pre i)
  case Nil
  then show ?case by simp
next
  case (Cons t ts)
  let ?m = "m\<lparr>mgrs := pre @ t # ts\<rparr>"
  have at: "i < length (mgrs ?m)" "mgrs ?m ! i = t" using Cons.prems(2) by auto
  have li: "lm_inv ap t" "\<forall>s \<in> dom (uplinkMap t). mx_index ?m (ap_addr (up_server s)) = Some i"
    using Cons.prems(1) at unfolding mx_inv_def by auto
  obtain ap1 t1 ls where c: "Cleanup ap cl (clk i) t = Some (ap1, t1, ls)" "lm_inv ap1 t1"
    "\<forall>l \<in> set ls. removable (clk i) t l" "dom (uplinkMap t1) = dom (uplinkMap t) - link_up ` set ls"
    "used ap1 = used ap - link_triple ` set ls"
    using Cleanup_ok [where clk = "clk i" and cl = cl, OF li(1) spec [OF clk]]
    by (elim exE conjE) (rule that; assumption)
  have "used ap - own t \<subseteq> used ap1" using c(3,5) removable_own by blast
  moreover have "\<forall>s \<in> dom (uplinkMap t1). mx_index ?m (ap_addr (up_server s)) = Some i"
    using li(2) c(4) by blast
  ultimately have "mx_inv ap1 (mx_set ?m i t1)"
    using mx_step [OF Cons.prems(1) at(1) c(2)] at(2) by simp
  then have inv1: "mx_inv ap1 (m\<lparr>mgrs := (pre @ [t1]) @ ts\<rparr>)"
    using mx_set_append [OF Cons.prems(2), where m = m and t = t and ts = ts and t' = t1] by simp
  have "length (pre @ [t1]) = i + 1" using Cons.prems(2) by simp
  from Cons.IH [OF inv1 this] obtain ap' ts' ls' where I: "mx_cleanup_from ap1 cl clk (i + 1) ts = Some (ap', ts', ls')"
    "mx_inv ap' (m\<lparr>mgrs := (pre @ [t1]) @ ts'\<rparr>)" "length ts' = length ts"
    "\<forall>l \<in> set ls'. \<exists>j < length ts. removable (clk (i + 1 + j)) (ts ! j) l" by (elim exE conjE)
  have run: "mx_cleanup_from ap cl clk i (t # ts) = Some (ap', t1 # ts', ls @ ls')"
    using c(1) I(1) by simp
  have "\<exists>j < length (t # ts). removable (clk (i + j)) ((t # ts) ! j) l" if "l \<in> set (ls @ ls')" for l
  proof (cases "l \<in> set ls")
    case True
    then show ?thesis using c(3) by (intro exI [of _ 0]) simp
  next
    case False
    with that I(4) obtain j where "j < length ts" "removable (clk (i + 1 + j)) (ts ! j) l" by auto
    then show ?thesis by (intro exI [of _ "j + 1"]) simp
  qed
  with run I(2,3) show ?case by (intro exI [of _ ap'] exI [of _ "t1 # ts'"] exI [of _ "ls @ ls'"]) auto
qed

lemma newLinkManager_inv:
  assumes "adapter_inv ap" "newLinkManager (fst ap) d = Some t"
  shows "lm_inv ap t \<and> uplinkMap t = Map.empty"
  using assms NewHeap_ok [of 64 zero_ttlkey]
  by (auto simp: newLinkManager_def lm_inv_def own_def queue_inv_def links_inv_def)

lemma NewMutx_inv:
  assumes "mx \<noteq> 0" "NewMutxLinkManager mx d a = Some (ap, m)"
  shows "mx_inv (ap, os) m"
proof -
  obtain t where n: "NewAdapter a = Some ap" "newLinkManager ap d = Some t"
    and m: "m = \<lparr>mutx = mx, mgrs = replicate (unat (max mx 4)) t\<rparr>"
    using assms(2) by (auto simp: NewMutxLinkManager_def bind_eq_Some_conv)
  have ad: "adapter_inv (ap, os)" using NewAdapter_inv [OF n(1), of os] by simp
  moreover have "lm_inv (ap, os) t \<and> uplinkMap t = Map.empty"
    using newLinkManager_inv [OF ad] n(2) by simp
  moreover have "unat mx \<le> unat (max mx 4)" by (simp flip: word_le_nat_alt)
  ultimately show ?thesis using assms(1) by (simp add: mx_inv_def m)
qed

end
