(* ===== verification/Link_Props.thy ===== *)
theory Link_Props
  imports Link_Mutx Port_Props
begin

text \<open>
  The properties of the link layer: the queue and the packed port of
  \<open>links/links.go\<close> and \<open>links/maps/maps.go\<close>, the link manager and the managers
  that share one adapter. The witnesses use the adapter of \<open>Port_Props\<close> that holds
  the TCP port 5000 for one remote, with one live link over it.
\<close>

section \<open>Data of the witnesses\<close>

definition w_up :: "u16 \<Rightarrow> u8 \<Rightarrow> Uplink" where
  "w_up p n = \<lparr>up_process = AddrPort (Addr4 192 168 0 7) p, up_proto = TCP, up_server = w_remote n\<rparr>"

definition w_ttl :: "Uplink \<Rightarrow> time \<Rightarrow> ttlkey Heap" where
  "w_ttl s t0 = \<lparr>vals = [\<lparr>tk_up = s, tk_start = t0\<rparr>, zero_ttlkey], sart = 0, hsize = 1\<rparr>"

definition w_addr :: addr where "w_addr = Addr4 10 0 0 1"

definition w_lm1 :: "string linkManager" where
  "w_lm1 = \<lparr>lm_addr = w_addr, duration = 100,
     uplinkMap = [w_up 4000 8 \<mapsto> NewPort 5000], ttl = w_ttl (w_up 4000 8) 10,
     downlinkMap = [down_key w_addr (w_up 4000 8) 5000 \<mapsto> \<lparr>dk_conn = ''conn'', dk_port = 4000\<rparr>]\<rparr>"

definition w_close :: "listener \<Rightarrow> go_error option" where "w_close l = None"

lemma w_ttl_ok: "heap_inv (w_ttl s t0)" "heap_list (w_ttl s t0) = [\<lparr>tk_up = s, tk_start = t0\<rparr>]"
  by (simp_all add: heap_inv_def heap_list_def w_ttl_def)

lemma w_up_inj [simp]: "w_up p n = w_up q m \<longleftrightarrow> p = q \<and> n = m"
  by (auto simp: w_up_def w_remote_def)

lemma w_lm1_inv: "lm_inv w_ap1 w_lm1"
proof -
  have "own w_lm1 = {(TCP, 5000, w_remote 8)}" by (auto simp: own_def w_lm1_def w_up_def split: if_splits)
  moreover have "queue_inv w_lm1"
    using w_ttl_ok [of "w_up 4000 8" 10]
    by (simp add: queue_inv_def w_lm1_def tk_valid_def ap_valid_def w_up_def w_remote_def)
  moreover have "links_inv w_lm1"
    by (auto simp: links_inv_def w_lm1_def w_up_def split: if_splits)
  ultimately show ?thesis using w_ap1_inv w_ap1_used by (simp add: lm_inv_def)
qed

lemma w_lm1_up: "uplinkMap w_lm1 (w_up 4001 9) = None" "uplinkMap w_lm1 (w_up 4000 8) = Some (NewPort 5000)"
  by (simp_all add: w_lm1_def)

section \<open>The queue and the packed port\<close>

text \<open>
  C25. The ring buffer \<open>Heap\<close> refines a FIFO queue, also when it is full and grows: on
  every well-formed buffer \<open>Put\<close> appends at the back, \<open>Pop\<close> removes and \<open>Peek\<close>
  shows the front, an empty buffer yields the zero value, and \<open>Size\<close> is the length.
\<close>

theorem heap_refines_queue:
  assumes "heap_inv h"
  shows "(\<exists>h'. h_Put zero h v = Some h' \<and> heap_inv h' \<and> heap_list h' = heap_list h @ [v])
    \<and> (\<exists>h'. h_Pop zero h = Some (case heap_list h of [] \<Rightarrow> zero | x # _ \<Rightarrow> x, h') \<and> heap_inv h'
        \<and> heap_list h' = tl (heap_list h))
    \<and> h_Peek zero h = Some (case heap_list h of [] \<Rightarrow> zero | x # _ \<Rightarrow> x)
    \<and> h_Size h = length (heap_list h)"
proof (cases "heap_list h")
  case Nil
  then have "hsize h = 0" using length_heap_list [of h] by simp
  with Nil assms ring.put_ok [OF assms, of zero v] show ?thesis
    by (simp add: h_empty h_Size_def)
next
  case (Cons x xs)
  from ring.pop_ok [OF assms Cons, of zero] ring.peek_ok [OF assms Cons, of zero]
    ring.put_ok [OF assms, of zero v] Cons show ?thesis
    by (simp add: h_Size_def) (metis length_heap_list Cons length_Cons)
qed

theorem heap_refines_queue_witness:
  "h_Peek (0 :: nat) \<lparr>vals = [7, 5], sart = 1, hsize = 2\<rparr> = Some 5
    \<and> (\<exists>h. h_Put (0 :: nat) \<lparr>vals = [7, 5], sart = 1, hsize = 2\<rparr> 9 = Some h \<and> heap_list h = [5, 7, 9])"
proof -
  let ?h = "\<lparr>vals = [7, 5 :: nat], sart = 1, hsize = 2\<rparr>"
  have "heap_inv ?h" "heap_list ?h = [5, 7]"
    by (simp_all add: heap_inv_def heap_list_def upt_rec)
  with heap_refines_queue [of ?h 0 9] show ?thesis by auto
qed

text \<open>
  The packed port: after \<open>n\<close> calls of \<open>Port\<close> on a new counter, with \<open>n\<close>
  below 2 to the 48, every call has returned the stored port, \<open>Idle\<close> is true exactly for
  \<open>n = 0\<close> and resets the count without touching the port; the next call after
  \<open>2 ^ 48 - 1\<close> uses carries into the port.
\<close>

theorem port_counter:
  assumes "n < 2 ^ 48"
  shows "(let d = ((\<lambda>d. snd (port_Port d)) ^^ n) (NewPort p) in
      port_num d = p \<and> port_uses d = n \<and> (fst (port_Idle d) \<longleftrightarrow> n = 0)
      \<and> snd (port_Idle d) = NewPort p
      \<and> fst (port_Port d) = (if n = 2 ^ 48 - 1 then p + 1 else p))"
proof -
  define d where "d = ((\<lambda>d. snd (port_Port d)) ^^ n) (NewPort p)"
  have it: "port_num d = p" "port_uses d = n"
    using port_iter [OF assms] by (simp_all add: d_def)
  show ?thesis unfolding d_def [symmetric] Let_def
    by (simp add: it port_Idle_eq port_Idle_reset port_Port_num)
qed

theorem port_counter_witness: "port_num (snd (port_Port (NewPort 5000))) = 5000
    \<and> \<not> fst (port_Idle (snd (port_Port (NewPort 5000))))"
  using port_counter [of 1 5000] by (simp add: Let_def)

section \<open>The link manager\<close>

text \<open>
  C14. \<open>Cleanup\<close> on a well-formed manager never panics and keeps the invariant. It
  removes only links whose counter was zero and whose queue entry had expired, takes
  exactly them out of both maps, and releases exactly their triples in the adapter.
\<close>

theorem cleanup_safe:
  assumes "lm_inv ap t" "\<forall>k. clk k \<noteq> 0"
  shows "\<exists>ap' t' ls. Cleanup ap cl clk t = Some (ap', t', ls) \<and> lm_inv ap' t'
    \<and> (\<forall>l \<in> set ls. removable clk t l)
    \<and> dom (uplinkMap t') = dom (uplinkMap t) - link_up ` set ls
    \<and> downlinkMap t' = downlinkMap t |` (- down_of (lm_addr t) ` set ls)
    \<and> used ap' = used ap - link_triple ` set ls"
  using Cleanup_ok [OF assms, of cl] by (elim exE conjE) (intro exI conjI; assumption)

theorem cleanup_safe_witness:
  "\<exists>ap' t' ls. Cleanup w_ap1 w_close (\<lambda>k. 200) w_lm1 = Some (ap', t', ls) \<and> lm_inv ap' t'"
  using cleanup_safe [OF w_lm1_inv, of "\<lambda>k. 200" w_close] by auto

text \<open>
  C15. \<open>Add\<close> of an uplink that is not live never panics and keeps the invariant. If
  it succeeds, the uplink is found with the returned port and a downlink packet from
  its server to that port is delivered to the given connection and the client's port;
  if it fails, the uplink is not live. Either way it makes no other route, and it takes none
  away but those of links whose counter was zero and whose queue entry had expired: every
  other live link keeps its port and its route.
\<close>

theorem add_routes:
  assumes "lm_inv ap t" "add_env_ok ap env t s" "up_proto s = TCP \<or> up_proto s = UDP"
    and "uplinkMap t s = None" "ap_valid (up_process s)"
  shows "\<exists>ap' t' r. lm_Add ap env t s conn = Some (ap', t', r) \<and> lm_inv ap' t'
    \<and> (case r of
         Inr p \<Rightarrow> routed t' s p conn
           \<and> (\<forall>x j. x \<noteq> down_key (lm_addr t) s p \<longrightarrow> lm_Downlink t' x = Some j \<longrightarrow> lm_Downlink t x = Some j)
       | Inl e \<Rightarrow> snd (lm_Uplink t' s) = None \<and> (\<forall>x j. lm_Downlink t' x = Some j \<longrightarrow> lm_Downlink t x = Some j))
    \<and> (\<forall>u d. uplinkMap t u = Some d \<longrightarrow> \<not> may_remove (ae_clock env) t u \<longrightarrow>
         (\<exists>d'. uplinkMap t' u = Some d' \<and> port_num d' = port_num d)
           \<and> lm_Downlink t' (down_key (lm_addr t) u (port_num d)) = lm_Downlink t (down_key (lm_addr t) u (port_num d)))"
proof -
  obtain ap' t' r where a: "lm_Add ap env t s conn = Some (ap', t', r)" "lm_inv ap' t'"
    "case r of Inr p \<Rightarrow> uplinkMap t' s = Some (NewPort p) \<and> routed t' s p conn
       \<and> (\<forall>x j. x \<noteq> down_key (lm_addr t) s p \<longrightarrow> lm_Downlink t' x = Some j \<longrightarrow> lm_Downlink t x = Some j)
     | Inl e \<Rightarrow> uplinkMap t' s = None"
    using lm_Add_ok [OF assms, of conn] by (elim exE conjE) (rule that; assumption)
  have "case r of
         Inr p \<Rightarrow> routed t' s p conn
           \<and> (\<forall>x j. x \<noteq> down_key (lm_addr t) s p \<longrightarrow> lm_Downlink t' x = Some j \<longrightarrow> lm_Downlink t x = Some j)
       | Inl e \<Rightarrow> snd (lm_Uplink t' s) = None \<and> (\<forall>x j. lm_Downlink t' x = Some j \<longrightarrow> lm_Downlink t x = Some j)"
  proof (cases r)
    case (Inl e)
    with a(1,3) lm_Add_err [OF assms(1,2), of conn ap' t' e] show ?thesis by (auto simp: lm_Uplink_def)
  next
    case (Inr p)
    with a(3) show ?thesis by simp
  qed
  with a(1,2) lm_Add_keeps [OF assms a(1)] show ?thesis by blast
qed

definition w_env :: add_env where
  "w_env = \<lparr>ae_close = w_close, ae_clock = (\<lambda>k. 50), ae_now = 60,
     ae_port = ([(PortKey 6 5000, \<lparr>addrs = [w_remote 8]\<rparr>)], w_listen TCP 6000)\<rparr>"

lemma w_env_ok: "add_env_ok w_ap1 w_env w_lm1 (w_up 4001 9)"
proof -
  have "\<exists>t ls. Cleanup w_ap1 w_close (\<lambda>k. 50) w_lm1 = Some (w_ap1, t, ls)"
    by (simp add: Cleanup_def cleanup_loop.simps h_Size_def h_Pop_def h_Put_def w_lm1_def w_ttl_def
        tk_valid_def ap_valid_def w_up_def w_remote_def slice_simps)
  then show ?thesis using w_env1 by (auto simp: add_env_ok_def w_env_def w_up_def)
qed

theorem add_routes_witness:
  "\<exists>ap' t' r d. lm_Add w_ap1 w_env w_lm1 (w_up 4001 9) ''conn2'' = Some (ap', t', r) \<and> lm_inv ap' t'
    \<and> uplinkMap t' (w_up 4000 8) = Some d \<and> port_num d = 5000"
proof -
  have "\<not> may_remove (ae_clock w_env) w_lm1 (w_up 4000 8)"
    by (simp add: may_remove_def w_env_def w_lm1_def w_ttl_def heap_list_def)
  moreover have "up_proto (w_up 4001 9) = TCP" "ap_valid (up_process (w_up 4001 9))" by (simp_all add: w_up_def ap_valid_def)
  ultimately show ?thesis
    using add_routes [OF w_lm1_inv w_env_ok _ w_lm1_up(1), of "''conn2''"] w_lm1_up(2) by fastforce
qed

text \<open>
  Every live link is routed in both directions, and two live links with the same
  downlink key are the same link: no packet of one client is delivered to another, and
  \<open>Uplink\<close> keeps this so.
\<close>

theorem live_links_isolated:
  assumes "lm_inv ap t" "\<forall>s d. uplinkMap t s = Some d \<longrightarrow> port_uses d < 2 ^ 48 - 1"
  shows "(\<forall>s d. uplinkMap t s = Some d \<longrightarrow> (\<exists>conn. routed t s (port_num d) conn))
    \<and> (\<forall>s d s' d'. uplinkMap t s = Some d \<longrightarrow> uplinkMap t s' = Some d' \<longrightarrow>
        down_key (lm_addr t) s (port_num d) = down_key (lm_addr t) s' (port_num d') \<longrightarrow> s = s')
    \<and> lm_inv ap (fst (lm_Uplink t s0))"
proof (intro conjI allI impI)
  fix s d assume s: "uplinkMap t s = Some d"
  have li: "links_inv t" using assms(1) by (simp add: lm_inv_def)
  show "\<exists>conn. routed t s (port_num d) conn"
    using links_down [OF li s] port_Port_eq [of d] assms(2) s
    by (auto simp: routed_def lm_Uplink_def lm_Downlink_def case_prod_beta)
  fix s' d' assume "uplinkMap t s' = Some d'"
    "down_key (lm_addr t) s (port_num d) = down_key (lm_addr t) s' (port_num d')"
  with links_unique [OF li s, of s' d'] show "s = s'" by simp
next
  show "lm_inv ap (fst (lm_Uplink t s0))" using lm_Uplink_ok [OF assms(1), of s0] assms(2) by blast
qed

theorem live_links_isolated_witness:
  "\<exists>conn. routed w_lm1 (w_up 4000 8) 5000 conn"
proof -
  have "\<forall>s d. uplinkMap w_lm1 s = Some d \<longrightarrow> port_uses d < 2 ^ 48 - 1" by (simp add: w_lm1_def)
  from live_links_isolated [OF w_lm1_inv this] w_lm1_up(2) show ?thesis by (metis port_num_NewPort)
qed

text \<open>
  A live link that is idle is never removed when \<open>Cleanup\<close> runs at least as often
  as the time-to-live: a sweep that finds the head not yet expired stamps it with the
  current time. With a single link, whatever the number of sweeps and however long the
  link has been idle, it stays.
\<close>

fun cleanup_seq ::
  "ap_state \<Rightarrow> (listener \<Rightarrow> go_error option) \<Rightarrow> 'c linkManager \<Rightarrow> time list
    \<Rightarrow> (ap_state \<times> 'c linkManager) option" where
  "cleanup_seq ap cl t [] = Some (ap, t)"
| "cleanup_seq ap cl t (n # ns) = do {
     (ap, t, _) \<leftarrow> Cleanup ap cl (\<lambda>k. n) t;
     cleanup_seq ap cl t ns
   }"

fun gaps_within :: "int \<Rightarrow> time \<Rightarrow> time list \<Rightarrow> bool" where
  "gaps_within d t0 [] = True"
| "gaps_within d t0 (n # ns) = (n - t0 \<le> d \<and> gaps_within d n ns)"

lemma Cleanup_head_fresh:
  assumes q: "heap_inv (ttl t)" "heap_list (ttl t) = [e]" and d: "n - tk_start e \<le> duration t"
  shows "\<exists>q. Cleanup ap cl (\<lambda>k. n) t = Some (ap, t\<lparr>ttl := q\<rparr>, []) \<and> heap_inv q
    \<and> heap_list q = [\<lparr>tk_up = tk_up e, tk_start = n\<rparr>]"
proof -
  obtain q1 where q1: "h_Pop zero_ttlkey (ttl t) = Some (e, q1)" "heap_inv q1" "heap_list q1 = []"
    using ring.pop_ok [OF q] by blast
  obtain q2 where q2: "h_Put zero_ttlkey q1 \<lparr>tk_up = tk_up e, tk_start = n\<rparr> = Some q2" "heap_inv q2"
    "heap_list q2 = [\<lparr>tk_up = tk_up e, tk_start = n\<rparr>]"
    using ring.put_ok [OF q1(2), of zero_ttlkey "\<lparr>tk_up = tk_up e, tk_start = n\<rparr>"] q1(3) by auto
  have "0 < h_Size (ttl t)" using q length_heap_list [of "ttl t"] by (simp add: h_Size_def)
  then have "cleanup_loop (\<lambda>k. n) 0 0 t [] = Some (t\<lparr>ttl := q2\<rparr>, [])"
    using q1(1) q2(1) d by (simp add: cleanup_loop.simps [of _ 0 0])
  then have "Cleanup ap cl (\<lambda>k. n) t = Some (ap, t\<lparr>ttl := q2\<rparr>, [])" by (simp add: Cleanup_def)
  with q2 show ?thesis by blast
qed

theorem periodic_cleanup_keeps_idle_link:
  assumes "heap_inv (ttl t)" "heap_list (ttl t) = [e]"
    and "gaps_within (duration t) (tk_start e) ns"
  shows "\<exists>t'. cleanup_seq ap cl t ns = Some (ap, t') \<and> uplinkMap t' = uplinkMap t
    \<and> downlinkMap t' = downlinkMap t"
  using assms
proof (induction ns arbitrary: t e)
  case (Cons n ns)
  from Cons.prems(3) have g: "n - tk_start e \<le> duration t" "gaps_within (duration t) n ns" by simp_all
  obtain q where q: "Cleanup ap cl (\<lambda>k. n) t = Some (ap, t\<lparr>ttl := q\<rparr>, [])" "heap_inv q"
    "heap_list q = [\<lparr>tk_up = tk_up e, tk_start = n\<rparr>]"
    using Cleanup_head_fresh [OF Cons.prems(1,2) g(1), of ap cl] by blast
  from Cons.IH [of "t\<lparr>ttl := q\<rparr>", OF _ _ ] q g(2) show ?case by simp
qed simp

theorem periodic_cleanup_keeps_idle_link_witness:
  "\<exists>t'. cleanup_seq w_ap1 w_close w_lm1 [110, 210, 310, 410] = Some (w_ap1, t')
    \<and> uplinkMap t' (w_up 4000 8) = Some (NewPort 5000)"
proof -
  have "heap_inv (ttl w_lm1)" "heap_list (ttl w_lm1) = [\<lparr>tk_up = w_up 4000 8, tk_start = 10\<rparr>]"
    using w_ttl_ok [of "w_up 4000 8" 10] by (simp_all add: w_lm1_def)
  from periodic_cleanup_keeps_idle_link [OF this, of "[110, 210, 310, 410]" w_ap1 w_close]
  show ?thesis using w_lm1_up(2) by (auto simp: w_lm1_def)
qed

section \<open>Managers over one adapter\<close>

definition w_lm0 :: "string linkManager" where
  "w_lm0 = \<lparr>lm_addr = w_addr, duration = 100, uplinkMap = Map.empty,
     ttl = NewHeap zero_ttlkey 64, downlinkMap = Map.empty\<rparr>"

definition w_mx1 :: "string mutxLinkManager" where
  "w_mx1 = \<lparr>mutx = 2, mgrs = w_lm1 # replicate 3 w_lm0\<rparr>"

lemma w_lm0_inv: "lm_inv w_ap1 w_lm0"
  using w_ap1_inv NewHeap_ok [of 64 zero_ttlkey]
  by (simp add: lm_inv_def own_def queue_inv_def links_inv_def w_lm0_def)

lemma w_mx1_inv: "mx_inv w_ap1 w_mx1"
proof -
  have "lm_inv w_ap1 (mgrs w_mx1 ! i)" if "i < 4" for i
    using that w_lm0_inv w_lm1_inv by (cases i) (auto simp: w_mx1_def)
  moreover have "mx_index w_mx1 (ap_addr (up_server s)) = Some i"
    if "i < 4" "s \<in> dom (uplinkMap (mgrs w_mx1 ! i))" for i s
    using that by (cases i) (auto simp: w_mx1_def w_lm1_def w_lm0_def w_up_def w_remote_def
        mx_index_def be_bytes_def split: if_splits)
  ultimately show ?thesis using w_ap1_inv by (simp add: mx_inv_def w_mx1_def)
qed

lemma w_mx1_get: "mx_get w_mx1 (ap_addr (up_server (w_up 4001 9))) = Some (1, w_lm0)"
  by (simp add: mx_get_def mx_index_def w_mx1_def w_up_def w_remote_def slice_simps)

text \<open>
  The managers over one adapter do not disturb each other: an \<open>Add\<close> goes to the
  manager that later lookups of the same server select, keeps the invariant of all of
  them, and its uplink and downlink lookups through the same front return the new link.
\<close>

theorem mutx_add_routes:
  assumes "mx_inv ap m" "addr_valid (ap_addr (up_server s))"
    and "\<forall>i t. mx_get m (ap_addr (up_server s)) = Some (i, t) \<longrightarrow>
        add_env_ok ap env t s \<and> uplinkMap t s = None"
    and "up_proto s = TCP \<or> up_proto s = UDP" "ap_valid (up_process s)"
  shows "\<exists>ap' m' r. mx_Add ap env m s conn = Some (ap', m', r) \<and> mx_inv ap' m'
    \<and> (\<forall>p. r = Inr p \<longrightarrow> map_option snd (mx_Uplink m' s) = Some (Some p)
        \<and> (\<exists>i t. mx_get m (ap_addr (up_server s)) = Some (i, t)
            \<and> mx_Downlink m' (down_key (lm_addr t) s p) = Some (Some (conn, ap_port (up_process s)))))"
proof -
  obtain i where i: "mx_index m (ap_addr (up_server s)) = Some i" "i < length (mgrs m)"
    "mx_get m (ap_addr (up_server s)) = Some (i, mgrs m ! i)"
    using mx_get_ok [OF assms(1,2)] by blast
  with assms(3) have e: "add_env_ok ap env (mgrs m ! i) s" "uplinkMap (mgrs m ! i) s = None" by simp_all
  obtain ap' t' r where A: "mx_Add ap env m s conn = Some (ap', mx_set m i t', r)"
    "mx_inv ap' (mx_set m i t')" "\<forall>p. r = Inr p \<longrightarrow> routed t' s p conn \<and> lm_addr t' = lm_addr (mgrs m ! i)"
    using mx_Add_ok [OF assms(1) i(1,2) e(1) assms(4) e(2) assms(5), of conn] by blast
  have get: "mx_get (mx_set m i t') (ap_addr (up_server s)) = Some (i, t')"
    using i(1,2) by (simp add: mx_get_def mx_set_def slice_simps)
  have "map_option snd (mx_Uplink (mx_set m i t') s) = Some (Some p)
      \<and> mx_Downlink (mx_set m i t') (down_key (lm_addr (mgrs m ! i)) s p)
          = Some (Some (conn, ap_port (up_process s)))"
    if "r = Inr p" for p
  proof -
    have "routed t' s p conn" and a: "lm_addr (mgrs m ! i) = lm_addr t'" using A(3) that by auto
    moreover have "dn_server (down_key (lm_addr t') s p) = up_server s" by (simp add: down_key_def)
    ultimately show ?thesis unfolding a using get
      by (simp add: routed_def mx_Uplink_def mx_Downlink_def case_prod_beta)
  qed
  with A(1,2) i(3) show ?thesis by blast
qed

theorem mutx_add_routes_witness:
  "\<exists>ap' m' r. mx_Add w_ap1 w_env w_mx1 (w_up 4001 9) ''conn2'' = Some (ap', m', r) \<and> mx_inv ap' m'"
proof -
  have "\<exists>t ls. Cleanup w_ap1 w_close (\<lambda>k. 50) w_lm0 = Some (w_ap1, t, ls)"
    by (simp add: Cleanup_def cleanup_loop.simps h_Size_def w_lm0_def NewHeap_def)
  then have "add_env_ok w_ap1 w_env w_lm0 (w_up 4001 9)"
    using w_env1 by (auto simp: add_env_ok_def w_env_def w_up_def)
  moreover have "uplinkMap w_lm0 (w_up 4001 9) = None" by (simp add: w_lm0_def)
  moreover have "addr_valid (ap_addr (up_server (w_up 4001 9)))" "up_proto (w_up 4001 9) = TCP"
    "ap_valid (up_process (w_up 4001 9))" by (simp_all add: w_up_def w_remote_def ap_valid_def)
  ultimately show ?thesis
    using mutx_add_routes [OF w_mx1_inv, of "w_up 4001 9" w_env "''conn2''"] w_mx1_get by auto
qed

text \<open>
  \<open>Cleanup\<close> over all managers never panics, keeps the invariant of every manager
  and removes only links that were idle and expired in their own manager.
\<close>

theorem mutx_cleanup_safe:
  assumes "mx_inv ap m" "\<forall>i k. clk i k \<noteq> 0"
  shows "\<exists>ap' m' ls. mx_Cleanup ap cl clk m = Some (ap', m', ls) \<and> mx_inv ap' m'
    \<and> (\<forall>l \<in> set ls. \<exists>i < length (mgrs m). removable (clk i) (mgrs m ! i) l)"
proof -
  have "mx_inv ap (m\<lparr>mgrs := [] @ mgrs m\<rparr>)" using assms(1) by simp
  from mx_cleanup_ok [OF assms(2) this, of 0 cl] obtain ap' ts ls where
    "mx_cleanup_from ap cl clk 0 (mgrs m) = Some (ap', ts, ls)" "mx_inv ap' (m\<lparr>mgrs := ts\<rparr>)"
    "\<forall>l \<in> set ls. \<exists>j < length (mgrs m). removable (clk j) (mgrs m ! j) l" by auto
  then show ?thesis by (simp add: mx_Cleanup_def)
qed

theorem mutx_cleanup_safe_witness:
  "\<exists>ap' m' ls. mx_Cleanup w_ap1 w_close (\<lambda>i k. 200) w_mx1 = Some (ap', m', ls) \<and> mx_inv ap' m'"
  using mutx_cleanup_safe [OF w_mx1_inv, of "\<lambda>i k. 200" w_close] by auto

end
