(* ===== verification/Ones_Complement.thy ===== *)
theory Ones_Complement
  imports Go_Prelude
begin

text \<open>
  The arithmetic of the Internet checksum (RFC 1071), for the checksum and MSS code:
  one's complement addition of 16-bit words with end-around carry, the folded sum of a
  byte string, and the residue modulo 65535 that determines it up to the two zeros.
\<close>

section \<open>Addition with end-around carry\<close>

definition oc_add :: "u16 \<Rightarrow> u16 \<Rightarrow> u16" where
  "oc_add a b = (let v = (ucast a + ucast b :: u32) in ucast (v + drop_bit 16 v))"

fun oc_sum :: "bytes \<Rightarrow> u16 \<Rightarrow> u16" where
  "oc_sum [] s = s"
| "oc_sum [a] s = oc_add s (be16 a 0)"
| "oc_sum (a # b # r) s = oc_sum r (oc_add s (be16 a b))"

lemma unat16_lt: "unat (w :: u16) < 65536"
  using unsigned_less [where ?'a = nat, of w] by simp

lemma unat8_lt: "unat (w :: u8) < 256"
  using unsigned_less [where ?'a = nat, of w] by simp

lemma unat_oc_add:
  "unat (oc_add a b) = (if unat a + unat b < 65536 then unat a + unat b else unat a + unat b - 65535)"
proof -
  let ?v = "ucast a + ucast b :: u32"
  have v: "unat ?v = unat a + unat b"
    using unat16_lt [of a] unat16_lt [of b] by (simp add: unat_word_ariths unsigned_ucast_eq take_bit_nat_eq_self)
  have d: "unat (drop_bit 16 ?v) = (unat a + unat b) div 65536"
    unfolding unsigned_drop_bit_eq v
    using unat16_lt [of a] unat16_lt [of b] by (simp add: take_bit_nat_eq_self drop_bit_eq_div)
  have q: "(unat a + unat b) div 65536 = (if unat a + unat b < 65536 then 0 else 1)"
    using unat16_lt [of a] unat16_lt [of b] by (auto simp: div_nat_eqI)
  have s: "unat (?v + drop_bit 16 ?v) = unat a + unat b + (unat a + unat b) div 65536"
    unfolding unat_word_ariths(1) [of ?v] v d using q unat16_lt [of a] unat16_lt [of b] by simp
  have "unat (oc_add a b) = (unat a + unat b + (unat a + unat b) div 65536) mod 65536"
    unfolding oc_add_def Let_def unsigned_ucast_eq s by (simp add: take_bit_eq_mod)
  then show ?thesis using q unat16_lt [of a] unat16_lt [of b]
    by (auto simp: mod_if)
qed

lemma oc_add_mod: "unat (oc_add a b) mod 65535 = (unat a + unat b) mod 65535"
  by (auto simp: unat_oc_add mod_if)

lemma oc_add_0_iff: "oc_add a b = 0 \<longleftrightarrow> a = 0 \<and> b = 0"
  by (auto simp: unat_oc_add word_unat_eq_iff)

lemma oc_add_0 [simp]: "oc_add 0 b = b" "oc_add a 0 = a"
  using unat16_lt by (simp_all add: unat_oc_add word_unat_eq_iff)

lemma oc_eqI:
  assumes "a = 0 \<longleftrightarrow> b = 0" "unat a mod 65535 = unat (b :: u16) mod 65535"
  shows "a = b"
proof (cases "a = 0")
  case True
  then show ?thesis using assms(1) by simp
next
  case False
  then have nz: "unat a \<noteq> 0" "unat b \<noteq> 0" using assms(1) by (simp_all add: unat_eq_0)
  have "unat a = unat b"
    using assms(2) nz unat16_lt [of a] unat16_lt [of b]
    by (cases "unat a = 65535"; cases "unat b = 65535") auto
  then show ?thesis by (simp add: word_unat_eq_iff)
qed

lemma unat_not16: "unat (NOT w :: u16) = 65535 - unat w"
proof -
  have "NOT w = - 1 - w" by (simp add: not_eq_complement)
  moreover have "(- 1 :: u16) = 0xffff" by simp
  ultimately have "unat (NOT w) = unat (0xffff - w)" by metis
  also have "\<dots> = unat (0xffff :: u16) - unat w"
    using unat16_lt [of w] by (intro unat_sub) (simp add: word_le_nat_alt)
  finally show ?thesis by simp
qed

lemma oc_add_commute: "oc_add a b = oc_add b a"
  by (simp add: oc_add_def add.commute)

lemma oc_add_assoc: "oc_add (oc_add a b) c = oc_add a (oc_add b c)"
proof (rule oc_eqI)
  show "(oc_add (oc_add a b) c = 0) = (oc_add a (oc_add b c) = 0)" by (auto simp: oc_add_0_iff)
  show "unat (oc_add (oc_add a b) c) mod 65535 = unat (oc_add a (oc_add b c)) mod 65535"
    using mod_add_cong [OF oc_add_mod refl] mod_add_cong [OF refl oc_add_mod]
    by (metis oc_add_mod add.assoc)
qed

lemma oc_add_left_commute: "oc_add a (oc_add b c) = oc_add b (oc_add a c)"
  using oc_add_assoc oc_add_commute by metis

lemmas oc_add_ac = oc_add_assoc oc_add_commute oc_add_left_commute

lemma oc_add_not [simp]: "oc_add a (NOT a) = 0xffff"
  using unat16_lt [of a] by (simp add: word_unat_eq_iff unat_oc_add unat_not16)

section \<open>The sum of a byte string\<close>

lemma oc_sum_start: "oc_sum xs s = oc_add s (oc_sum xs 0)"
proof (induction xs arbitrary: s rule: induct_list012)
  case (3 a b r)
  have "oc_sum r (oc_add s (be16 a b)) = oc_add (oc_add s (be16 a b)) (oc_sum r 0)"
    by (rule 3(1))
  moreover have "oc_sum r (be16 a b) = oc_add (be16 a b) (oc_sum r 0)"
    by (rule 3(1))
  ultimately show ?case by (simp add: oc_add_assoc)
qed simp_all

lemma oc_sum_append: "even (length xs) \<Longrightarrow> oc_sum (xs @ ys) s = oc_sum ys (oc_sum xs s)"
  by (induction xs s rule: oc_sum.induct) auto

text \<open>The plain sum of the words, an odd last byte being the high one.\<close>

fun wsum :: "bytes \<Rightarrow> nat" where
  "wsum [] = 0"
| "wsum [a] = 256 * unat a"
| "wsum (a # b # r) = 256 * unat a + unat b + wsum r"

lemma unat_be16: "unat (be16 a b) = 256 * unat a + unat b"
proof -
  have "be16 a b = push_bit 8 (ucast a) + ucast b"
    unfolding be16_def by (rule disjunctive_add [symmetric]) (auto simp: bit_simps dest: bit_imp_le_length)
  then have "be16 a b = ucast a * 256 + ucast b" by (simp add: push_bit_eq_mult)
  then show ?thesis using unat8_lt [of a] unat8_lt [of b]
    by (simp add: unat_word_ariths unsigned_ucast_eq take_bit_nat_eq_self)
qed

lemma oc_sum_mod: "unat (oc_sum xs s) mod 65535 = (unat s + wsum xs) mod 65535"
proof (induction xs s rule: oc_sum.induct)
  case (3 a b r s)
  then show ?case
    using mod_add_cong [OF oc_add_mod [of s "be16 a b"] refl [of "wsum r mod 65535"]]
    by (simp add: unat_be16 mod_simps ac_simps)
qed (simp_all add: oc_add_mod unat_be16)

lemma be16_0_iff: "be16 a b = 0 \<longleftrightarrow> a = 0 \<and> b = 0"
  using unat_be16 [of a b] by (auto simp: word_unat_eq_iff)

lemma oc_sum_0_iff: "oc_sum xs s = 0 \<longleftrightarrow> s = 0 \<and> set xs \<subseteq> {0}"
  by (induction xs s rule: oc_sum.induct) (auto simp: oc_add_0_iff be16_0_iff)

text \<open>The weight of a byte in the sum, and the sum after changing one byte.\<close>

definition weight :: "nat \<Rightarrow> nat" where
  "weight i = (if even i then 256 else 1)"

lemma wsum_update: "i < length xs \<Longrightarrow>
    wsum (xs[i := v]) + weight i * unat (xs ! i) = wsum xs + weight i * unat v"
proof (induction xs arbitrary: i rule: induct_list012)
  case (3 a b r)
  then show ?case
    by (cases i; cases "i - 1") (auto simp: weight_def less_Suc_eq_0_disj)
qed (simp_all add: weight_def)

end
