(* ===== verification/Net_Api.thy ===== *)
theory Net_Api
  imports Netip Ones_Complement
begin

text \<open>
  The two libraries the packet code calls, as parameters of the model: the buffer
  \<open>packet.Packet\<close> of netkit and the protocol headers of gVisor. Each is a record of
  functions; what the code relies on is a predicate of laws, the documented layouts of
  RFC 791, 768 and 793 and the checksum of RFC 1071. The instances \<open>rfc\<close> and
  \<open>plain_packet\<close> show that the laws can hold.

  A slice \<open>Bytes()\<close> aliases the packet, so writing through it is the operation
  \<open>p_store\<close>; a payload inside a header is a window (offset, length) of its bytes.
\<close>

section \<open>Big-endian fields and windows\<close>

definition get16 :: "bytes \<Rightarrow> nat \<Rightarrow> u16" where
  "get16 b k = be16 (b ! k) (b ! (k + 1))"

definition set16 :: "bytes \<Rightarrow> nat \<Rightarrow> u16 \<Rightarrow> bytes" where
  "set16 b k v = b[k := hi8 v, k + 1 := lo8 v]"

definition window :: "nat \<times> nat \<Rightarrow> bytes \<Rightarrow> bytes" where
  "window w b = take (snd w) (drop (fst w) b)"

definition set_window :: "nat \<times> nat \<Rightarrow> bytes \<Rightarrow> bytes \<Rightarrow> bytes" where
  "set_window w seg b = take (fst w) b @ seg @ drop (fst w + length seg) b"

lemma nth_update_if: "xs[i := x] ! j = (if i = j \<and> j < length xs then x else xs ! j)"
  by (cases "i < length xs") (auto simp: nth_list_update list_update_beyond)

lemma length_set16 [simp]: "length (set16 b k v) = length b"
  by (simp add: set16_def)

lemma get16_set16: "k + 1 < length b \<Longrightarrow> get16 (set16 b k v) k = v"
  by (simp add: get16_def set16_def nth_list_update)

lemma get16_set16_other: "j + 1 < k \<or> k + 1 < j \<Longrightarrow> get16 (set16 b k v) j = get16 b j"
  by (auto simp: get16_def set16_def nth_list_update)

lemma set16_get16: "k + 1 < length b \<Longrightarrow> set16 b k (get16 b k) = b"
  by (simp add: set16_def get16_def)

lemma set16_set16 [simp]: "set16 (set16 b k v) k w = set16 b k w"
  unfolding set16_def by (rule nth_equalityI) (auto simp: nth_update_if)

lemma set16_swap: "j + 1 < k \<or> k + 1 < j \<Longrightarrow> set16 (set16 b k v) j w = set16 (set16 b j w) k v"
  unfolding set16_def by (rule nth_equalityI) (auto simp: nth_update_if)

lemma wsum_set16:
  assumes "k + 1 < length b" "even k"
  shows "wsum (set16 b k v) + unat (get16 b k) = wsum b + unat v"
proof -
  have v: "unat v = 256 * unat (hi8 v) + unat (lo8 v)" using unat_be16 [of "hi8 v" "lo8 v"] by simp
  have g: "unat (get16 b k) = 256 * unat (b ! k) + unat (b ! (k + 1))" by (simp add: get16_def unat_be16)
  have "wsum (b[k := hi8 v]) + weight k * unat (b ! k) = wsum b + weight k * unat (hi8 v)"
    using assms by (intro wsum_update) simp
  moreover have "wsum (b[k := hi8 v, k + 1 := lo8 v]) + weight (k + 1) * unat (b[k := hi8 v] ! (k + 1))
      = wsum (b[k := hi8 v]) + weight (k + 1) * unat (lo8 v)"
    using assms by (intro wsum_update) simp
  ultimately show ?thesis using assms(2) v g by (simp add: set16_def weight_def)
qed

lemma window_set_window: "fst w + snd w \<le> length b \<Longrightarrow> length seg = snd w \<Longrightarrow>
    window w (set_window w seg b) = seg"
  by (simp add: window_def set_window_def)

lemma length_set_window: "fst w + length seg \<le> length b \<Longrightarrow> length (set_window w seg b) = length b"
  by (simp add: set_window_def)

lemma length_window: "fst w + snd w \<le> length b \<Longrightarrow> length (window w b) = snd w"
  by (simp add: window_def)

section \<open>netkit's packet\<close>

record 'p packet_api =
  p_bytes :: "'p \<Rightarrow> bytes"
  p_head :: "'p \<Rightarrow> nat"
  p_store :: "'p \<Rightarrow> bytes \<Rightarrow> 'p"
  p_SetHead :: "'p \<Rightarrow> nat \<Rightarrow> 'p"
  p_SetData :: "'p \<Rightarrow> nat \<Rightarrow> 'p"
  p_Sets :: "'p \<Rightarrow> nat \<Rightarrow> nat \<Rightarrow> 'p"
  p_Attach :: "'p \<Rightarrow> bytes \<Rightarrow> 'p"
  p_AttachN :: "'p \<Rightarrow> nat \<Rightarrow> 'p"
  p_DetachN :: "'p \<Rightarrow> nat \<Rightarrow> 'p"
  p_Append :: "'p \<Rightarrow> bytes \<Rightarrow> 'p"
  p_AppendN :: "'p \<Rightarrow> nat \<Rightarrow> 'p"
  p_ReduceN :: "'p \<Rightarrow> nat \<Rightarrow> 'p"

definition p_data :: "'p packet_api \<Rightarrow> 'p \<Rightarrow> nat" where
  "p_data P p = length (p_bytes P p)"

definition packet_laws :: "'p packet_api \<Rightarrow> bool" where
  "packet_laws P \<longleftrightarrow>
     (\<forall>p b. length b = length (p_bytes P p) \<longrightarrow> p_bytes P (p_store P p b) = b \<and> p_head P (p_store P p b) = p_head P p)
   \<and> (\<forall>p k. k \<le> length (p_bytes P p) \<longrightarrow> p_bytes P (p_SetHead P p (p_head P p + k)) = drop k (p_bytes P p)
        \<and> p_head P (p_SetHead P p (p_head P p + k)) = p_head P p + k)
   \<and> (\<forall>p n. n \<le> length (p_bytes P p) \<longrightarrow> p_bytes P (p_SetData P p n) = take n (p_bytes P p))
   \<and> (\<forall>p xs. p_bytes P (p_Attach P p xs) = xs @ p_bytes P p)
   \<and> (\<forall>p n. \<exists>xs. length xs = n \<and> p_bytes P (p_AttachN P p n) = xs @ p_bytes P p)
   \<and> (\<forall>p n. n \<le> length (p_bytes P p) \<longrightarrow> p_bytes P (p_DetachN P p n) = drop n (p_bytes P p))
   \<and> (\<forall>p xs. p_bytes P (p_Append P p xs) = p_bytes P p @ xs)
   \<and> (\<forall>p n. \<exists>xs. length xs = n \<and> p_bytes P (p_AppendN P p n) = p_bytes P p @ xs)
   \<and> (\<forall>p n. n \<le> length (p_bytes P p) \<longrightarrow>
        p_bytes P (p_ReduceN P p n) = take (length (p_bytes P p) - n) (p_bytes P p))"

lemma packet_lawsD:
  assumes "packet_laws P"
  shows "length b = length (p_bytes P p) \<Longrightarrow> p_bytes P (p_store P p b) = b"
    and "length b = length (p_bytes P p) \<Longrightarrow> p_head P (p_store P p b) = p_head P p"
    and "k \<le> length (p_bytes P p) \<Longrightarrow> p_bytes P (p_SetHead P p (p_head P p + k)) = drop k (p_bytes P p)"
    and "n \<le> length (p_bytes P p) \<Longrightarrow> p_bytes P (p_SetData P p n) = take n (p_bytes P p)"
    and "p_bytes P (p_Attach P p xs) = xs @ p_bytes P p"
    and "\<exists>ys. length ys = n \<and> p_bytes P (p_AttachN P p n) = ys @ p_bytes P p"
    and "n \<le> length (p_bytes P p) \<Longrightarrow> p_bytes P (p_DetachN P p n) = drop n (p_bytes P p)"
    and "\<exists>ys. length ys = n \<and> p_bytes P (p_AppendN P p n) = p_bytes P p @ ys"
    and "n \<le> length (p_bytes P p) \<Longrightarrow>
      p_bytes P (p_ReduceN P p n) = take (length (p_bytes P p) - n) (p_bytes P p)"
    and "p_bytes P (p_Append P p xs) = p_bytes P p @ xs"
  using assms unfolding packet_laws_def by blast+

text \<open>An instance: a head offset and the visible bytes.\<close>

definition plain_packet :: "(nat \<times> bytes) packet_api" where
  "plain_packet = \<lparr>p_bytes = snd, p_head = fst, p_store = (\<lambda>p b. (fst p, b)),
     p_SetHead = (\<lambda>p h. (h, drop (h - fst p) (snd p))), p_SetData = (\<lambda>p n. (fst p, take n (snd p))),
     p_Sets = (\<lambda>p h d. (h, replicate d 0)),
     p_Attach = (\<lambda>p xs. (fst p - length xs, xs @ snd p)),
     p_AttachN = (\<lambda>p n. (fst p - n, replicate n 0 @ snd p)),
     p_DetachN = (\<lambda>p n. (fst p + n, drop n (snd p))),
     p_Append = (\<lambda>p xs. (fst p, snd p @ xs)), p_AppendN = (\<lambda>p n. (fst p, snd p @ replicate n 0)),
     p_ReduceN = (\<lambda>p n. (fst p, take (length (snd p) - n) (snd p)))\<rparr>"

lemma plain_packet_laws: "packet_laws plain_packet"
  by (simp add: packet_laws_def plain_packet_def)

text \<open>The bytes in front of the visible ones stay in the packet: attaching as many bytes as
  the head was just moved by shows the same bytes again.\<close>

definition reveal_law :: "'p packet_api \<Rightarrow> bool" where
  "reveal_law P \<longleftrightarrow> (\<forall>p n. n \<le> length (p_bytes P p) \<longrightarrow>
     p_bytes P (p_AttachN P (p_SetHead P p (p_head P p + n)) n) = p_bytes P p)"

text \<open>Only moving the head changes it, and moving it back shows what was hidden.\<close>

definition head_laws :: "'p packet_api \<Rightarrow> bool" where
  "head_laws P \<longleftrightarrow>
     (\<forall>p n. n \<le> length (p_bytes P p) \<longrightarrow>
        p_bytes P (p_SetHead P (p_SetHead P p (p_head P p + n)) (p_head P p)) = p_bytes P p
        \<and> p_head P (p_SetHead P (p_SetHead P p (p_head P p + n)) (p_head P p)) = p_head P p
        \<and> p_head P (p_SetData P p n) = p_head P p)
   \<and> (\<forall>p xs. p_head P (p_Append P p xs) = p_head P p)"

text \<open>An instance of all the laws: the hidden bytes in front and the visible ones.\<close>

definition framed :: "(bytes \<times> bytes) packet_api" where
  "framed = \<lparr>p_bytes = snd, p_head = (\<lambda>p. length (fst p)), p_store = (\<lambda>p b. (fst p, b)),
     p_SetHead = (\<lambda>p h. (take h (fst p @ snd p), drop h (fst p @ snd p))),
     p_SetData = (\<lambda>p n. (fst p, take n (snd p))),
     p_Sets = (\<lambda>p h d. (replicate h 0, replicate d 0)),
     p_Attach = (\<lambda>p xs. (take (length (fst p) - length xs) (fst p), xs @ snd p)),
     p_AttachN = (\<lambda>p n. let f = replicate (n - length (fst p)) 0 @ fst p in
        (take (length f - n) f, drop (length f - n) f @ snd p)),
     p_DetachN = (\<lambda>p n. (fst p @ take n (snd p), drop n (snd p))),
     p_Append = (\<lambda>p xs. (fst p, snd p @ xs)), p_AppendN = (\<lambda>p n. (fst p, snd p @ replicate n 0)),
     p_ReduceN = (\<lambda>p n. (fst p, take (length (snd p) - n) (snd p)))\<rparr>"

lemma framed_head: "head_laws framed"
  by (simp add: head_laws_def framed_def)

lemma framed_laws: "packet_laws framed" and framed_reveal: "reveal_law framed"
proof -
  have attach: "\<exists>xs. length xs = n \<and> p_bytes framed (p_AttachN framed p n) = xs @ p_bytes framed p" for n p
    by (intro exI [of _ "drop (length (replicate (n - length (fst p)) (0::byte) @ fst p) - n)
        (replicate (n - length (fst p)) 0 @ fst p)"]) (simp add: framed_def Let_def)
  show "packet_laws framed" using attach by (auto simp: packet_laws_def framed_def)
  show "reveal_law framed" by (auto simp: reveal_law_def framed_def Let_def)
qed

end
