(* ===== verification/Peer.thy ===== *)
theory Peer
  imports Net_Api
begin

text \<open>
  The peer header of \<open>conn/peer.go\<close>: five bytes in front of every datagram that name
  the transport protocol and the remote IPv4 address. The interface \<open>peer_codec\<close> is
  what the connection relies on: the header of a valid session has a fixed size and is
  read back from the front of a datagram.

  A \<open>Default\<close> peer is a pointer, so it can be nil: the value \<open>None\<close>.
\<close>

section \<open>The interface\<close>

locale peer_codec =
  fixes valid :: "'s \<Rightarrow> bool"
    and wire :: "'s \<Rightarrow> bytes"
    and parse :: "bytes \<Rightarrow> 's option"
    and overhead :: nat
  assumes wire_length: "valid s \<Longrightarrow> length (wire s) = overhead"
    and parse_wire: "valid s \<Longrightarrow> parse (wire s @ xs) = Some s"
    and parse_short: "length b < overhead \<Longrightarrow> parse b = None"
begin

lemma wire_inj: "valid s \<Longrightarrow> valid s' \<Longrightarrow> wire s @ xs = wire s' @ ys \<Longrightarrow> s = s' \<and> xs = ys"
proof -
  assume v: "valid s" "valid s'" and eq: "wire s @ xs = wire s' @ ys"
  have "Some s = Some s'" using parse_wire [OF v(1), of xs] parse_wire [OF v(2), of ys] eq by simp
  with eq show ?thesis by simp
qed

lemma payload: "valid s \<Longrightarrow> drop overhead (wire s @ xs) = xs"
  by (simp add: wire_length [symmetric])

end

section \<open>The code\<close>

record defaultSession =
  ds_proto :: proto
  ds_dst :: addr

type_synonym peer = "defaultSession option"

definition NewDefaultPeer :: peer where
  "NewDefaultPeer = Some \<lparr>ds_proto = 0, ds_dst = AddrZero\<rparr>"

definition ds_Reset :: "peer \<Rightarrow> proto \<Rightarrow> addr \<Rightarrow> peer option" where
  "ds_Reset p proto remote =
     (case p of None \<Rightarrow> None | Some s \<Rightarrow> Some (Some (s\<lparr>ds_proto := proto, ds_dst := remote\<rparr>)))"

definition ds_Builtin :: "peer \<Rightarrow> peer" where
  "ds_Builtin p = Some \<lparr>ds_proto = TCP, ds_dst = ipv4_unspecified\<rparr>"

definition ds_Valid :: "peer \<Rightarrow> bool" where
  "ds_Valid p \<longleftrightarrow> (case p of None \<Rightarrow> False
     | Some s \<Rightarrow> addr_valid (ds_dst s) \<and> addr_is4 (ds_dst s) \<and> (ds_proto s = TCP \<or> ds_proto s = UDP))"

definition ds_IsBuiltin :: "peer \<Rightarrow> bool" where
  "ds_IsBuiltin p \<longleftrightarrow> ds_Valid p \<and> (case p of None \<Rightarrow> False
     | Some s \<Rightarrow> addr_is4 (ds_dst s) \<and> addr_unspecified (ds_dst s) \<and> ds_proto s = TCP)"

definition ds_Overhead :: nat where
  "ds_Overhead = 5"

definition ds_Encode :: "'p packet_api \<Rightarrow> peer \<Rightarrow> 'p \<Rightarrow> 'p \<times> go_error option" where
  "ds_Encode P p pkt =
     (if \<not> ds_Valid p then (pkt, Some ErrInvalidPeer)
      else case p of None \<Rightarrow> (pkt, Some ErrInvalidPeer)
      | Some s \<Rightarrow>
         (let pkt = p_Attach P pkt (addr_slice (ds_dst s)) in
          if ds_proto s = TCP \<or> ds_proto s = UDP then (p_Attach P pkt [ucast (ds_proto s)], None)
          else (pkt, Some (ErrProtocol (ds_proto s)))))"

definition ds_Decode :: "'p packet_api \<Rightarrow> peer \<Rightarrow> 'p \<Rightarrow> peer \<times> 'p \<times> go_error option" where
  "ds_Decode P p seg =
     (case p of None \<Rightarrow> (p, seg, Some ErrNilPeer)
      | Some s \<Rightarrow>
         (let b = p_bytes P seg in
          if length b < 5 then (p, seg, Some ErrShortPacket)
          else (Some (s\<lparr>ds_proto := ucast (b ! 0), ds_dst := Addr4 (b ! 1) (b ! 2) (b ! 3) (b ! 4)\<rparr>),
                p_SetHead P seg (p_head P seg + 5), None)))"

section \<open>The format\<close>

definition ds_wire :: "defaultSession \<Rightarrow> bytes" where
  "ds_wire s = ucast (ds_proto s) # addr_slice (ds_dst s)"

definition ds_parse :: "bytes \<Rightarrow> defaultSession option" where
  "ds_parse b = (if length b < 5 then None
     else Some \<lparr>ds_proto = ucast (b ! 0), ds_dst = Addr4 (b ! 1) (b ! 2) (b ! 3) (b ! 4)\<rparr>)"

lemma ds_ValidE:
  assumes "ds_Valid (Some s)"
  obtains a b c d where "s = \<lparr>ds_proto = TCP, ds_dst = Addr4 a b c d\<rparr>"
  | a b c d where "s = \<lparr>ds_proto = UDP, ds_dst = Addr4 a b c d\<rparr>"
  using assms by (cases s; cases "ds_dst s") (auto simp: ds_Valid_def)

interpretation ds: peer_codec "\<lambda>s. ds_Valid (Some s)" ds_wire ds_parse ds_Overhead
proof unfold_locales
  fix s xs assume "ds_Valid (Some s)"
  then show "length (ds_wire s) = ds_Overhead" "ds_parse (ds_wire s @ xs) = Some s"
    by (cases rule: ds_ValidE; simp add: ds_wire_def ds_parse_def ds_Overhead_def)+
next
  fix b :: bytes assume "length b < ds_Overhead"
  then show "ds_parse b = None" by (simp add: ds_parse_def ds_Overhead_def)
qed

lemma ds_Encode_ok:
  assumes "packet_laws P" "ds_Valid (Some s)"
  shows "\<exists>pkt'. ds_Encode P (Some s) pkt = (pkt', None) \<and> p_bytes P pkt' = ds_wire s @ p_bytes P pkt"
  using assms(2) packet_lawsD(5) [OF assms(1)]
  by (cases rule: ds_ValidE; simp add: ds_Encode_def ds_wire_def)

lemma ds_Decode_ok:
  assumes "packet_laws P" "ds_parse (p_bytes P pkt) = Some s"
  shows "\<exists>pkt'. ds_Decode P (Some q) pkt = (Some s, pkt', None) \<and> p_bytes P pkt' = drop 5 (p_bytes P pkt)"
proof -
  have "5 \<le> length (p_bytes P pkt)" using assms(2) by (auto simp: ds_parse_def split: if_splits)
  then show ?thesis using packet_lawsD(3) [OF assms(1), of 5 pkt] assms(2)
    by (auto simp: ds_Decode_def ds_parse_def Let_def)
qed

lemma ds_IsBuiltin_iff: "ds_IsBuiltin (Some s) \<longleftrightarrow> s = \<lparr>ds_proto = TCP, ds_dst = ipv4_unspecified\<rparr>"
  by (cases s; cases "ds_dst s") (auto simp: ds_IsBuiltin_def ds_Valid_def ipv4_unspecified_def)

end
