(* ===== verification/Gvisor.thy ===== *)
theory Gvisor
  imports Net_Api
begin

text \<open>
  gVisor's \<open>tcpip/header\<close> and \<open>tcpip/checksum\<close> as parameters: the accessors
  and setters of the IPv4, IPv6, TCP and UDP headers on byte slices that the program
  calls, with the layouts of the RFCs as laws. An accessor has no value where the library
  indexes past the slice; the laws speak of long enough slices only.
\<close>

record v4_fields =
  f_tos :: u8
  f_total :: u16
  f_id :: u16
  f_ttl :: u8
  f_proto :: u8
  f_src :: bytes
  f_dst :: bytes

record gvisor =
  g_IPVersion :: "bytes \<Rightarrow> int"
  g_v4_proto :: "bytes \<Rightarrow> proto option"
  g_v4_src :: "bytes \<Rightarrow> bytes option"
  g_v4_dst :: "bytes \<Rightarrow> bytes option"
  g_v4_HeaderLength :: "bytes \<Rightarrow> nat option"
  g_v4_TotalLength :: "bytes \<Rightarrow> u16 option"
  g_v4_PayloadLength :: "bytes \<Rightarrow> u16 option"
  g_v4_Payload :: "bytes \<Rightarrow> (nat \<times> nat) option"
  g_v4_Encode :: "bytes \<Rightarrow> v4_fields \<Rightarrow> bytes option"
  g_v4_SetChecksum :: "bytes \<Rightarrow> u16 \<Rightarrow> bytes option"
  g_v4_CalculateChecksum :: "bytes \<Rightarrow> u16 option"
  g_v6_proto :: "bytes \<Rightarrow> proto option"
  g_v6_src :: "bytes \<Rightarrow> bytes option"
  g_v6_dst :: "bytes \<Rightarrow> bytes option"
  g_v6_PayloadLength :: "bytes \<Rightarrow> u16 option"
  g_v6_Payload :: "bytes \<Rightarrow> (nat \<times> nat) option"
  g_SourcePort :: "proto \<Rightarrow> bytes \<Rightarrow> u16 option"
  g_DestinationPort :: "proto \<Rightarrow> bytes \<Rightarrow> u16 option"
  g_Checksum :: "proto \<Rightarrow> bytes \<Rightarrow> u16 option"
  g_SetSourcePort :: "proto \<Rightarrow> bytes \<Rightarrow> u16 \<Rightarrow> bytes option"
  g_SetChecksum :: "proto \<Rightarrow> bytes \<Rightarrow> u16 \<Rightarrow> bytes option"
  g_SetDestinationPort :: "proto \<Rightarrow> bytes \<Rightarrow> u16 \<Rightarrow> bytes option"
  g_SetSourcePortUpd :: "bytes \<Rightarrow> u16 \<Rightarrow> bytes option"
  g_SetDestinationPortUpd :: "bytes \<Rightarrow> u16 \<Rightarrow> bytes option"
  g_DataOffset :: "bytes \<Rightarrow> nat option"
  g_sum :: "bytes \<Rightarrow> u16 \<Rightarrow> u16"
  g_Combine :: "u16 \<Rightarrow> u16 \<Rightarrow> u16"
  g_Pseudo :: "proto \<Rightarrow> bytes \<Rightarrow> bytes \<Rightarrow> u16 \<Rightarrow> u16"

section \<open>The layouts\<close>

definition v4_hl :: "bytes \<Rightarrow> nat" where "v4_hl b = 4 * unat (b ! 0 AND 15)"

definition v4_total :: "bytes \<Rightarrow> nat" where "v4_total b = unat (get16 b 2)"

text \<open>An IPv4 packet whose lengths agree with its bytes.\<close>

definition v4_wf :: "bytes \<Rightarrow> bool" where
  "v4_wf b \<longleftrightarrow> 20 \<le> length b \<and> drop_bit 4 (b ! 0) = 4 \<and> 20 \<le> v4_hl b \<and> v4_hl b \<le> v4_total b
     \<and> v4_total b \<le> length b"

definition v6_wf :: "bytes \<Rightarrow> bool" where
  "v6_wf b \<longleftrightarrow> 40 \<le> length b \<and> drop_bit 4 (b ! 0) = 6 \<and> 40 + unat (get16 b 4) \<le> length b"

definition min_hdr :: "proto \<Rightarrow> nat" where "min_hdr pr = (if pr = TCP then 20 else 8)"
definition sum_off :: "proto \<Rightarrow> nat" where "sum_off pr = (if pr = TCP then 16 else 6)"

definition v4_header :: "v4_fields \<Rightarrow> bytes" where
  "v4_header f = [0x45, f_tos f, hi8 (f_total f), lo8 (f_total f), hi8 (f_id f), lo8 (f_id f), 0, 0,
     f_ttl f, f_proto f, 0, 0] @ f_src f @ f_dst f"

definition pseudo_sum :: "proto \<Rightarrow> bytes \<Rightarrow> bytes \<Rightarrow> u16 \<Rightarrow> u16" where
  "pseudo_sum pr s d n = oc_add (oc_add (oc_sum d (oc_sum s 0)) (ucast pr)) n"

section \<open>The laws\<close>

definition v4_laws :: "gvisor \<Rightarrow> bool" where
  "v4_laws G \<longleftrightarrow>
     (\<forall>b. g_IPVersion G b = (if b = [] then -1 else int (unat (drop_bit 4 (b ! 0)))))
   \<and> (\<forall>b. 20 \<le> length b \<longrightarrow> g_v4_proto G b = Some (ucast (b ! 9)) \<and> g_v4_src G b = Some (window (12, 4) b)
        \<and> g_v4_dst G b = Some (window (16, 4) b) \<and> g_v4_HeaderLength G b = Some (v4_hl b)
        \<and> g_v4_TotalLength G b = Some (get16 b 2))
   \<and> (\<forall>b. v4_wf b \<longrightarrow> g_v4_Payload G b = Some (v4_hl b, v4_total b - v4_hl b)
        \<and> g_v4_PayloadLength G b = Some (of_nat (v4_total b - v4_hl b)))
   \<and> (\<forall>b f. 20 \<le> length b \<longrightarrow> length (f_src f) = 4 \<longrightarrow> length (f_dst f) = 4 \<longrightarrow>
        g_v4_Encode G b f = Some (v4_header f @ drop 20 b))
   \<and> (\<forall>b v. 20 \<le> length b \<longrightarrow> g_v4_SetChecksum G b v = Some (set16 b 10 v))
   \<and> (\<forall>b. 20 \<le> length b \<longrightarrow> v4_hl b \<le> length b \<longrightarrow> g_v4_CalculateChecksum G b = Some (oc_sum (take (v4_hl b) b) 0))"

definition v6_laws :: "gvisor \<Rightarrow> bool" where
  "v6_laws G \<longleftrightarrow>
     (\<forall>b. 40 \<le> length b \<longrightarrow> g_v6_proto G b = Some (ucast (b ! 6)) \<and> g_v6_src G b = Some (window (8, 16) b)
        \<and> g_v6_dst G b = Some (window (24, 16) b) \<and> g_v6_PayloadLength G b = Some (get16 b 4))
   \<and> (\<forall>b. v6_wf b \<longrightarrow> g_v6_Payload G b = Some (40, unat (get16 b 4)))"

definition port_laws :: "gvisor \<Rightarrow> bool" where
  "port_laws G \<longleftrightarrow> (\<forall>pr b. (pr = TCP \<or> pr = UDP) \<longrightarrow> 4 \<le> length b \<longrightarrow>
     g_SourcePort G pr b = Some (get16 b 0) \<and> g_DestinationPort G pr b = Some (get16 b 2))"

definition transport_laws :: "gvisor \<Rightarrow> bool" where
  "transport_laws G \<longleftrightarrow> (\<forall>pr b. (pr = TCP \<or> pr = UDP) \<longrightarrow> min_hdr pr \<le> length b \<longrightarrow>
     g_Checksum G pr b = Some (get16 b (sum_off pr))
     \<and> (\<forall>v. g_SetSourcePort G pr b v = Some (set16 b 0 v) \<and> g_SetChecksum G pr b v = Some (set16 b (sum_off pr) v))
     \<and> (pr = TCP \<longrightarrow> g_DataOffset G b = Some (4 * unat (drop_bit 4 (b ! 12)))))"

text \<open>Writing a destination port, and writing a TCP port with the incremental checksum
  update of RFC 1624.\<close>

definition port_upd :: "nat \<Rightarrow> bytes \<Rightarrow> u16 \<Rightarrow> bytes" where
  "port_upd k b v =
     set16 (set16 b k v) 16 (NOT (oc_add (NOT (get16 b 16)) (oc_add v (NOT (get16 b k)))))"

definition update_laws :: "gvisor \<Rightarrow> bool" where
  "update_laws G \<longleftrightarrow>
     (\<forall>pr b v. (pr = TCP \<or> pr = UDP) \<longrightarrow> min_hdr pr \<le> length b \<longrightarrow> g_SetDestinationPort G pr b v = Some (set16 b 2 v))
   \<and> (\<forall>b v. 20 \<le> length b \<longrightarrow> g_SetSourcePortUpd G b v = Some (port_upd 0 b v)
        \<and> g_SetDestinationPortUpd G b v = Some (port_upd 2 b v))"

text \<open>The accessors index the slice, so they panic when it ends before the field.\<close>

definition short_laws :: "gvisor \<Rightarrow> bool" where
  "short_laws G \<longleftrightarrow> (\<forall>pr b. (length b < 2 \<longrightarrow> g_SourcePort G pr b = None)
     \<and> (length b < 4 \<longrightarrow> g_DestinationPort G pr b = None))"

definition sum_laws :: "gvisor \<Rightarrow> bool" where
  "sum_laws G \<longleftrightarrow> g_sum G = oc_sum \<and> g_Combine G = oc_add \<and> g_Pseudo G = pseudo_sum"

definition gvisor_laws :: "gvisor \<Rightarrow> bool" where
  "gvisor_laws G \<longleftrightarrow> v4_laws G \<and> v6_laws G \<and> port_laws G \<and> transport_laws G \<and> sum_laws G"

lemma v4_lawsD:
  assumes "gvisor_laws G"
  shows "b \<noteq> [] \<Longrightarrow> g_IPVersion G b = int (unat (drop_bit 4 (b ! 0)))"
    and "20 \<le> length b \<Longrightarrow> g_v4_proto G b = Some (ucast (b ! 9))"
    and "20 \<le> length b \<Longrightarrow> g_v4_src G b = Some (window (12, 4) b)"
    and "20 \<le> length b \<Longrightarrow> g_v4_dst G b = Some (window (16, 4) b)"
    and "20 \<le> length b \<Longrightarrow> g_v4_HeaderLength G b = Some (v4_hl b)"
    and "20 \<le> length b \<Longrightarrow> g_v4_TotalLength G b = Some (get16 b 2)"
    and "v4_wf b \<Longrightarrow> g_v4_Payload G b = Some (v4_hl b, v4_total b - v4_hl b)"
    and "v4_wf b \<Longrightarrow> g_v4_PayloadLength G b = Some (of_nat (v4_total b - v4_hl b))"
    and "20 \<le> length b \<Longrightarrow> length (f_src f) = 4 \<Longrightarrow> length (f_dst f) = 4 \<Longrightarrow>
      g_v4_Encode G b f = Some (v4_header f @ drop 20 b)"
    and "20 \<le> length b \<Longrightarrow> g_v4_SetChecksum G b v = Some (set16 b 10 v)"
    and "20 \<le> length b \<Longrightarrow> v4_hl b \<le> length b \<Longrightarrow> g_v4_CalculateChecksum G b = Some (oc_sum (take (v4_hl b) b) 0)"
  using assms by (simp_all add: gvisor_laws_def v4_laws_def)

lemma v6_lawsD:
  assumes "gvisor_laws G"
  shows "40 \<le> length b \<Longrightarrow> g_v6_proto G b = Some (ucast (b ! 6))"
    and "40 \<le> length b \<Longrightarrow> g_v6_src G b = Some (window (8, 16) b)"
    and "40 \<le> length b \<Longrightarrow> g_v6_dst G b = Some (window (24, 16) b)"
    and "40 \<le> length b \<Longrightarrow> g_v6_PayloadLength G b = Some (get16 b 4)"
    and "v6_wf b \<Longrightarrow> g_v6_Payload G b = Some (40, unat (get16 b 4))"
  using assms by (simp_all add: gvisor_laws_def v6_laws_def)

lemma transport_lawsD:
  assumes "gvisor_laws G" "pr = TCP \<or> pr = UDP"
  shows "4 \<le> length b \<Longrightarrow> g_SourcePort G pr b = Some (get16 b 0)"
    and "4 \<le> length b \<Longrightarrow> g_DestinationPort G pr b = Some (get16 b 2)"
    and "min_hdr pr \<le> length b \<Longrightarrow> g_Checksum G pr b = Some (get16 b (sum_off pr))"
    and "min_hdr pr \<le> length b \<Longrightarrow> g_SetSourcePort G pr b v = Some (set16 b 0 v)"
    and "min_hdr pr \<le> length b \<Longrightarrow> g_SetChecksum G pr b v = Some (set16 b (sum_off pr) v)"
  using assms(2) assms(1) by (elim disjE; simp add: gvisor_laws_def port_laws_def transport_laws_def)+

lemma dataoffset_law: "gvisor_laws G \<Longrightarrow> 20 \<le> length b \<Longrightarrow>
    g_DataOffset G b = Some (4 * unat (drop_bit 4 (b ! 12)))"
  by (simp add: gvisor_laws_def transport_laws_def min_hdr_def)

lemma update_lawD: "update_laws G \<Longrightarrow> pr = TCP \<or> pr = UDP \<Longrightarrow> min_hdr pr \<le> length b \<Longrightarrow>
    g_SetDestinationPort G pr b v = Some (set16 b 2 v)"
  unfolding update_laws_def by blast

lemma sum_lawsD:
  assumes "gvisor_laws G"
  shows "g_sum G = oc_sum" "g_Combine G = oc_add" "g_Pseudo G = pseudo_sum"
  using assms by (simp_all add: gvisor_laws_def sum_laws_def)

section \<open>An instance\<close>

definition if_len :: "nat \<Rightarrow> bytes \<Rightarrow> 'a \<Rightarrow> 'a option" where
  "if_len n b x = (if n \<le> length b then Some x else None)"

definition rfc :: gvisor where
  "rfc = \<lparr>g_IPVersion = (\<lambda>b. if b = [] then -1 else int (unat (drop_bit 4 (b ! 0)))),
     g_v4_proto = (\<lambda>b. if_len 20 b (ucast (b ! 9))), g_v4_src = (\<lambda>b. if_len 20 b (window (12, 4) b)),
     g_v4_dst = (\<lambda>b. if_len 20 b (window (16, 4) b)), g_v4_HeaderLength = (\<lambda>b. if_len 1 b (v4_hl b)),
     g_v4_TotalLength = (\<lambda>b. if_len 4 b (get16 b 2)),
     g_v4_PayloadLength = (\<lambda>b. if_len 20 b (of_nat (v4_total b - v4_hl b))),
     g_v4_Payload = (\<lambda>b. if v4_wf b then Some (v4_hl b, v4_total b - v4_hl b) else None),
     g_v4_Encode = (\<lambda>b f. if_len 20 b (v4_header f @ drop 20 b)),
     g_v4_SetChecksum = (\<lambda>b v. if_len 12 b (set16 b 10 v)),
     g_v4_CalculateChecksum = (\<lambda>b. if_len (v4_hl b) b (oc_sum (take (v4_hl b) b) 0)),
     g_v6_proto = (\<lambda>b. if_len 7 b (ucast (b ! 6))), g_v6_src = (\<lambda>b. if_len 24 b (window (8, 16) b)),
     g_v6_dst = (\<lambda>b. if_len 40 b (window (24, 16) b)), g_v6_PayloadLength = (\<lambda>b. if_len 6 b (get16 b 4)),
     g_v6_Payload = (\<lambda>b. if v6_wf b then Some (40, unat (get16 b 4)) else None),
     g_SourcePort = (\<lambda>pr b. if_len 2 b (get16 b 0)), g_DestinationPort = (\<lambda>pr b. if_len 4 b (get16 b 2)),
     g_Checksum = (\<lambda>pr b. if_len (min_hdr pr) b (get16 b (sum_off pr))),
     g_SetSourcePort = (\<lambda>pr b v. if_len 2 b (set16 b 0 v)),
     g_SetChecksum = (\<lambda>pr b v. if_len (min_hdr pr) b (set16 b (sum_off pr) v)),
     g_SetDestinationPort = (\<lambda>pr b v. if_len 4 b (set16 b 2 v)),
     g_SetSourcePortUpd = (\<lambda>b v. if_len 20 b (port_upd 0 b v)),
     g_SetDestinationPortUpd = (\<lambda>b v. if_len 20 b (port_upd 2 b v)),
     g_DataOffset = (\<lambda>b. if_len 13 b (4 * unat (drop_bit 4 (b ! 12)))),
     g_sum = oc_sum, g_Combine = oc_add, g_Pseudo = pseudo_sum\<rparr>"

lemma rfc_laws: "gvisor_laws rfc"
  by (auto simp: gvisor_laws_def v4_laws_def v6_laws_def port_laws_def transport_laws_def sum_laws_def
      rfc_def if_len_def v4_wf_def min_hdr_def)

lemma rfc_update_laws: "update_laws rfc" and rfc_short_laws: "short_laws rfc"
  by (auto simp: update_laws_def short_laws_def rfc_def if_len_def min_hdr_def)

end
