(* ===== verification/Session.thy ===== *)
theory Session
  imports Gvisor Link_Types
begin

text \<open>
  Reading the five-tuple of an IP packet: \<open>fromIP\<close>, \<open>FromIP\<close> and \<open>StripIP\<close> of
  \<open>session.go\<close> for the client, \<open>StripIP\<close> of \<open>links/links.go\<close> for the server.
  The header accessors are the parameter \<open>G\<close>.
\<close>

section \<open>session.go\<close>

record Session =
  s_src :: addrport
  s_proto :: proto
  s_dst :: addrport

definition zero_Session :: Session where
  "zero_Session = \<lparr>s_src = AddrPort AddrZero 0, s_proto = 0, s_dst = AddrPort AddrZero 0\<rparr>"

text \<open>The values that the switch on the version leaves in \<open>src\<close>, \<open>dst\<close>,
  \<open>proto\<close>, \<open>hdr\<close> and \<open>ipHdrLen\<close>, or the error it returns.\<close>

definition fromIP_head ::
  "gvisor \<Rightarrow> bytes \<Rightarrow> (go_error + addr \<times> addr \<times> proto \<times> bytes \<times> nat) option" where
  "fromIP_head G ip =
     (let ver = g_IPVersion G ip in
      if ver = 4 then do {
        n \<leftarrow> g_v4_TotalLength G ip;
        if unat n > length ip then Some (Inl (ErrShortBuff (unat n) (length ip)))
        else do {
          sa \<leftarrow> g_v4_src G ip; src \<leftarrow> addr_from_slice sa;
          da \<leftarrow> g_v4_dst G ip; dst \<leftarrow> addr_from_slice da;
          proto \<leftarrow> g_v4_proto G ip;
          w \<leftarrow> g_v4_Payload G ip;
          hl \<leftarrow> g_v4_HeaderLength G ip;
          Some (Inr (src, dst, proto, window w ip, hl))
        }
      }
      else if ver = 6 then do {
        pl \<leftarrow> g_v6_PayloadLength G ip;
        let n = unat pl + 40;
        if n > length ip then Some (Inl (ErrShortBuff n (length ip)))
        else do {
          sa \<leftarrow> g_v6_src G ip; src \<leftarrow> addr_from_slice sa;
          da \<leftarrow> g_v6_dst G ip; dst \<leftarrow> addr_from_slice da;
          proto \<leftarrow> g_v6_proto G ip;
          w \<leftarrow> g_v6_Payload G ip;
          Some (Inr (src, dst, proto, window w ip, 40))
        }
      }
      else Some (Inl (ErrIPVersion ver)))"

definition fromIP :: "gvisor \<Rightarrow> bytes \<Rightarrow> (Session \<times> nat \<times> go_error option) option" where
  "fromIP G ip = do {
     r \<leftarrow> fromIP_head G ip;
     case r of Inl e \<Rightarrow> Some (zero_Session, 0, Some e)
     | Inr (src, dst, proto, hdr, ipHdrLen) \<Rightarrow>
         if proto = TCP \<or> proto = UDP then do {
           sp \<leftarrow> g_SourcePort G proto hdr;
           dp \<leftarrow> g_DestinationPort G proto hdr;
           Some (\<lparr>s_src = AddrPort src sp, s_proto = proto, s_dst = AddrPort dst dp\<rparr>, ipHdrLen, None)
         }
         else Some (zero_Session, 0, Some (ErrProtocol proto))
   }"

definition FromIP :: "gvisor \<Rightarrow> bytes \<Rightarrow> Session result option" where
  "FromIP G ip = map_option (\<lambda>(s, n, e). case e of None \<Rightarrow> Inr s | Some e \<Rightarrow> Inl e) (fromIP G ip)"

definition sess_StripIP ::
  "gvisor \<Rightarrow> 'p packet_api \<Rightarrow> 'p \<Rightarrow> ('p \<times> Session \<times> go_error option) option" where
  "sess_StripIP G P ip =
     map_option (\<lambda>(s, n, e). (p_SetHead P ip (p_head P ip + n), s, e)) (fromIP G (p_bytes P ip))"

definition sess_IsValid :: "Session \<Rightarrow> bool" where
  "sess_IsValid s \<longleftrightarrow> ap_valid (s_src s) \<and> s_proto s \<noteq> 0 \<and> ap_valid (s_dst s)"

section \<open>links.StripIP\<close>

definition link_StripIP ::
  "gvisor \<Rightarrow> 'p packet_api \<Rightarrow> 'p \<Rightarrow> ('p \<times> Downlink result) option" where
  "link_StripIP G P ip =
     (let b = p_bytes P ip in
      if g_IPVersion G b \<noteq> 4 then Some (ip, Inl ErrOnlyIPv4)
      else do {
        proto \<leftarrow> g_v4_proto G b;
        if \<not> (proto = TCP \<or> proto = UDP) then Some (ip, Inl (ErrProtocol proto))
        else do {
          w \<leftarrow> g_v4_Payload G b;
          let t = window w b;
          hl \<leftarrow> g_v4_HeaderLength G b;
          let ip = p_SetHead P ip (p_head P ip + hl);
          sa \<leftarrow> g_v4_src G b; src \<leftarrow> addr_from_slice sa;
          sp \<leftarrow> g_SourcePort G UDP t;
          da \<leftarrow> g_v4_dst G b; dst \<leftarrow> addr_from_slice da;
          dp \<leftarrow> g_DestinationPort G UDP t;
          Some (ip, Inr \<lparr>dn_server = AddrPort src sp, dn_proto = proto, dn_local = AddrPort dst dp\<rparr>)
        }
      })"

section \<open>What they read\<close>

definition v4_addr :: "bytes \<Rightarrow> nat \<Rightarrow> addr" where
  "v4_addr b k = Addr4 (b ! k) (b ! (k + 1)) (b ! (k + 2)) (b ! (k + 3))"

definition v4_seg :: "bytes \<Rightarrow> bytes" where
  "v4_seg b = window (v4_hl b, v4_total b - v4_hl b) b"

definition v4_tuple :: "bytes \<Rightarrow> Session" where
  "v4_tuple b = \<lparr>s_src = AddrPort (v4_addr b 12) (get16 (v4_seg b) 0), s_proto = ucast (b ! 9),
     s_dst = AddrPort (v4_addr b 16) (get16 (v4_seg b) 2)\<rparr>"

lemma addr_from_window: "k + 4 \<le> length b \<Longrightarrow> addr_from_slice (window (k, 4) b) = Some (v4_addr b k)"
  by (simp add: addr_from_slice_def window_def v4_addr_def)

lemma v4_wfD:
  assumes "v4_wf b"
  shows "20 \<le> length b" "b \<noteq> []" "unat (get16 b 2) \<le> length b" "unat (drop_bit 4 (b ! 0)) = 4"
    "v4_hl b \<le> length b" "length (v4_seg b) = v4_total b - v4_hl b"
  using assms by (auto simp: v4_wf_def v4_total_def v4_seg_def length_window)

lemma fromIP_v4:
  assumes G: "gvisor_laws G" and b: "v4_wf b" "ucast (b ! 9) = TCP \<or> ucast (b ! 9) = (UDP :: proto)"
    and len: "4 \<le> v4_total b - v4_hl b"
  shows "fromIP G b = Some (v4_tuple b, v4_hl b, None)"
  using v4_lawsD(1-7) [OF G, of b] transport_lawsD(1,2) [OF G b(2), of "v4_seg b"] v4_wfD [OF b(1)] b len
    addr_from_window [of 12 b] addr_from_window [of 16 b]
  by (simp add: fromIP_def fromIP_head_def v4_tuple_def flip: v4_seg_def)

lemma link_StripIP_v4:
  assumes G: "gvisor_laws G" and b: "v4_wf (p_bytes P ip)" "ucast (p_bytes P ip ! 9) = TCP \<or> ucast (p_bytes P ip ! 9) = (UDP :: proto)"
    and len: "4 \<le> v4_total (p_bytes P ip) - v4_hl (p_bytes P ip)"
  shows "link_StripIP G P ip = Some (p_SetHead P ip (p_head P ip + v4_hl (p_bytes P ip)),
    Inr \<lparr>dn_server = s_src (v4_tuple (p_bytes P ip)), dn_proto = s_proto (v4_tuple (p_bytes P ip)),
         dn_local = s_dst (v4_tuple (p_bytes P ip))\<rparr>)"
  using v4_lawsD(1-7) [OF G, of "p_bytes P ip"] transport_lawsD(1,2) [OF G, of UDP "v4_seg (p_bytes P ip)"]
    v4_wfD [OF b(1)] b len addr_from_window [of 12 "p_bytes P ip"] addr_from_window [of 16 "p_bytes P ip"]
  by (simp add: link_StripIP_def v4_tuple_def Let_def flip: v4_seg_def)

end
