(* ===== verification/Checksum.thy ===== *)
theory Checksum
  imports Session
begin

text \<open>
  The checksum convention of \<open>checksum/checkusm.go\<close>: the client computes the transport
  checksum as if the source address and source port were zero, and the server, which knows
  them, completes it with one addition. Also \<open>rechecksum\<close> of \<open>client.go\<close>, which the
  client applies to downlink packets. Debug checks (\<open>debug.Debug()\<close>) are off.
\<close>

section \<open>The code\<close>

definition ip4zero :: bytes where "ip4zero = [0, 0, 0, 0]"

text \<open>A setter applied to the payload window of the packet.\<close>

definition ck_segment :: "gvisor \<Rightarrow> proto \<Rightarrow> bytes \<Rightarrow> bytes \<Rightarrow> bytes option" where
  "ck_segment G proto dst seg = do {
     srcPort \<leftarrow> g_SourcePort G proto seg;
     seg \<leftarrow> g_SetSourcePort G proto seg 0;
     seg \<leftarrow> g_SetChecksum G proto seg 0;
     let sum = g_Pseudo G proto ip4zero dst (of_nat (length seg));
     seg \<leftarrow> g_SetChecksum G proto seg (NOT (g_sum G seg sum));
     g_SetSourcePort G proto seg srcPort
   }"

definition ck_Client :: "gvisor \<Rightarrow> 'p packet_api \<Rightarrow> 'p \<Rightarrow> 'p option" where
  "ck_Client G P ip =
     (let b = p_bytes P ip in
      if g_IPVersion G b \<noteq> 4 then None
      else do {
        proto \<leftarrow> g_v4_proto G b;
        if \<not> (proto = TCP \<or> proto = UDP) then None
        else do {
          w \<leftarrow> g_v4_Payload G b;
          dst \<leftarrow> g_v4_dst G b;
          seg \<leftarrow> ck_segment G proto dst (window w b);
          hl \<leftarrow> g_v4_HeaderLength G b;
          let ip = p_store P ip (set_window w seg b);
          Some (p_SetHead P ip (p_head P ip + hl))
        }
      })"

definition ck_header :: "gvisor \<Rightarrow> Downlink \<Rightarrow> u32 \<Rightarrow> bytes \<Rightarrow> bytes option" where
  "ck_header G down ip4id hdr = do {
     src \<leftarrow> addr_as4 (ap_addr (dn_local down));
     dst \<leftarrow> addr_as4 (ap_addr (dn_server down));
     hdr \<leftarrow> g_v4_Encode G hdr \<lparr>f_tos = 0x0e, f_total = of_nat (length hdr), f_id = ucast ip4id,
       f_ttl = 64, f_proto = ucast (dn_proto down), f_src = src, f_dst = dst\<rparr>;
     sum \<leftarrow> g_v4_CalculateChecksum G hdr;
     g_v4_SetChecksum G hdr (NOT sum)
   }"

text \<open>The counter \<open>ip4id\<close> is state; \<open>Add(1)\<close> returns its new value.\<close>

definition ck_Server ::
  "gvisor \<Rightarrow> 'p packet_api \<Rightarrow> u32 \<Rightarrow> 'p \<Rightarrow> Downlink \<Rightarrow> (u32 \<times> 'p) option" where
  "ck_Server G P ip4id pkt down =
     (let sum = g_sum G (addr_slice (ap_addr (dn_local down))) (ap_port (dn_local down)) in
      if \<not> (dn_proto down = TCP \<or> dn_proto down = UDP) then None
      else do {
        let seg = p_bytes P pkt;
        c \<leftarrow> g_Checksum G (dn_proto down) seg;
        seg \<leftarrow> g_SetChecksum G (dn_proto down) seg (NOT (g_Combine G sum (NOT c)));
        seg \<leftarrow> g_SetSourcePort G (dn_proto down) seg (ap_port (dn_local down));
        let pkt = p_AttachN P (p_store P pkt seg) 20;
        let ip4id = ip4id + 1;
        hdr \<leftarrow> ck_header G down ip4id (p_bytes P pkt);
        Some (ip4id, p_store P pkt hdr)
      })"

definition rechecksum :: "gvisor \<Rightarrow> bytes \<Rightarrow> bytes option" where
  "rechecksum G ip = do {
     ip \<leftarrow> g_v4_SetChecksum G ip 0;
     sum \<leftarrow> g_v4_CalculateChecksum G ip;
     ip \<leftarrow> g_v4_SetChecksum G ip (NOT sum);
     proto \<leftarrow> g_v4_proto G ip;
     src \<leftarrow> g_v4_src G ip;
     dst \<leftarrow> g_v4_dst G ip;
     n \<leftarrow> g_v4_PayloadLength G ip;
     let psum = g_Pseudo G proto src dst n;
     if \<not> (proto = TCP \<or> proto = UDP) then None
     else do {
       w \<leftarrow> g_v4_Payload G ip;
       let seg = window w ip;
       seg \<leftarrow> g_SetChecksum G proto seg 0;
       seg \<leftarrow> g_SetChecksum G proto seg (NOT (g_sum G seg psum));
       Some (set_window w seg ip)
     }
   }"

section \<open>Validity of checksums\<close>

text \<open>The receiver's tests: the sum over pseudo header and segment is minus zero.\<close>

definition seg_sum_ok :: "proto \<Rightarrow> bytes \<Rightarrow> bytes \<Rightarrow> bytes \<Rightarrow> bool" where
  "seg_sum_ok pr src dst seg \<longleftrightarrow> oc_sum seg (pseudo_sum pr src dst (of_nat (length seg))) = 0xffff"

definition hdr_sum_ok :: "bytes \<Rightarrow> bool" where
  "hdr_sum_ok b \<longleftrightarrow> oc_sum (take (v4_hl b) b) 0 = 0xffff"

lemma pseudo_mod: "unat (pseudo_sum pr s d n) mod 65535
    = (wsum s + wsum d + unat (ucast pr :: u16) + unat n) mod 65535"
proof -
  let ?m = "65535 :: nat" and ?n = "unat (oc_sum d (oc_sum s 0))" and ?p = "unat (ucast pr :: u16)"
  have s: "unat (oc_sum s 0) mod ?m = wsum s mod ?m" using oc_sum_mod [of s 0] by simp
  have "?n mod ?m = (unat (oc_sum s 0) + wsum d) mod ?m" by (rule oc_sum_mod)
  also have "\<dots> = (wsum s + wsum d) mod ?m" by (rule mod_add_cong [OF s refl])
  finally have n: "?n mod ?m = (wsum s + wsum d) mod ?m" .
  have "unat (oc_add (oc_sum d (oc_sum s 0)) (ucast pr)) mod ?m = (?n + ?p) mod ?m" by (rule oc_add_mod)
  also have "\<dots> = (wsum s + wsum d + ?p) mod ?m" by (rule mod_add_cong [OF n refl])
  finally have p: "unat (oc_add (oc_sum d (oc_sum s 0)) (ucast pr)) mod ?m = (wsum s + wsum d + ?p) mod ?m" .
  show ?thesis unfolding pseudo_sum_def using oc_add_mod mod_add_cong [OF p refl] by (rule trans)
qed

lemma ucast_proto16: "ucast (6 :: proto) = (6 :: u16)" "ucast (17 :: proto) = (17 :: u16)"
  by simp_all

lemma pseudo_nonzero: "pr = TCP \<or> pr = UDP \<Longrightarrow> pseudo_sum pr s d n \<noteq> 0"
  by (auto simp: pseudo_sum_def oc_add_0_iff)

text \<open>A nonzero sum that is divisible by 65535 is minus zero.\<close>

lemma oc_sum_full:
  assumes "s \<noteq> 0" "(unat s + wsum xs) mod 65535 = 0"
  shows "oc_sum xs s = 0xffff"
  by (rule oc_eqI) (use assms oc_sum_mod [of xs s] in \<open>auto simp: oc_sum_0_iff\<close>)

text \<open>A total with the complement of its own sum added is divisible.\<close>

lemma complement_mod:
  assumes "unat u mod 65535 = x mod 65535"
  shows "(x + unat (NOT u :: u16)) mod 65535 = 0"
proof -
  have "(x + unat (NOT u)) mod 65535 = (unat u + unat (NOT u)) mod 65535"
    by (rule mod_add_cong [OF assms [symmetric] refl])
  also have "unat u + unat (NOT u) = 65535" using unat16_lt [of u] by (simp add: unat_not16)
  finally show ?thesis by simp
qed

lemma wsum_set16_zero:
  "k + 1 < length b \<Longrightarrow> even k \<Longrightarrow> get16 b k = 0 \<Longrightarrow> wsum (set16 b k v) = wsum b + unat v"
  using wsum_set16 [of k b v] by simp

text \<open>Writing the complement of the sum into a zeroed even field makes the sum minus
  zero.\<close>

lemma seal_sum:
  assumes k: "k + 1 < length b" "even k" and s: "s \<noteq> 0"
  shows "oc_sum (set16 b k (NOT (oc_sum (set16 b k 0) s))) s = 0xffff"
proof (rule oc_sum_full [OF s])
  let ?z = "set16 b k 0" and ?c = "oc_sum (set16 b k 0) s"
  have "wsum (set16 ?z k (NOT ?c)) = wsum ?z + unat (NOT ?c)"
    using k by (intro wsum_set16_zero) (simp_all add: get16_set16)
  moreover have "((unat s + wsum ?z) + unat (NOT ?c)) mod 65535 = 0"
    by (rule complement_mod) (rule oc_sum_mod)
  ultimately show "(unat s + wsum (set16 b k (NOT ?c))) mod 65535 = 0" by (simp add: add.assoc)
qed

section \<open>The client's convention and its completion\<close>

definition client_seg :: "proto \<Rightarrow> bytes \<Rightarrow> bytes \<Rightarrow> bytes" where
  "client_seg pr dst seg = set16 seg (sum_off pr)
     (NOT (oc_sum (set16 (set16 seg 0 0) (sum_off pr) 0) (pseudo_sum pr ip4zero dst (of_nat (length seg)))))"

definition server_seg :: "proto \<Rightarrow> bytes \<Rightarrow> u16 \<Rightarrow> bytes \<Rightarrow> bytes" where
  "server_seg pr src port seg =
     set16 (set16 seg (sum_off pr) (NOT (oc_add (oc_sum src port) (NOT (get16 seg (sum_off pr)))))) 0 port"

lemma sum_off_cases: "1 < sum_off pr" "even (sum_off pr)" "min_hdr pr \<le> n \<Longrightarrow> sum_off pr + 1 < n"
    "min_hdr pr \<le> n \<Longrightarrow> 8 \<le> n"
  by (auto simp: sum_off_def min_hdr_def split: if_splits)

lemma ck_segment_eq:
  assumes G: "gvisor_laws G" and pr: "pr = TCP \<or> pr = UDP" and len: "min_hdr pr \<le> length seg"
  shows "ck_segment G pr dst seg = Some (client_seg pr dst seg)"
proof -
  note L = transport_lawsD [OF G pr] and S = sum_lawsD [OF G]
  note so = sum_off_cases(1) [of pr] sum_off_cases(3,4) [OF len]
  have "set16 (set16 (set16 seg 0 0) (sum_off pr) v) 0 (get16 seg 0) = set16 seg (sum_off pr) v" for v
    using so set16_swap [of 0 "sum_off pr" "set16 seg 0 0" v "get16 seg 0"] by (simp add: set16_get16)
  then show ?thesis using so len by (simp add: ck_segment_def L S client_seg_def Let_def)
qed

lemma server_seg_ok:
  assumes pr: "pr = TCP \<or> pr = UDP" and len: "min_hdr pr \<le> length seg"
  shows "seg_sum_ok pr src dst (server_seg pr src port (client_seg pr dst seg))"
proof -
  note so = sum_off_cases(1,2) [of pr] sum_off_cases(3,4) [OF len]
  define n :: u16 where "n = of_nat (length seg)"
  define z where "z = set16 (set16 seg 0 0) (sum_off pr) 0"
  define c where "c = oc_sum z (pseudo_sum pr ip4zero dst n)"
  define u where "u = oc_add (oc_sum src port) c"
  let ?o = "sum_off pr" and ?p = "unat (ucast pr :: u16)"
  have lz: "length z = length seg" by (simp add: z_def)
  have eq: "server_seg pr src port (client_seg pr dst seg) = set16 (set16 z ?o (NOT u)) 0 port"
    using so by (simp add: server_seg_def client_seg_def z_def [symmetric] n_def [symmetric]
        c_def [symmetric] u_def [symmetric] get16_set16)
      (simp add: z_def set16_swap)
  have "get16 z ?o = 0" "get16 z 0 = 0"
    using so by (simp_all add: z_def get16_set16 get16_set16_other)
  then have w: "wsum (set16 (set16 z ?o (NOT u)) 0 port) = wsum z + unat (NOT u) + unat port"
    using so lz by (simp add: wsum_set16_zero get16_set16_other)
  have c: "unat c mod 65535 = (wsum dst + ?p + unat n + wsum z) mod 65535"
    unfolding c_def using oc_sum_mod mod_add_cong [OF pseudo_mod [of pr ip4zero dst n] refl [of "wsum z mod 65535"]]
    by (simp add: ip4zero_def)
  have "unat u mod 65535 = (unat (oc_sum src port) + unat c) mod 65535" unfolding u_def by (rule oc_add_mod)
  also have "\<dots> = ((unat port + wsum src) + (wsum dst + ?p + unat n + wsum z)) mod 65535"
    by (rule mod_add_cong [OF oc_sum_mod c])
  finally have "((unat port + wsum src + (wsum dst + ?p + unat n + wsum z)) + unat (NOT u)) mod 65535 = 0"
    by (rule complement_mod)
  moreover have "(unat (pseudo_sum pr src dst n) + (wsum z + unat (NOT u) + unat port)) mod 65535
      = ((wsum src + wsum dst + ?p + unat n) + (wsum z + unat (NOT u) + unat port)) mod 65535"
    by (rule mod_add_cong [OF pseudo_mod refl])
  ultimately have "(unat (pseudo_sum pr src dst n) + wsum (set16 (set16 z ?o (NOT u)) 0 port)) mod 65535 = 0"
    unfolding w by (simp add: ac_simps)
  then show ?thesis unfolding seg_sum_ok_def eq
    using oc_sum_full [OF pseudo_nonzero [OF pr]] lz by (simp add: n_def)
qed

section \<open>Whole packets\<close>

lemma ck_Client_ok:
  assumes G: "gvisor_laws G" and P: "packet_laws P"
    and b: "v4_wf (p_bytes P ip)" "v4_total (p_bytes P ip) = length (p_bytes P ip)"
    and pr: "pr = TCP \<or> pr = UDP" "ucast (p_bytes P ip ! 9) = pr"
    and len: "min_hdr pr \<le> length (v4_seg (p_bytes P ip))"
  shows "\<exists>pkt. ck_Client G P ip = Some pkt
    \<and> p_bytes P pkt = client_seg pr (window (16, 4) (p_bytes P ip)) (v4_seg (p_bytes P ip))"
proof -
  let ?b = "p_bytes P ip" and ?dst = "window (16, 4) (p_bytes P ip)"
  let ?w = "(v4_hl ?b, v4_total ?b - v4_hl ?b)" and ?seg = "client_seg pr ?dst (v4_seg ?b)"
  note W = v4_wfD [OF b(1)] and V = v4_lawsD(1-7) [OF G, of ?b] b(1)
  have l: "length ?seg = length ?b - v4_hl ?b" using W(6) b(2) by (simp add: client_seg_def)
  have sw: "length (set_window ?w ?seg ?b) = length ?b" "drop (v4_hl ?b) (set_window ?w ?seg ?b) = ?seg"
    using W(5) l by (simp_all add: set_window_def)
  have st: "p_bytes P (p_store P ip (set_window ?w ?seg ?b)) = set_window ?w ?seg ?b"
    "p_head P (p_store P ip (set_window ?w ?seg ?b)) = p_head P ip"
    using packet_lawsD(1,2) [OF P sw(1)] .
  have "p_bytes P (p_SetHead P (p_store P ip (set_window ?w ?seg ?b)) (p_head P ip + v4_hl ?b)) = ?seg"
    using packet_lawsD(3) [OF P, of "v4_hl ?b" "p_store P ip (set_window ?w ?seg ?b)"] st sw W(5) by simp
  moreover have "ck_segment G pr ?dst (window ?w ?b) = Some ?seg"
    using ck_segment_eq [OF G pr(1) len, of ?dst] by (simp add: v4_seg_def)
  ultimately show ?thesis using V W pr st by (simp add: ck_Client_def Let_def)
qed

text \<open>The header that \<open>Server\<close> and the client's downlink write.\<close>

lemma v4_header_fields:
  assumes "length (f_src f) = 4" "length (f_dst f) = 4"
  shows "length (v4_header f) = 20" "v4_hl (v4_header f @ r) = 20" "(v4_header f @ r) ! 9 = f_proto f"
    "get16 (v4_header f @ r) 2 = f_total f" "drop_bit 4 ((v4_header f @ r) ! 0) = 4"
    "window (12, 4) (v4_header f @ r) = f_src f" "window (16, 4) (v4_header f @ r) = f_dst f"
  using assms by (simp_all add: v4_header_def v4_hl_def get16_def window_def)

lemma set16_10:
  assumes "12 \<le> length b"
  shows "v4_hl (set16 b 10 v) = v4_hl b" "set16 b 10 v ! 9 = b ! 9" "get16 (set16 b 10 v) 2 = get16 b 2"
    "set16 b 10 v ! 0 = b ! 0" "window (12, 4) (set16 b 10 v) = window (12, 4) b"
    "window (16, 4) (set16 b 10 v) = window (16, 4) b" "v4_wf (set16 b 10 v) = v4_wf b"
    "v4_total (set16 b 10 v) = v4_total b"
proof -
  show h: "v4_hl (set16 b 10 v) = v4_hl b" and z: "set16 b 10 v ! 0 = b ! 0" and "set16 b 10 v ! 9 = b ! 9"
    and t: "get16 (set16 b 10 v) 2 = get16 b 2"
    by (simp_all add: v4_hl_def set16_def get16_def)
  show t': "v4_total (set16 b 10 v) = v4_total b" by (simp add: v4_total_def t)
  show "v4_wf (set16 b 10 v) = v4_wf b" by (simp add: v4_wf_def h z t')
  show "window (12, 4) (set16 b 10 v) = window (12, 4) b" "window (16, 4) (set16 b 10 v) = window (16, 4) b"
    by (simp_all add: window_def set16_def drop_update_cancel)
qed

lemma header_seal:
  assumes "v4_wf b"
  shows "hdr_sum_ok (set16 b 10 (NOT (oc_sum (take (v4_hl b) (set16 b 10 0)) 0)))"
proof -
  let ?h = "take (v4_hl b) b"
  have l: "20 \<le> v4_hl b" "v4_hl b \<le> length b" using assms by (auto simp: v4_wf_def)
  have t: "take (v4_hl b) (set16 b 10 v) = set16 ?h 10 v" for v
    using l by (simp add: set16_def take_update_swap)
  let ?c = "oc_sum (set16 ?h 10 0) 0"
  have nz: "b ! 0 \<noteq> 0" using assms by (auto simp: v4_wf_def)
  have "b ! 0 \<in> set (set16 ?h 10 (NOT ?c))"
    using l by (auto simp: set16_def in_set_conv_nth intro!: exI [of _ 0])
  then have s0: "oc_sum (set16 ?h 10 (NOT ?c)) 0 \<noteq> 0" using nz by (auto simp: oc_sum_0_iff)
  have "wsum (set16 (set16 ?h 10 0) 10 (NOT ?c)) = wsum (set16 ?h 10 0) + unat (NOT ?c)"
    using l by (intro wsum_set16_zero) (simp_all add: get16_set16)
  moreover have "(wsum (set16 ?h 10 0) + unat (NOT ?c)) mod 65535 = 0"
    by (rule complement_mod) (use oc_sum_mod [of "set16 ?h 10 0" 0] in simp)
  ultimately have "wsum (set16 ?h 10 (NOT ?c)) mod 65535 = 0" by simp
  then have "oc_sum (set16 ?h 10 (NOT ?c)) 0 = 0xffff"
    using s0 oc_sum_mod [of "set16 ?h 10 (NOT ?c)" 0] by (intro oc_eqI) simp_all
  then show ?thesis using l by (simp add: hdr_sum_ok_def set16_10 t)
qed

lemma ck_header_ok:
  assumes G: "gvisor_laws G" and a: "addr_is4 (ap_addr (dn_local down))" "addr_is4 (ap_addr (dn_server down))"
    and b: "b = xs @ seg" "length xs = 20" "length b < 65536" and pr: "dn_proto down = TCP \<or> dn_proto down = UDP"
  shows "\<exists>h. ck_header G down n b = Some (h @ seg) \<and> length h = 20 \<and> v4_wf (h @ seg)
    \<and> v4_hl (h @ seg) = 20 \<and> v4_total (h @ seg) = length (h @ seg) \<and> hdr_sum_ok (h @ seg)
    \<and> ucast ((h @ seg) ! 9) = dn_proto down
    \<and> window (12, 4) (h @ seg) = addr_slice (ap_addr (dn_local down))
    \<and> window (16, 4) (h @ seg) = addr_slice (ap_addr (dn_server down))"
proof -
  define f where "f = \<lparr>f_tos = 0x0e, f_total = of_nat (length b), f_id = ucast n, f_ttl = 64,
    f_proto = ucast (dn_proto down), f_src = addr_slice (ap_addr (dn_local down)),
    f_dst = addr_slice (ap_addr (dn_server down))\<rparr>"
  have sl: "length (addr_slice x) = 4" if "addr_is4 x" for x using that by (cases x) auto
  have fl: "length (f_src f) = 4" "length (f_dst f) = 4" using a sl by (simp_all add: f_def)
  note F = v4_header_fields [OF fl]
  let ?e = "v4_header f @ seg"
  have len: "length ?e = length b" using b F(1) by simp
  have tot: "v4_total ?e = length ?e"
  proof -
    have "unat (of_nat (length b) :: u16) = length b" using b(3) by (simp add: unat_of_nat take_bit_nat_eq_self)
    then show ?thesis unfolding v4_total_def F(4) len by (simp add: f_def)
  qed
  have wf: "v4_wf ?e" using F(2,5) F(1) tot by (simp add: v4_wf_def)
  have z: "set16 ?e 10 0 = ?e" by (simp add: v4_header_def set16_def hi8_def lo8_def)
  define h where "h = set16 (v4_header f) 10 (NOT (oc_sum (take 20 ?e) 0))"
  have hs: "h @ seg = set16 ?e 10 (NOT (oc_sum (take 20 ?e) 0))"
    using F(1) by (simp add: h_def set16_def list_update_append)
  have C: "g_v4_CalculateChecksum G ?e = Some (oc_sum (take 20 ?e) 0)"
    using v4_lawsD(11) [OF G, of ?e] F(1,2) by simp
  have E: "g_v4_Encode G b f = Some ?e" using v4_lawsD(9) [OF G _ fl, of b] b by simp
  have S: "g_v4_SetChecksum G ?e v = Some (set16 ?e 10 v)" for v using v4_lawsD(10) [OF G, of ?e v] F(1) by simp
  have run: "ck_header G down n b = Some (h @ seg)"
    using addr_as4_is4 [OF a(1)] addr_as4_is4 [OF a(2)] E C S hs
    by (simp add: ck_header_def f_def [symmetric])
  have ok: "hdr_sum_ok (h @ seg)" using header_seal [OF wf] unfolding hs F(2) z .
  have k: "12 \<le> length ?e" using F(1) by simp
  have K: "v4_wf (h @ seg)" "v4_hl (h @ seg) = 20" "v4_total (h @ seg) = length ?e"
    "(h @ seg) ! 9 = f_proto f" "window (12, 4) (h @ seg) = f_src f" "window (16, 4) (h @ seg) = f_dst f"
    unfolding hs set16_10 [OF k] F using wf tot by simp_all
  have p: "ucast (f_proto f) = dn_proto down" using pr by (auto simp: f_def)
  have src: "f_src f = addr_slice (ap_addr (dn_local down))" "f_dst f = addr_slice (ap_addr (dn_server down))"
    by (simp_all add: f_def)
  have lh: "length h = 20" using F(1) by (simp add: h_def)
  show ?thesis
    by (intro exI [of _ h] conjI) (simp_all only: run ok K p src lh length_append F(1))
qed

lemma ck_Server_ok:
  assumes G: "gvisor_laws G" and P: "packet_laws P"
    and a: "addr_is4 (ap_addr (dn_local down))" "addr_is4 (ap_addr (dn_server down))"
    and pr: "dn_proto down = TCP \<or> dn_proto down = UDP"
    and len: "min_hdr (dn_proto down) \<le> length (p_bytes P pkt)" "length (p_bytes P pkt) + 20 < 65536"
  shows "\<exists>ip h. ck_Server G P n pkt down = Some (n + 1, ip) \<and> p_bytes P ip = h @
      server_seg (dn_proto down) (addr_slice (ap_addr (dn_local down))) (ap_port (dn_local down)) (p_bytes P pkt)
    \<and> length h = 20 \<and> v4_wf (p_bytes P ip) \<and> v4_hl (p_bytes P ip) = 20
    \<and> v4_total (p_bytes P ip) = length (p_bytes P ip) \<and> hdr_sum_ok (p_bytes P ip)
    \<and> ucast (p_bytes P ip ! 9) = dn_proto down
    \<and> window (12, 4) (p_bytes P ip) = addr_slice (ap_addr (dn_local down))
    \<and> window (16, 4) (p_bytes P ip) = addr_slice (ap_addr (dn_server down))"
proof -
  let ?b = "p_bytes P pkt" and ?pr = "dn_proto down"
  let ?src = "addr_slice (ap_addr (dn_local down))" and ?port = "ap_port (dn_local down)"
  let ?seg = "server_seg ?pr ?src ?port ?b"
  have l: "length ?seg = length ?b" by (simp add: server_seg_def)
  note T = transport_lawsD(3-5) [OF G pr]
  have st: "p_bytes P (p_store P pkt ?seg) = ?seg" using packet_lawsD(1) [OF P l] .
  obtain xs where xs: "length xs = 20" "p_bytes P (p_AttachN P (p_store P pkt ?seg) 20) = xs @ ?seg"
    using packet_lawsD(6) [OF P, of 20 "p_store P pkt ?seg"] st by auto
  have "length (xs @ ?seg) < 65536" using len(2) l xs(1) by simp
  from ck_header_ok [OF G a refl xs(1) this pr, of "n + 1"] obtain h where
    h: "ck_header G down (n + 1) (xs @ ?seg) = Some (h @ ?seg)" "length h = 20" "v4_wf (h @ ?seg)"
      "v4_hl (h @ ?seg) = 20" "v4_total (h @ ?seg) = length (h @ ?seg)" "hdr_sum_ok (h @ ?seg)"
      "ucast ((h @ ?seg) ! 9) = ?pr" "window (12, 4) (h @ ?seg) = ?src"
      "window (16, 4) (h @ ?seg) = addr_slice (ap_addr (dn_server down))" by blast
  let ?ip = "p_store P (p_AttachN P (p_store P pkt ?seg) 20) (h @ ?seg)"
  have ip: "p_bytes P ?ip = h @ ?seg" using packet_lawsD(1) [OF P] xs h(2) by simp
  have "ck_Server G P n pkt down = Some (n + 1, ?ip)"
    using pr T len(1) sum_lawsD [OF G] xs(2) h(1) l
    by (simp add: ck_Server_def Let_def server_seg_def)
  with ip h show ?thesis by (intro exI [of _ ?ip] exI [of _ h]) simp
qed

lemma rechecksum_ok:
  assumes G: "gvisor_laws G" and b: "v4_wf b"
    and pr: "pr = TCP \<or> pr = UDP" "ucast (b ! 9) = pr" and len: "min_hdr pr \<le> length (v4_seg b)"
  shows "\<exists>b'. rechecksum G b = Some b' \<and> length b' = length b \<and> v4_wf b' \<and> hdr_sum_ok b'
    \<and> seg_sum_ok pr (window (12, 4) b') (window (16, 4) b') (v4_seg b')
    \<and> window (12, 4) b' = window (12, 4) b \<and> window (16, 4) b' = window (16, 4) b
    \<and> set16 (v4_seg b') (sum_off pr) 0 = set16 (v4_seg b) (sum_off pr) 0"
proof -
  have l: "20 \<le> length b" "12 \<le> length b" "v4_hl b \<le> length b" using v4_wfD [OF b] by simp_all
  define c where "c = NOT (oc_sum (take (v4_hl b) (set16 b 10 0)) 0)"
  define h where "h = set16 b 10 c"
  have seg: "v4_seg h = v4_seg b"
  proof -
    have "20 \<le> v4_hl b" using b by (simp add: v4_wf_def)
    then have "drop (v4_hl b) h = drop (v4_hl b) b" by (simp add: h_def set16_def drop_update_cancel)
    then show ?thesis using set16_10 [OF l(2), of c] by (simp add: v4_seg_def window_def h_def)
  qed
  note H = set16_10 [OF l(2), of c, folded h_def]
  have wfh: "v4_wf h" and lh: "length h = length b" using H(7) b by (simp_all add: h_def)
  note V = v4_lawsD [OF G, of h]
  let ?w = "(v4_hl b, v4_total b - v4_hl b)"
  have win: "window ?w h = v4_seg b" using seg H by (simp add: v4_seg_def)
  define ps where "ps = pseudo_sum pr (window (12, 4) b) (window (16, 4) b) (of_nat (v4_total b - v4_hl b))"
  define s where "s = set16 (v4_seg b) (sum_off pr) (NOT (oc_sum (set16 (v4_seg b) (sum_off pr) 0) ps))"
  define b' where "b' = set_window ?w s h"
  have ls: "length s = v4_total b - v4_hl b" using v4_wfD(6) [OF b] by (simp add: s_def)
  have run: "rechecksum G b = Some b'"
    using v4_lawsD(10,11) [OF G, of b] v4_lawsD(10,11) [OF G, of "set16 b 10 0"] V(2-5,7,8) l lh wfh H pr len
      set16_10 [OF l(2), of 0] transport_lawsD(5) [OF G pr(1)] sum_lawsD [OF G] win
    by (simp add: rechecksum_def Let_def c_def [symmetric] h_def [symmetric] ps_def [symmetric]
        s_def [symmetric] b'_def)
  have le: "v4_hl b + length s \<le> length h" using ls b lh by (auto simp: v4_wf_def)
  have hb: "take (v4_hl b) b' = take (v4_hl b) h" using l lh by (simp add: b'_def set_window_def)
  have h20: "20 \<le> v4_hl b" using b by (simp add: v4_wf_def)
  have nth: "b' ! k = h ! k" if "k < 20" for k
    using that h20 hb by (metis nth_take order_less_le_trans)
  have fields: "v4_hl b' = v4_hl b" "v4_total b' = v4_total b"
    using nth [of 0] nth [of 2] nth [of 3] H by (simp_all add: v4_hl_def v4_total_def get16_def)
  have lb: "length b' = length b" using le lh by (simp add: b'_def length_set_window)
  have wins: "window (k, 4) b' = window (k, 4) h" if "k + 4 \<le> 20" for k
  proof -
    have "take (k + 4) b' = take (k + 4) h" using hb that h20 by (metis order_trans take_take min.absorb1)
    then show ?thesis by (simp add: window_def take_drop add.commute)
  qed
  have "hdr_sum_ok h" using header_seal [OF b] by (simp add: h_def c_def)
  then have "hdr_sum_ok b'" by (simp add: hdr_sum_ok_def fields hb H)
  moreover have "v4_wf b'" using b fields lb nth [of 0] H(4) by (simp add: v4_wf_def)
  moreover have sb: "v4_seg b' = s"
    using window_set_window [of ?w h s, folded b'_def] le ls by (simp add: v4_seg_def fields)
  moreover have "seg_sum_ok pr (window (12, 4) b') (window (16, 4) b') s"
  proof -
    have "pseudo_sum pr (window (12, 4) b') (window (16, 4) b') (of_nat (length s)) = ps"
      using wins [of 12] wins [of 16] H by (simp add: ls ps_def)
    moreover have "oc_sum s ps = 0xffff" unfolding s_def ps_def
      using sum_off_cases(2) [of pr] sum_off_cases(3) [OF len] pseudo_nonzero [OF pr(1)] by (intro seal_sum)
    ultimately show ?thesis by (simp add: seg_sum_ok_def)
  qed
  ultimately show ?thesis using run lb wins [of 12] wins [of 16] H by (auto simp: s_def)
qed

end
