(* ===== verification/Tcp_Mss.thy ===== *)
theory Tcp_Mss
  imports Checksum
begin

text \<open>
  \<open>UpdateTcpMssOption\<close> of \<open>client.go\<close>: it walks the options of a TCP header, adds a
  delta to the MSS option and patches the checksum, also when the option stands at an odd
  offset. The loop advances by the length byte of an unknown option, so a zero length never
  ends: the model takes fuel, and running out of every fuel is not returning. A sequence of
  option lengths that are not zero needs at most one iteration per header byte.
\<close>

datatype mss_out = MssFuel | MssPanic | MssDone bytes "go_error option"

text \<open>The body for an MSS option at offset \<open>i\<close>; \<open>None\<close> is a panic.\<close>

definition mss_update ::
  "gvisor \<Rightarrow> bytes \<Rightarrow> nat \<Rightarrow> int \<Rightarrow> u16 \<Rightarrow> nat \<Rightarrow> (bytes \<times> go_error option) option" where
  "mss_update G hdr n delta oldSum i = do {
     _ \<leftarrow> go_slice hdr (i + 2) (i + 4);
     let old = get16 hdr (i + 2);
     let new = int (unat old) + delta;
     if new \<le> 0 then Some (hdr, Some (ErrMssInvalid new))
     else if (i + 2) mod 2 = 0 then do {
       let hdr = set16 hdr (i + 2) (of_int new);
       let sum = g_Combine G (g_Combine G oldSum (NOT old)) (of_int new);
       hdr \<leftarrow> g_SetChecksum G TCP hdr (NOT sum);
       Some (hdr, None)
     }
     else if i + 5 \<le> n then do {
       blk \<leftarrow> go_slice hdr (i + 1) (i + 5);
       let sum = g_Combine G oldSum (NOT (g_sum G blk 0));
       let hdr = set16 hdr (i + 2) (of_int new);
       blk \<leftarrow> go_slice hdr (i + 1) (i + 5);
       let sum = g_Combine G sum (g_sum G blk 0);
       hdr \<leftarrow> g_SetChecksum G TCP hdr (NOT sum);
       Some (hdr, None)
     }
     else Some (hdr, None)
   }"

definition mss_invalid :: "bytes \<Rightarrow> nat \<Rightarrow> mss_out" where
  "mss_invalid hdr n = (case go_slice hdr 0 n of None \<Rightarrow> MssPanic
     | Some b \<Rightarrow> MssDone hdr (Some (ErrTcpInvalid b)))"

fun mss_loop :: "gvisor \<Rightarrow> nat \<Rightarrow> bytes \<Rightarrow> nat \<Rightarrow> int \<Rightarrow> u16 \<Rightarrow> nat \<Rightarrow> mss_out" where
  "mss_loop G 0 hdr n delta oldSum i = MssFuel"
| "mss_loop G (Suc fuel) hdr n delta oldSum i =
     (if \<not> i < n then MssDone hdr None
      else case go_index hdr i of None \<Rightarrow> MssPanic
      | Some kind \<Rightarrow>
          if kind = 2 then
            (if i + 4 \<le> n then
               (case go_index hdr (i + 1) of None \<Rightarrow> MssPanic
                | Some len \<Rightarrow>
                    if len = 4 then
                      (case mss_update G hdr n delta oldSum i of None \<Rightarrow> MssPanic
                       | Some (hdr, e) \<Rightarrow> MssDone hdr e)
                    else mss_invalid hdr n)
             else mss_invalid hdr n)
          else if kind = 1 then mss_loop G fuel hdr n delta oldSum (i + 1)
          else if kind = 0 then MssDone hdr None
          else if i + 1 < n then
            (case go_index hdr (i + 1) of None \<Rightarrow> MssPanic
             | Some len \<Rightarrow> mss_loop G fuel hdr n delta oldSum (i + unat len))
          else mss_invalid hdr n)"

definition UpdateTcpMssOption :: "gvisor \<Rightarrow> nat \<Rightarrow> bytes \<Rightarrow> int \<Rightarrow> mss_out" where
  "UpdateTcpMssOption G fuel hdr delta =
     (case g_DataOffset G hdr of None \<Rightarrow> MssPanic
      | Some n \<Rightarrow>
          if n > 20 \<and> delta \<noteq> 0 then
            (case g_Checksum G TCP hdr of None \<Rightarrow> MssPanic
             | Some c \<Rightarrow> mss_loop G fuel hdr n delta (NOT c) 20)
          else MssDone hdr None)"

section \<open>The walk over the options\<close>

text \<open>\<open>opt_walk hdr n i j m\<close>: from option \<open>i\<close> the loop passes \<open>m\<close> options that
  are neither MSS nor end of list and arrives at \<open>j\<close>.\<close>

inductive opt_walk :: "bytes \<Rightarrow> nat \<Rightarrow> nat \<Rightarrow> nat \<Rightarrow> nat \<Rightarrow> bool" for hdr n where
  here: "opt_walk hdr n i i 0"
| nop: "i < n \<Longrightarrow> hdr ! i = 1 \<Longrightarrow> opt_walk hdr n (i + 1) j m \<Longrightarrow> opt_walk hdr n i j (Suc m)"
| skip: "i + 1 < n \<Longrightarrow> hdr ! i \<notin> {0, 1, 2} \<Longrightarrow> opt_walk hdr n (i + unat (hdr ! (i + 1))) j m \<Longrightarrow>
    opt_walk hdr n i j (Suc m)"

text \<open>An unknown option of length zero, and a walk from the first option, at byte 20, that never
  comes to one.\<close>

definition opt_stuck :: "bytes \<Rightarrow> nat \<Rightarrow> nat \<Rightarrow> bool" where
  "opt_stuck hdr n i \<longleftrightarrow> i + 1 < n \<and> hdr ! i \<notin> {0, 1, 2} \<and> hdr ! (i + 1) = 0"

definition opts_progress :: "bytes \<Rightarrow> nat \<Rightarrow> bool" where
  "opts_progress hdr n \<longleftrightarrow> (\<forall>i m. opt_walk hdr n 20 i m \<longrightarrow> \<not> opt_stuck hdr n i)"

lemma opt_walk_trans: "opt_walk hdr n i j m \<Longrightarrow> opt_walk hdr n j k l \<Longrightarrow> opt_walk hdr n i k (m + l)"
  by (induction rule: opt_walk.induct) (auto intro: opt_walk.intros)

lemma opt_walk_le: "opt_walk hdr n i j m \<Longrightarrow> i \<le> j"
  by (induction rule: opt_walk.induct) auto

lemma mss_loop_walk:
  assumes "opt_walk hdr n i j m" "n \<le> length hdr"
  shows "mss_loop G (m + fuel) hdr n delta s i = mss_loop G fuel hdr n delta s j"
  using assms
proof (induction rule: opt_walk.induct)
  case (nop i j m)
  then show ?case by (simp add: slice_simps)
next
  case (skip i j m)
  then show ?case by (simp add: slice_simps)
qed simp

text \<open>A walk takes one unit of fuel for each option.\<close>

lemma mss_loop_short:
  assumes "opt_walk hdr n i j m" "n \<le> length hdr" "fuel \<le> m"
  shows "mss_loop G fuel hdr n delta s i = MssFuel"
  using assms
proof (induction arbitrary: fuel rule: opt_walk.induct)
  case (nop i j m)
  then show ?case by (cases fuel) (simp_all add: slice_simps)
next
  case (skip i j m)
  then show ?case by (cases fuel) (simp_all add: slice_simps)
qed simp

lemma mss_loop_returns:
  assumes "\<And>j m. opt_walk hdr n i j m \<Longrightarrow> \<not> opt_stuck hdr n j" "n \<le> length hdr" "n - i < fuel"
  shows "mss_loop G fuel hdr n delta s i \<noteq> MssFuel"
  using assms(1,3)
proof (induction fuel arbitrary: i)
  case (Suc fuel)
  show ?case
  proof (cases "i < n")
    case i: True
    then have k: "go_index hdr i = Some (hdr ! i)" using assms(2) by (simp add: slice_simps)
    have nop: "mss_loop G fuel hdr n delta s (i + 1) \<noteq> MssFuel" if "hdr ! i = 1"
      using Suc.prems i opt_walk.nop [OF i that] by (intro Suc.IH) auto
    have skip: "mss_loop G fuel hdr n delta s (i + unat (hdr ! (i + 1))) \<noteq> MssFuel"
      if k: "i + 1 < n" "hdr ! i \<notin> {0, 1, 2}"
    proof (rule Suc.IH)
      show "\<not> opt_stuck hdr n j" if "opt_walk hdr n (i + unat (hdr ! (i + 1))) j m" for j m
        using Suc.prems(1) opt_walk.skip [OF k that] .
      have "unat (hdr ! (i + 1)) \<noteq> 0" using Suc.prems(1) [OF opt_walk.here] k by (simp add: opt_stuck_def unat_eq_0)
      then show "n - (i + unat (hdr ! (i + 1))) < fuel" using Suc.prems(2) i by simp
    qed
    have inv: "mss_invalid hdr n \<noteq> MssFuel" by (simp add: mss_invalid_def split: option.splits)
    show ?thesis using i k nop skip inv assms(2) by (simp add: slice_simps split: option.splits)
  qed simp
qed simp

text \<open>An unknown option of length zero is passed for ever.\<close>

lemma mss_loop_stuck:
  assumes "opt_walk hdr n i j m" "opt_stuck hdr n j" "n \<le> length hdr"
  shows "mss_loop G fuel hdr n delta s i = MssFuel"
proof -
  have at: "mss_loop G f hdr n delta s j = MssFuel" for f
    by (induction f) (use assms(2,3) in \<open>simp_all add: opt_stuck_def slice_simps\<close>)
  show ?thesis
  proof (cases "fuel \<le> m")
    case True
    then show ?thesis by (rule mss_loop_short [OF assms(1,3)])
  next
    case False
    then show ?thesis using mss_loop_walk [OF assms(1,3), of G "fuel - m" delta s] at by simp
  qed
qed

lemma DataOffset_TCP:
  assumes "gvisor_laws G" "20 \<le> length hdr"
  shows "\<exists>n. g_DataOffset G hdr = Some n \<and> n mod 4 = 0 \<and> n \<le> 60"
proof -
  have "unat (drop_bit 4 (hdr ! 12)) < 16"
    using unat_drop_bit_eq [of 4 "hdr ! 12"] unsigned_less [where ?'a = nat, of "hdr ! 12"] by (simp add: drop_bit_eq_div)
  then show ?thesis using dataoffset_law [OF assms] by simp
qed

text \<open>Exactly when it returns, and within one iteration for each byte of the options.\<close>

lemma UpdateTcpMssOption_fuel:
  assumes G: "gvisor_laws G" and n: "g_DataOffset G hdr = Some n" "n \<le> length hdr"
  shows "opts_progress hdr n \<or> delta = 0 \<Longrightarrow> n - 20 < fuel \<Longrightarrow> UpdateTcpMssOption G fuel hdr delta \<noteq> MssFuel"
    and "\<not> opts_progress hdr n \<Longrightarrow> delta \<noteq> 0 \<Longrightarrow> UpdateTcpMssOption G fuel hdr delta = MssFuel"
proof -
  assume p: "opts_progress hdr n \<or> delta = 0" and f: "n - 20 < fuel"
  have "mss_loop G fuel hdr n delta s 20 \<noteq> MssFuel" if "opts_progress hdr n" for s
    by (rule mss_loop_returns [OF _ n(2) f]) (use that in \<open>auto simp: opts_progress_def\<close>)
  with p show "UpdateTcpMssOption G fuel hdr delta \<noteq> MssFuel"
    using n by (auto simp: UpdateTcpMssOption_def simp del: mss_loop.simps split: option.split)
next
  assume "\<not> opts_progress hdr n" and d: "delta \<noteq> 0"
  then obtain i m where w: "opt_walk hdr n 20 i m" "opt_stuck hdr n i" by (auto simp: opts_progress_def)
  have "20 \<le> i" by (rule opt_walk_le [OF w(1)])
  with w(2) have "20 < n" by (simp add: opt_stuck_def)
  moreover have "g_Checksum G TCP hdr = Some (get16 hdr 16)"
    using transport_lawsD(3) [OF G, of TCP hdr] n(2) \<open>20 < n\<close> by (simp add: min_hdr_def sum_off_def)
  ultimately show "UpdateTcpMssOption G fuel hdr delta = MssFuel"
    using d n mss_loop_stuck [OF w n(2)] by (simp add: UpdateTcpMssOption_def)
qed

section \<open>The patched checksum\<close>

lemma dvd_of_mod: "unat a mod 65535 = x mod 65535 \<Longrightarrow> (65535 :: int) dvd int (unat a) - int x"
  by (metis mod_eq_dvd_iff of_nat_mod of_nat_numeral)

lemma patch_arith:
  fixes B B' W W1 W2 b b' c u s k1 :: nat and k2 k3 k4 :: int
  assumes "W1 + B = W + B'" "W2 + c = W1 + (65535 - u)" "int b - int B = 65535 * k2"
    "int b' - int B' = 65535 * k3" "int u - int ((65535 - c) + (65535 - b) + b') = 65535 * k4"
    "s + W = 65535 * k1" "c \<le> 65535" "b \<le> 65535" "u \<le> 65535"
  shows "int (s + W2) = 65535 * (int k1 - k3 + k2 - k4 - 1)"
  using assms by (simp add: of_nat_diff algebra_simps)

lemma patch_mod:
  assumes W: "W1 + B = W + B'" "W2 + unat c = W1 + unat (NOT u)"
    and b: "unat b mod 65535 = B mod 65535" "unat b' mod 65535 = B' mod 65535"
    and u: "u = oc_add (oc_add (NOT c) (NOT b)) b'" and z: "(s + W) mod 65535 = 0"
  shows "(s + W2) mod 65535 = 0"
proof -
  have "unat u mod 65535 = (unat (NOT c) + unat (NOT b) + unat b') mod 65535"
    unfolding u using oc_add_mod mod_add_cong [OF oc_add_mod refl] by (rule trans)
  from dvd_of_mod [OF this] obtain k4 where
    k4: "int (unat u) - int (unat (NOT c) + unat (NOT b) + unat b') = 65535 * k4" by (elim dvdE)
  from dvd_of_mod [OF b(1)] obtain k2 where k2: "int (unat b) - int B = 65535 * k2" by (elim dvdE)
  from dvd_of_mod [OF b(2)] obtain k3 where k3: "int (unat b') - int B' = 65535 * k3" by (elim dvdE)
  from z obtain k1 where k1: "s + W = 65535 * k1" by (auto simp: mod_eq_0_iff_dvd elim: dvdE)
  have n: "unat (NOT c) = 65535 - unat c" "unat (NOT b) = 65535 - unat b" "unat (NOT u) = 65535 - unat u"
    "unat c \<le> 65535" "unat b \<le> 65535" "unat u \<le> 65535"
    using unat16_lt [of c] unat16_lt [of b] unat16_lt [of u] by (simp_all add: unat_not16)
  have "int (s + W2) = 65535 * (int k1 - k3 + k2 - k4 - 1)"
    using W(1) W(2) [unfolded n(3)] k2 k3 k4 [unfolded n(1,2)] k1 n(4-6) by (rule patch_arith)
  then have "(65535 :: int) dvd int (s + W2)" by (rule dvdI)
  then have "65535 dvd s + W2" by (metis of_nat_dvd_iff of_nat_numeral)
  then show ?thesis by (rule dvd_imp_mod_0)
qed

lemma wsum_set16_block:
  assumes "odd k" "1 \<le> k" "k + 2 < length b"
  shows "wsum (set16 b k v) + wsum (window (k - 1, 4) b) = wsum b + wsum (window (k - 1, 4) (set16 b k v))"
proof -
  obtain e where k: "k = Suc e" using assms(2) by (cases k) auto
  have ev: "even e" using assms(1) k by simp
  have win: "window (e, 4) x = [x ! e, x ! (e + 1), x ! (e + 2), x ! (e + 3)]" if "length x = length b" for x
    using assms(3) k that by (simp add: window_def take_Suc_conv_app_nth numeral_eq_Suc)
  have "wsum (b[k := hi8 v]) + weight k * unat (b ! k) = wsum b + weight k * unat (hi8 v)"
    using assms by (intro wsum_update) simp
  moreover have "wsum (b[k := hi8 v, k + 1 := lo8 v]) + weight (k + 1) * unat (b[k := hi8 v] ! (k + 1))
      = wsum (b[k := hi8 v]) + weight (k + 1) * unat (lo8 v)"
    using assms by (intro wsum_update) simp
  moreover have "set16 b k v ! e = b ! e" "set16 b k v ! (e + 1) = hi8 v" "set16 b k v ! (e + 2) = lo8 v"
    "set16 b k v ! (e + 3) = b ! (e + 3)"
    using assms k by (simp_all add: set16_def nth_list_update)
  ultimately show ?thesis using win [of b] win [of "set16 b k v"] ev k assms(3)
    by (simp add: weight_def set16_def)
qed

lemma patched_sum_ok:
  assumes W: "wsum W1 + B = wsum hdr + B'" and l: "length W1 = length hdr" "20 \<le> length hdr"
    and c: "get16 W1 16 = get16 hdr 16"
    and b: "unat b mod 65535 = B mod 65535" "unat b' mod 65535 = B' mod 65535"
    and s: "s \<noteq> 0" "oc_sum hdr s = 0xffff"
  shows "oc_sum (set16 W1 16 (NOT (oc_add (oc_add (NOT (get16 hdr 16)) (NOT b)) b'))) s = 0xffff"
proof (rule oc_sum_full [OF s(1)])
  let ?u = "oc_add (oc_add (NOT (get16 hdr 16)) (NOT b)) b'"
  have "wsum (set16 W1 16 (NOT ?u)) + unat (get16 W1 16) = wsum W1 + unat (NOT ?u)"
    using l by (intro wsum_set16) simp_all
  then have W2: "wsum (set16 W1 16 (NOT ?u)) + unat (get16 hdr 16) = wsum W1 + unat (NOT ?u)"
    by (simp only: c)
  have "(unat s + wsum hdr) mod 65535 = 0" using oc_sum_mod [of hdr s] s(2) by simp
  from patch_mod [OF W W2 b refl this]
  show "(unat s + wsum (set16 W1 16 (NOT ?u))) mod 65535 = 0" .
qed

lemma mss_update_ok:
  assumes G: "gvisor_laws G" and n: "n \<le> length hdr" "n mod 4 = 0" and i: "20 \<le> i" "i + 4 \<le> n"
    and new: "new = int (unat (get16 hdr (i + 2))) + delta" "0 < new"
  shows "\<exists>hdr'. mss_update G hdr n delta (NOT (get16 hdr 16)) i = Some (hdr', None)
    \<and> get16 hdr' (i + 2) = of_int new
    \<and> set16 hdr' 16 0 = set16 (set16 hdr (i + 2) (of_int new)) 16 0
    \<and> (\<forall>s. s \<noteq> 0 \<longrightarrow> oc_sum hdr s = 0xffff \<longrightarrow> oc_sum hdr' s = 0xffff)"
proof -
  note S = sum_lawsD [OF G]
  let ?v = "of_int new :: u16" and ?old = "get16 hdr (i + 2)" and ?c = "NOT (get16 hdr 16)"
  define W1 where "W1 = set16 hdr (i + 2) ?v"
  have W1: "length W1 = length hdr" "get16 W1 16 = get16 hdr 16" "get16 W1 (i + 2) = ?v"
    using n i by (simp_all add: W1_def get16_set16_other get16_set16)
  have set: "g_SetChecksum G TCP W1 x = Some (set16 W1 16 x)" for x
    using transport_lawsD(5) [OF G, of TCP W1] W1(1) n i by (simp add: min_hdr_def sum_off_def)
  have len: "20 \<le> length hdr" using n i by simp
  have rew: "int (unat ?old) + delta = new" "\<not> new \<le> 0" "set16 hdr (i + 2) ?v = W1"
    using new by (simp_all add: W1_def)
  have fin: ?thesis if run: "mss_update G hdr n delta ?c i = Some (set16 W1 16 x, None)"
    and ok: "\<And>s. s \<noteq> 0 \<Longrightarrow> oc_sum hdr s = 0xffff \<Longrightarrow> oc_sum (set16 W1 16 x) s = 0xffff" for x
    using run ok W1 i n by (intro exI [of _ "set16 W1 16 x"]) (simp add: get16_set16_other, simp add: W1_def)
  show ?thesis
  proof (cases "even i")
    case True
    have "wsum W1 + unat ?old = wsum hdr + unat ?v"
      unfolding W1_def using n i True by (intro wsum_set16) simp_all
    note ok = patched_sum_ok [OF this W1(1) len W1(2) refl refl]
    have "mss_update G hdr n delta ?c i = Some (set16 W1 16 (NOT (oc_add (oc_add ?c (NOT ?old)) ?v)), None)"
      using n i True S rew set
      by (simp add: mss_update_def slice_simps Let_def del: add_2_eq_Suc' of_nat_unat)
    from fin [OF this ok] show ?thesis .
  next
    case False
    have "i + 4 \<noteq> n" using n(2) False by presburger
    then have i5: "i + 5 \<le> n" using i(2) by simp
    let ?b = "window (i + 1, 4) hdr" and ?b' = "window (i + 1, 4) W1"
    have blk: "wsum W1 + wsum ?b = wsum hdr + wsum ?b'"
      using wsum_set16_block [of "i + 2" hdr ?v] False i5 n by (simp add: W1_def)
    have m: "unat (oc_sum x 0) mod 65535 = wsum x mod 65535" for x using oc_sum_mod [of x 0] by simp
    note ok = patched_sum_ok [OF blk W1(1) len W1(2) m m]
    have sl: "go_slice hdr (i + 1) (i + 5) = Some ?b" "go_slice W1 (i + 1) (i + 5) = Some ?b'"
      using i5 n W1(1) by (simp_all add: slice_simps window_def)
    have odd: "i mod 2 = 1" using False by presburger
    have "mss_update G hdr n delta ?c i =
      Some (set16 W1 16 (NOT (oc_add (oc_add ?c (NOT (oc_sum ?b 0))) (oc_sum ?b' 0))), None)"
      using n i5 odd S sl rew set
      by (simp add: mss_update_def go_slice_Some [of "i + 2" "i + 4"] Let_def del: add_2_eq_Suc' of_nat_unat)
    from fin [OF this ok] show ?thesis .
  qed
qed
section \<open>What the update does to any header\<close>

text \<open>The walk finds an MSS option at \<open>i\<close>; and the header with the option updated and the
  checksum that goes with it.\<close>

definition mss_at :: "bytes \<Rightarrow> nat \<Rightarrow> nat \<Rightarrow> bool" where
  "mss_at hdr n i \<longleftrightarrow> (\<exists>m. opt_walk hdr n 20 i m) \<and> i + 4 \<le> n \<and> hdr ! i = 2 \<and> hdr ! (i + 1) = 4"

definition mss_changed :: "bytes \<Rightarrow> int \<Rightarrow> nat \<Rightarrow> bytes \<Rightarrow> bool" where
  "mss_changed hdr delta i hdr' \<longleftrightarrow>
     get16 hdr' (i + 2) = of_int (int (unat (get16 hdr (i + 2))) + delta)
   \<and> set16 hdr' 16 0 = set16 (set16 hdr (i + 2) (get16 hdr' (i + 2))) 16 0
   \<and> (\<forall>s. s \<noteq> 0 \<longrightarrow> oc_sum hdr s = 0xffff \<longrightarrow> oc_sum hdr' s = 0xffff)"

definition mss_spec :: "bytes \<Rightarrow> nat \<Rightarrow> int \<Rightarrow> bytes \<Rightarrow> bool" where
  "mss_spec hdr n delta hdr' \<longleftrightarrow>
     (\<forall>i. mss_at hdr n i \<longrightarrow> delta \<noteq> 0 \<longrightarrow> 0 < int (unat (get16 hdr (i + 2))) + delta \<longrightarrow> mss_changed hdr delta i hdr')
   \<and> (delta = 0 \<or> (\<forall>i. mss_at hdr n i \<longrightarrow> int (unat (get16 hdr (i + 2))) + delta \<le> 0) \<longrightarrow> hdr' = hdr)"

lemma mss_loop_cases:
  assumes "n \<le> length hdr"
  shows "mss_loop G fuel hdr n delta s i = MssFuel \<or> (\<exists>e. mss_loop G fuel hdr n delta s i = MssDone hdr e)
    \<or> (\<exists>j m. opt_walk hdr n i j m \<and> j + 4 \<le> n \<and> hdr ! j = 2 \<and> hdr ! (j + 1) = 4)"
proof (induction fuel arbitrary: i)
  case (Suc fuel)
  have inv: "\<exists>e. mss_invalid hdr n = MssDone hdr e" using assms by (simp add: mss_invalid_def slice_simps)
  show ?case
  proof (cases "i < n")
    case i: True
    then have k: "go_index hdr i = Some (hdr ! i)" using assms by (simp add: slice_simps)
    consider "hdr ! i = 0" | "hdr ! i = 1" | "hdr ! i = 2" | "hdr ! i \<notin> {0, 1, 2}" by auto
    then show ?thesis
    proof cases
      case 2
      have "mss_loop G (Suc fuel) hdr n delta s i = mss_loop G fuel hdr n delta s (i + 1)" using i k 2 by simp
      with Suc [of "i + 1"] opt_walk.nop [OF i 2] show ?thesis by metis
    next
      case 3
      show ?thesis
      proof (cases "i + 4 \<le> n \<and> hdr ! (i + 1) = 4")
        case True
        with 3 opt_walk.here show ?thesis by blast
      next
        case False
        then have "mss_loop G (Suc fuel) hdr n delta s i = mss_invalid hdr n"
          using i k 3 assms by (auto simp: slice_simps)
        with inv show ?thesis by metis
      qed
    next
      case 4
      show ?thesis
      proof (cases "i + 1 < n")
        case True
        have "mss_loop G (Suc fuel) hdr n delta s i = mss_loop G fuel hdr n delta s (i + unat (hdr ! (i + 1)))"
          using i k 4 True assms by (simp add: slice_simps)
        with Suc [of "i + unat (hdr ! (i + 1))"] opt_walk.skip [OF True 4] show ?thesis by metis
      next
        case False
        then have "mss_loop G (Suc fuel) hdr n delta s i = mss_invalid hdr n" using i k 4 by simp
        with inv show ?thesis by metis
      qed
    qed (use i k in simp)
  qed simp
qed simp

lemma mss_loop_found:
  assumes w: "opt_walk hdr n i j m" and j: "j + 4 \<le> n" "hdr ! j = 2" "hdr ! (j + 1) = 4" and n: "n \<le> length hdr"
    and f: "mss_loop G fuel hdr n delta s i \<noteq> MssFuel"
  shows "mss_loop G fuel hdr n delta s i
    = (case mss_update G hdr n delta s j of None \<Rightarrow> MssPanic | Some (hdr', e) \<Rightarrow> MssDone hdr' e)"
proof -
  have "m < fuel" using f mss_loop_short [OF w n] by (meson not_le)
  then obtain k where k: "fuel = m + Suc k" using less_imp_Suc_add by auto
  have "mss_loop G fuel hdr n delta s i = mss_loop G (Suc k) hdr n delta s j"
    unfolding k by (rule mss_loop_walk [OF w n])
  then show ?thesis using j n by (simp add: slice_simps)
qed

lemma UpdateTcpMssOption_ok:
  assumes G: "gvisor_laws G" and n: "g_DataOffset G hdr = Some n" "n \<le> length hdr" and len: "20 \<le> length hdr"
    and f: "UpdateTcpMssOption G fuel hdr delta \<noteq> MssFuel"
  shows "\<exists>hdr' e. UpdateTcpMssOption G fuel hdr delta = MssDone hdr' e \<and> length hdr' = length hdr \<and> mss_spec hdr n delta hdr'"
proof (cases "20 < n \<and> delta \<noteq> 0")
  case False
  have "\<not> mss_at hdr n i" if "delta \<noteq> 0" for i using that False opt_walk_le by (fastforce simp: mss_at_def)
  then show ?thesis using False n by (auto simp: UpdateTcpMssOption_def mss_spec_def)
next
  case True
  let ?s = "NOT (get16 hdr 16)"
  have "g_Checksum G TCP hdr = Some (get16 hdr 16)"
    using transport_lawsD(3) [OF G, of TCP hdr] len by (simp add: min_hdr_def sum_off_def)
  then have u: "UpdateTcpMssOption G fuel hdr delta = mss_loop G fuel hdr n delta ?s 20"
    using n True by (simp add: UpdateTcpMssOption_def)
  note f = f [unfolded u]
  have n4: "n mod 4 = 0" using DataOffset_TCP [OF G len] n(1) by auto
  show ?thesis
  proof (cases "\<exists>j. mss_at hdr n j")
    case False
    then obtain e where "mss_loop G fuel hdr n delta ?s 20 = MssDone hdr e"
      using mss_loop_cases [OF n(2), of G fuel delta ?s 20] f by (auto simp: mss_at_def)
    with False u show ?thesis by (auto simp: mss_spec_def)
  next
    case at: True
    have upd: "mss_loop G fuel hdr n delta ?s 20
        = (case mss_update G hdr n delta ?s j of None \<Rightarrow> MssPanic | Some (hdr', e) \<Rightarrow> MssDone hdr' e)"
      if "mss_at hdr n j" for j using that mss_loop_found [OF _ _ _ _ n(2) f] by (auto simp: mss_at_def)
    have neg: "mss_update G hdr n delta ?s j = Some (hdr, Some (ErrMssInvalid (int (unat (get16 hdr (j + 2))) + delta)))"
      if "mss_at hdr n j" "int (unat (get16 hdr (j + 2))) + delta \<le> 0" for j
      using that n by (simp add: mss_update_def mss_at_def slice_simps Let_def)
    have pos: "\<exists>hdr'. mss_update G hdr n delta ?s j = Some (hdr', None) \<and> mss_changed hdr delta j hdr' \<and> length hdr' = length hdr"
      if j: "mss_at hdr n j" "0 < int (unat (get16 hdr (j + 2))) + delta" for j
    proof -
      have "20 \<le> j" using j(1) opt_walk_le by (auto simp: mss_at_def)
      with mss_update_ok [OF G n(2) n4 _ _ refl j(2)] j(1) obtain hdr' where h: "mss_update G hdr n delta ?s j = Some (hdr', None)"
        "mss_changed hdr delta j hdr'" by (auto simp: mss_changed_def mss_at_def)
      have "length hdr' = length hdr" using h(2) unfolding mss_changed_def by (metis length_set16)
      with h show ?thesis by blast
    qed
    obtain j where j: "mss_at hdr n j" using at ..
    show ?thesis
    proof (cases "0 < int (unat (get16 hdr (j + 2))) + delta")
      case True
      obtain hdr' where h: "mss_update G hdr n delta ?s j = Some (hdr', None)" "mss_changed hdr delta j hdr'" "length hdr' = length hdr"
        using pos [OF j True] by (elim exE conjE)
      have "mss_changed hdr delta i hdr'" if "mss_at hdr n i" "0 < int (unat (get16 hdr (i + 2))) + delta" for i
        using pos [OF that] upd [OF that(1)] upd [OF j] h(1) by auto
      with True j h u upd [OF j] \<open>20 < n \<and> delta \<noteq> 0\<close> show ?thesis by (fastforce simp: mss_spec_def)
    next
      case False
      then have d: "mss_loop G fuel hdr n delta ?s 20 = MssDone hdr (Some (ErrMssInvalid (int (unat (get16 hdr (j + 2))) + delta)))"
        using upd [OF j] neg [OF j] by simp
      have "int (unat (get16 hdr (i + 2))) + delta \<le> 0" if "mss_at hdr n i" for i
        using pos [OF that] upd [OF that] d by (cases "0 < int (unat (get16 hdr (i + 2))) + delta") auto
      with d u show ?thesis by (fastforce simp: mss_spec_def)
    qed
  qed
qed

text \<open>No header ends after byte 60, so 61 iterations are all there are.\<close>

lemma UpdateTcpMssOption_total:
  assumes G: "gvisor_laws G" and n: "g_DataOffset G hdr = Some n" "n \<le> length hdr" and len: "20 \<le> length hdr"
  shows "if opts_progress hdr n \<or> delta = 0
     then \<exists>hdr' e. UpdateTcpMssOption G 61 hdr delta = MssDone hdr' e \<and> length hdr' = length hdr \<and> mss_spec hdr n delta hdr'
     else UpdateTcpMssOption G 61 hdr delta = MssFuel"
proof -
  have "n - 20 < 61" using DataOffset_TCP [OF G len] n(1) by auto
  with UpdateTcpMssOption_fuel [OF G n, of delta 61] UpdateTcpMssOption_ok [OF G n len, of 61 delta] show ?thesis by simp
qed

end
