(* ===== verification/Packet_Props.thy ===== *)
theory Packet_Props
  imports Peer Tcp_Mss Link_Props
begin

text \<open>
  The properties of the packet layer: the peer header, the reading of five-tuples, the
  checksum convention between client and server, and the MSS option. The libraries are the
  parameters \<open>G\<close> and \<open>P\<close> under their documented laws; the witnesses instantiate them
  with \<open>rfc\<close> and \<open>plain_packet\<close> and a TCP segment with one MSS option.
\<close>

section \<open>Data of the witnesses\<close>

definition w_tcp :: bytes where
  "w_tcp = [15, 160, 0, 80, 0, 0, 0, 1, 0, 0, 0, 0, 0x60, 2, 255, 255, 0, 0, 0, 0, 2, 4, 5, 180]"

definition w_ip :: bytes where
  "w_ip = [0x45, 0, 0, 44, 0, 0, 0, 0, 64, 6, 0, 0, 192, 168, 0, 7, 8, 8, 8, 8] @ w_tcp"

lemma w_ip_wf: "v4_wf w_ip" "v4_hl w_ip = 20" "v4_total w_ip = 44" "v4_total w_ip = length w_ip"
    "v4_seg w_ip = w_tcp" "w_ip ! 9 = 6" "window (16, 4) w_ip = [8, 8, 8, 8]" "length w_tcp = 24"
proof -
  show hl: "v4_hl w_ip = 20" by (simp add: v4_hl_def w_ip_def)
  show t: "v4_total w_ip = 44" by (simp add: v4_total_def get16_def w_ip_def be16_def)
  show l: "length w_tcp = 24" by (simp add: w_tcp_def)
  show tl: "v4_total w_ip = length w_ip" using t l by (simp add: w_ip_def)
  show "v4_wf w_ip" using hl t tl by (simp add: v4_wf_def) (simp add: w_ip_def)
  show "v4_seg w_ip = w_tcp" using hl t l by (simp add: v4_seg_def window_def w_ip_def)
  show "w_ip ! 9 = 6" "window (16, 4) w_ip = [8, 8, 8, 8]" by (simp_all add: w_ip_def window_def)
qed

section \<open>The peer header\<close>

text \<open>
  Round trip of the peer header: whatever valid session is encoded in front of a
  payload, decoding into any peer object restores the session and the payload, and the
  decoded peer is the builtin one exactly for TCP to 0.0.0.0. An invalid or nil peer is
  refused before anything is attached, and a datagram shorter than the header is refused
  unread.
\<close>

theorem peer_roundtrip:
  assumes "packet_laws P" "ds_Valid (Some s)"
  shows "\<exists>pkt1 pkt2. ds_Encode P (Some s) pkt = (pkt1, None) \<and> ds_Decode P (Some q) pkt1 = (Some s, pkt2, None)
      \<and> p_bytes P pkt2 = p_bytes P pkt \<and> length (p_bytes P pkt1) = length (p_bytes P pkt) + ds_Overhead
      \<and> (ds_IsBuiltin (Some s) \<longleftrightarrow> Some s = ds_Builtin p)
    \<and> (\<not> ds_Valid p \<longrightarrow> ds_Encode P p pkt = (pkt, Some ErrInvalidPeer))
    \<and> (length (p_bytes P pkt) < ds_Overhead \<longrightarrow> ds_Decode P (Some q) pkt = (Some q, pkt, Some ErrShortPacket))"
proof -
  obtain pkt1 where e: "ds_Encode P (Some s) pkt = (pkt1, None)" "p_bytes P pkt1 = ds_wire s @ p_bytes P pkt"
    using ds_Encode_ok [OF assms] by blast
  have "ds_parse (p_bytes P pkt1) = Some s" unfolding e(2) by (rule ds.parse_wire [OF assms(2)])
  from ds_Decode_ok [OF assms(1) this, of q] obtain pkt2 where
    d: "ds_Decode P (Some q) pkt1 = (Some s, pkt2, None)" "p_bytes P pkt2 = drop 5 (p_bytes P pkt1)" by blast
  have "p_bytes P pkt2 = p_bytes P pkt" using d(2) ds.payload [OF assms(2), of "p_bytes P pkt"] e(2)
    by (simp add: ds_Overhead_def)
  moreover have "ds_IsBuiltin (Some s) \<longleftrightarrow> Some s = ds_Builtin p" by (simp add: ds_IsBuiltin_iff ds_Builtin_def)
  moreover have "\<not> ds_Valid p \<longrightarrow> ds_Encode P p pkt = (pkt, Some ErrInvalidPeer)" by (simp add: ds_Encode_def)
  moreover have "length (p_bytes P pkt) < ds_Overhead \<longrightarrow> ds_Decode P (Some q) pkt = (Some q, pkt, Some ErrShortPacket)"
    by (simp add: ds_Decode_def ds_Overhead_def)
  ultimately show ?thesis using e d(1) ds.wire_length [OF assms(2)] by simp
qed

theorem peer_roundtrip_witness:
  "\<exists>pkt1 pkt2. ds_Encode plain_packet (Some \<lparr>ds_proto = UDP, ds_dst = Addr4 1 2 3 4\<rparr>) (64, [7, 8]) = (pkt1, None)
    \<and> ds_Decode plain_packet NewDefaultPeer pkt1 = (Some \<lparr>ds_proto = UDP, ds_dst = Addr4 1 2 3 4\<rparr>, pkt2, None)"
  using peer_roundtrip [OF plain_packet_laws, of "\<lparr>ds_proto = UDP, ds_dst = Addr4 1 2 3 4\<rparr>" "(64, [7, 8])"
      "\<lparr>ds_proto = 0, ds_dst = AddrZero\<rparr>" None]
  by (auto simp: NewDefaultPeer_def ds_Valid_def)

section \<open>Five-tuples\<close>

text \<open>
  On a well-formed IPv4 packet of TCP or UDP both \<open>StripIP\<close> functions never panic
  and advance the packet by the IP header. The client's reads the session (source, protocol,
  destination), the server's the downlink (server, protocol, local address) of the same
  addresses and ports.
\<close>

theorem strip_ip_tuple:
  assumes "gvisor_laws G" "packet_laws P" "v4_wf (p_bytes P ip)"
    and "ucast (p_bytes P ip ! 9) = TCP \<or> ucast (p_bytes P ip ! 9) = (UDP :: proto)"
    and "4 \<le> v4_total (p_bytes P ip) - v4_hl (p_bytes P ip)"
  shows "\<exists>ip' s. sess_StripIP G P ip = Some (ip', s, None) \<and> s = v4_tuple (p_bytes P ip)
    \<and> link_StripIP G P ip = Some (ip', Inr \<lparr>dn_server = s_src s, dn_proto = s_proto s, dn_local = s_dst s\<rparr>)
    \<and> p_bytes P ip' = drop (v4_hl (p_bytes P ip)) (p_bytes P ip)"
  using fromIP_v4 [OF assms(1,3-5)] link_StripIP_v4 [OF assms(1,3-5)] v4_wfD(5) [OF assms(3)]
    packet_lawsD(3) [OF assms(2), of "v4_hl (p_bytes P ip)" ip]
  by (simp add: sess_StripIP_def)

theorem strip_ip_tuple_witness:
  "\<exists>ip' s. sess_StripIP rfc plain_packet (0, w_ip) = Some (ip', s, None)
    \<and> s = \<lparr>s_src = AddrPort (Addr4 192 168 0 7) 4000, s_proto = TCP, s_dst = AddrPort (Addr4 8 8 8 8) 80\<rparr>"
proof -
  have "v4_tuple w_ip = \<lparr>s_src = AddrPort (Addr4 192 168 0 7) 4000, s_proto = TCP, s_dst = AddrPort (Addr4 8 8 8 8) 80\<rparr>"
    using w_ip_wf(5,6) by (simp add: v4_tuple_def v4_addr_def) (simp add: w_ip_def w_tcp_def get16_def be16_def)
  then show ?thesis
    using strip_ip_tuple [OF rfc_laws plain_packet_laws, of "(0, w_ip)"] w_ip_wf
    by (auto simp: plain_packet_def)
qed

text \<open>
  The refusals of \<open>session.go\<close>: a version other than 4 and 6, a packet shorter than
  its header claims, and a transport other than TCP and UDP are errors that leave the packet
  where it was; an empty packet is a version error, not a panic.
\<close>

theorem from_ip_refuses:
  assumes "gvisor_laws G"
  shows "fromIP G [] = Some (zero_Session, 0, Some (ErrIPVersion (-1)))
    \<and> (b \<noteq> [] \<and> drop_bit 4 (b ! 0) \<noteq> 4 \<and> drop_bit 4 (b ! 0) \<noteq> 6 \<longrightarrow>
        fromIP G b = Some (zero_Session, 0, Some (ErrIPVersion (int (unat (drop_bit 4 (b ! 0)))))))
    \<and> (20 \<le> length b \<and> drop_bit 4 (b ! 0) = 4 \<and> length b < v4_total b \<longrightarrow>
        fromIP G b = Some (zero_Session, 0, Some (ErrShortBuff (v4_total b) (length b))))
    \<and> (v4_wf b \<and> ucast (b ! 9) \<noteq> TCP \<and> ucast (b ! 9) \<noteq> (UDP :: proto) \<longrightarrow>
        fromIP G b = Some (zero_Session, 0, Some (ErrProtocol (ucast (b ! 9)))))"
proof (intro conjI impI)
  have ver: "g_IPVersion G b = (if b = [] then -1 else int (unat (drop_bit 4 (b ! 0))))" for b
    using assms by (simp add: gvisor_laws_def v4_laws_def)
  have u: "unat w = n \<longleftrightarrow> w = of_nat n" if "n < 256" for w :: u8 and n
    using that by (auto simp: word_unat_eq_iff unat_of_nat take_bit_nat_eq_self)
  show "fromIP G [] = Some (zero_Session, 0, Some (ErrIPVersion (-1)))"
    by (simp add: fromIP_def fromIP_head_def ver)
  show "fromIP G b = Some (zero_Session, 0, Some (ErrIPVersion (int (unat (drop_bit 4 (b ! 0))))))"
    if "b \<noteq> [] \<and> drop_bit 4 (b ! 0) \<noteq> 4 \<and> drop_bit 4 (b ! 0) \<noteq> 6"
    using that u [of 4 "drop_bit 4 (b ! 0)"] u [of 6 "drop_bit 4 (b ! 0)"]
    by (simp add: fromIP_def fromIP_head_def ver del: of_nat_unat)
  show "fromIP G b = Some (zero_Session, 0, Some (ErrShortBuff (v4_total b) (length b)))"
    if "20 \<le> length b \<and> drop_bit 4 (b ! 0) = 4 \<and> length b < v4_total b"
  proof -
    from that have "b \<noteq> []" "20 \<le> length b" by auto
    with that v4_lawsD(6) [OF assms, of b] show ?thesis
      by (simp add: fromIP_def fromIP_head_def ver v4_total_def)
  qed
  show "fromIP G b = Some (zero_Session, 0, Some (ErrProtocol (ucast (b ! 9))))"
    if "v4_wf b \<and> ucast (b ! 9) \<noteq> TCP \<and> ucast (b ! 9) \<noteq> (UDP :: proto)"
    using that v4_wfD [of b] v4_lawsD(1-7) [OF assms, of b] addr_from_window [of 12 b] addr_from_window [of 16 b]
    by (simp add: fromIP_def fromIP_head_def)
qed

theorem from_ip_refuses_witness: "fromIP rfc [0x50] = Some (zero_Session, 0, Some (ErrIPVersion 5))"
  using from_ip_refuses [OF rfc_laws, of "[0x50]"] by simp

section \<open>Checksums\<close>

text \<open>
  The checksum convention is sound: whatever well-formed IPv4 packet of TCP or UDP the
  client converts, and whatever local address and port the server sends it from, the packet
  the server builds is well-formed, carries the local address and port, the destination and
  the rest of the segment unchanged, and both its header checksum and its transport checksum
  verify at the receiver, although the client did not know that address and port.
\<close>

theorem client_server_checksum:
  assumes "gvisor_laws G" "packet_laws P"
    and ip: "v4_wf (p_bytes P ip)" "v4_total (p_bytes P ip) = length (p_bytes P ip)"
    and pr: "pr = TCP \<or> pr = UDP" "ucast (p_bytes P ip ! 9) = pr"
    and len: "min_hdr pr \<le> length (v4_seg (p_bytes P ip))" "length (v4_seg (p_bytes P ip)) + 20 < 65536"
    and a: "addr_is4 la" "addr_is4 (ap_addr sv)" "addr_slice (ap_addr sv) = window (16, 4) (p_bytes P ip)"
  shows "\<exists>pkt. ck_Client G P ip = Some pkt \<and> (\<forall>pkt'. p_bytes P pkt' = p_bytes P pkt \<longrightarrow>
    (\<exists>out. ck_Server G P n pkt' \<lparr>dn_server = sv, dn_proto = pr, dn_local = AddrPort la lp\<rparr> = Some (n + 1, out)
      \<and> v4_wf (p_bytes P out) \<and> v4_total (p_bytes P out) = length (p_bytes P out)
      \<and> hdr_sum_ok (p_bytes P out) \<and> seg_sum_ok pr (addr_slice la) (addr_slice (ap_addr sv)) (v4_seg (p_bytes P out))
      \<and> window (12, 4) (p_bytes P out) = addr_slice la \<and> window (16, 4) (p_bytes P out) = addr_slice (ap_addr sv)
      \<and> set16 (v4_seg (p_bytes P out)) (sum_off pr) 0
          = set16 (set16 (v4_seg (p_bytes P ip)) 0 lp) (sum_off pr) 0))"
proof -
  let ?seg = "v4_seg (p_bytes P ip)" and ?dst = "window (16, 4) (p_bytes P ip)"
  let ?down = "\<lparr>dn_server = sv, dn_proto = pr, dn_local = AddrPort la lp\<rparr>"
  let ?c = "client_seg pr ?dst ?seg" and ?s = "server_seg pr (addr_slice la) lp (client_seg pr ?dst ?seg)"
  obtain pkt where C: "ck_Client G P ip = Some pkt" "p_bytes P pkt = ?c"
    using ck_Client_ok [OF assms(1,2) ip pr len(1)] by blast
  have lc: "length ?c = length ?seg" by (simp add: client_seg_def)
  have eq: "set16 ?s (sum_off pr) 0 = set16 (set16 ?seg 0 lp) (sum_off pr) 0"
    using sum_off_cases(1) [of pr] by (simp add: server_seg_def client_seg_def set16_swap)
  have ok: "seg_sum_ok pr (addr_slice la) (addr_slice (ap_addr sv)) ?s"
    unfolding a(3) by (rule server_seg_ok [OF pr(1) len(1)])
  have "\<exists>out. ck_Server G P n pkt' ?down = Some (n + 1, out)
      \<and> v4_wf (p_bytes P out) \<and> v4_total (p_bytes P out) = length (p_bytes P out)
      \<and> hdr_sum_ok (p_bytes P out) \<and> v4_seg (p_bytes P out) = ?s
      \<and> window (12, 4) (p_bytes P out) = addr_slice la \<and> window (16, 4) (p_bytes P out) = addr_slice (ap_addr sv)"
    if "p_bytes P pkt' = p_bytes P pkt" for pkt'
  proof -
    have d: "addr_is4 (ap_addr (dn_local ?down))" "addr_is4 (ap_addr (dn_server ?down))"
      "dn_proto ?down = TCP \<or> dn_proto ?down = UDP" "min_hdr (dn_proto ?down) \<le> length (p_bytes P pkt')"
      "length (p_bytes P pkt') + 20 < 65536" using a pr len lc C(2) that by simp_all
    have pc: "p_bytes P pkt' = ?c" using that C(2) by simp
    note S = ck_Server_ok [OF assms(1,2) d, of n, unfolded pc Downlink.simps addrport.sel]
    from S obtain out h where
      o: "ck_Server G P n pkt' ?down = Some (n + 1, out)" "p_bytes P out = h @ ?s" "length h = 20"
        "v4_wf (p_bytes P out)" "v4_hl (p_bytes P out) = 20" "v4_total (p_bytes P out) = length (p_bytes P out)"
        "hdr_sum_ok (p_bytes P out)" "window (12, 4) (p_bytes P out) = addr_slice la"
        "window (16, 4) (p_bytes P out) = addr_slice (ap_addr sv)"
      by (elim exE conjE) (rule that; assumption)
    have "v4_seg (p_bytes P out) = window (20, length (p_bytes P out) - 20) (p_bytes P out)"
      by (simp add: v4_seg_def o(5,6))
    also have "\<dots> = ?s" unfolding o(2) by (simp add: window_def o(3))
    finally have "v4_seg (p_bytes P out) = ?s" .
    with o show ?thesis by blast
  qed
  with C(1) eq ok show ?thesis by metis
qed

theorem client_server_checksum_witness:
  "\<exists>pkt out. ck_Client rfc plain_packet (0, w_ip) = Some pkt
    \<and> ck_Server rfc plain_packet 0 pkt \<lparr>dn_server = AddrPort (Addr4 8 8 8 8) 80, dn_proto = TCP,
        dn_local = AddrPort (Addr4 10 0 0 1) 5000\<rparr> = Some (1, out)
    \<and> hdr_sum_ok (p_bytes plain_packet out)"
proof -
  have "v4_wf (p_bytes plain_packet (0, w_ip))" "v4_total (p_bytes plain_packet (0, w_ip)) = length (p_bytes plain_packet (0, w_ip))"
    "ucast (p_bytes plain_packet (0, w_ip) ! 9) = TCP" "min_hdr TCP \<le> length (v4_seg (p_bytes plain_packet (0, w_ip)))"
    "length (v4_seg (p_bytes plain_packet (0, w_ip))) + 20 < 65536"
    "addr_slice (ap_addr (AddrPort (Addr4 8 8 8 8) 80)) = window (16, 4) (p_bytes plain_packet (0, w_ip))"
    using w_ip_wf by (simp_all add: plain_packet_def min_hdr_def)
  note H = this
  have A: "TCP = TCP \<or> TCP = UDP" "addr_is4 (Addr4 10 0 0 1)" "addr_is4 (ap_addr (AddrPort (Addr4 8 8 8 8) 80))"
    by simp_all
  have "\<exists>pkt. ck_Client rfc plain_packet (0, w_ip) = Some pkt \<and>
      (\<exists>out. ck_Server rfc plain_packet 0 pkt \<lparr>dn_server = AddrPort (Addr4 8 8 8 8) 80, dn_proto = TCP,
        dn_local = AddrPort (Addr4 10 0 0 1) 5000\<rparr> = Some (0 + 1, out) \<and> hdr_sum_ok (p_bytes plain_packet out))"
    using client_server_checksum [OF rfc_laws plain_packet_laws H(1,2) A(1) H(3-5) A(2,3) H(6), of 0 5000]
    by (elim exE conjE) (rule exI, rule conjI, assumption, drule spec, drule mp, rule refl, blast)
  then show ?thesis by simp
qed

text \<open>
  \<open>rechecksum\<close>, applied to every downlink packet: on a well-formed IPv4 packet of TCP
  or UDP it returns a well-formed packet whose checksums both verify, and apart from the two checksum
  fields addresses and segment are unchanged.
\<close>

theorem rechecksum_valid:
  assumes "gvisor_laws G" "v4_wf b" "pr = TCP \<or> pr = UDP" "ucast (b ! 9) = pr"
    and "min_hdr pr \<le> length (v4_seg b)"
  shows "\<exists>b'. rechecksum G b = Some b' \<and> length b' = length b \<and> v4_wf b' \<and> hdr_sum_ok b'
    \<and> seg_sum_ok pr (window (12, 4) b') (window (16, 4) b') (v4_seg b')
    \<and> window (12, 4) b' = window (12, 4) b \<and> window (16, 4) b' = window (16, 4) b
    \<and> set16 (v4_seg b') (sum_off pr) 0 = set16 (v4_seg b) (sum_off pr) 0"
  by (rule rechecksum_ok [OF assms])

theorem rechecksum_valid_witness: "\<exists>b'. rechecksum rfc w_ip = Some b' \<and> hdr_sum_ok b'"
  using rechecksum_valid [OF rfc_laws w_ip_wf(1), of TCP] w_ip_wf by (auto simp: min_hdr_def)

section \<open>The MSS option\<close>

text \<open>
  C27. \<open>UpdateTcpMssOption\<close> on a header whose options lead, over any number of other
  options, to an MSS option: if the sum of the old value and the delta is positive, it
  stores it modulo 2 to the 16, changes no other byte but the checksum, and whatever pseudo
  header the segment had a valid checksum for, it still has, at even and odd offsets alike.
\<close>

theorem mss_option_updated:
  assumes "gvisor_laws G" "delta \<noteq> 0" "g_DataOffset G hdr = Some n" "n \<le> length hdr" "n mod 4 = 0"
    and "opt_walk hdr n 20 i m" "20 \<le> i" "i + 4 \<le> n" "hdr ! i = 2" "hdr ! (i + 1) = 4"
    and "0 < int (unat (get16 hdr (i + 2))) + delta"
  shows "\<exists>hdr'. UpdateTcpMssOption G (m + Suc f) hdr delta = MssDone hdr' None
    \<and> get16 hdr' (i + 2) = of_int (int (unat (get16 hdr (i + 2))) + delta)
    \<and> set16 hdr' 16 0 = set16 (set16 hdr (i + 2) (get16 hdr' (i + 2))) 16 0
    \<and> (\<forall>s. s \<noteq> 0 \<longrightarrow> oc_sum hdr s = 0xffff \<longrightarrow> oc_sum hdr' s = 0xffff)"
proof -
  obtain hdr' where h: "mss_update G hdr n delta (NOT (get16 hdr 16)) i = Some (hdr', None)"
    "get16 hdr' (i + 2) = of_int (int (unat (get16 hdr (i + 2))) + delta)"
    "set16 hdr' 16 0 = set16 (set16 hdr (i + 2) (of_int (int (unat (get16 hdr (i + 2))) + delta))) 16 0"
    "\<forall>s. s \<noteq> 0 \<longrightarrow> oc_sum hdr s = 0xffff \<longrightarrow> oc_sum hdr' s = 0xffff"
    using mss_update_ok [OF assms(1,4,5,7,8) refl assms(11)] by blast
  have c: "g_Checksum G TCP hdr = Some (get16 hdr 16)"
    using transport_lawsD(3) [OF assms(1), of TCP hdr] assms(4,7,8) by (simp add: min_hdr_def sum_off_def)
  have "mss_loop G (Suc f) hdr n delta (NOT (get16 hdr 16)) i = MssDone hdr' None"
    using assms(4,7-10) h(1) by (simp add: slice_simps)
  then have "UpdateTcpMssOption G (m + Suc f) hdr delta = MssDone hdr' None"
    using assms(2,3,7,8) c mss_loop_walk [OF assms(6,4), of G "Suc f" delta "NOT (get16 hdr 16)"]
    by (simp add: UpdateTcpMssOption_def)
  with h show ?thesis by metis
qed

lemma w_tcp_mss: "g_DataOffset rfc w_tcp = Some 24" "get16 w_tcp 22 = 1460" "w_tcp ! 20 = 2" "w_tcp ! 21 = 4"
  by (simp_all add: rfc_def if_len_def w_tcp_def get16_def be16_def)

theorem mss_option_updated_witness:
  "\<exists>hdr'. UpdateTcpMssOption rfc 1 w_tcp (-40) = MssDone hdr' None \<and> get16 hdr' 22 = 1420"
  using mss_option_updated [OF rfc_laws _ w_tcp_mss(1) _ _ opt_walk.here, of "-40" 0] w_tcp_mss w_ip_wf(8)
  by auto

lemma w_tcp_progress: "opts_progress w_tcp 24"
proof -
  have "\<not> opt_stuck w_tcp 24 i" if "opt_walk w_tcp 24 20 i m" for i m
    using that by (cases rule: opt_walk.cases) (simp_all add: opt_stuck_def w_tcp_mss)
  then show ?thesis by (simp add: opts_progress_def)
qed

text \<open>
  C28. Termination of \<open>UpdateTcpMssOption\<close>: it returns, without a panic, within one iteration per byte
  of the options exactly when the walk over the options, from byte 20 on, comes to no option
  other than end, no-operation and MSS that has length zero, or there is nothing to add; and
  otherwise it never returns, whatever the fuel.
\<close>

theorem mss_terminates_iff_progress:
  assumes "gvisor_laws G" "g_DataOffset G hdr = Some n" "n \<le> length hdr"
  shows "(if opts_progress hdr n \<or> delta = 0 then \<exists>hdr' e. UpdateTcpMssOption G (Suc (n - 20)) hdr delta = MssDone hdr' e
     else (\<forall>fuel. UpdateTcpMssOption G fuel hdr delta = MssFuel))"
proof (cases "20 \<le> length hdr")
  case True
  with UpdateTcpMssOption_fuel [OF assms, of delta] UpdateTcpMssOption_ok [OF assms True, of "Suc (n - 20)" delta]
  show ?thesis by auto
next
  case False
  then have "UpdateTcpMssOption G fuel hdr delta = MssDone hdr None" for fuel
    using assms(2,3) by (simp add: UpdateTcpMssOption_def)
  with UpdateTcpMssOption_fuel [OF assms, of delta] show ?thesis by auto
qed

theorem mss_terminates_iff_progress_witness:
  "UpdateTcpMssOption rfc 1000 (w_tcp[20 := 3, 21 := 0]) (-40) = MssFuel \<and> (\<exists>h e. UpdateTcpMssOption rfc 5 w_tcp (-40) = MssDone h e)"
proof
  let ?h = "w_tcp[20 := 3, 21 := 0]"
  have "g_DataOffset rfc ?h = Some 24" by (simp add: rfc_def if_len_def w_tcp_def)
  note t = mss_terminates_iff_progress [OF rfc_laws this, of "-40"]
  have "opt_stuck ?h 24 20" by (simp add: opt_stuck_def w_tcp_def)
  then have "\<not> opts_progress ?h 24" unfolding opts_progress_def using opt_walk.here by blast
  with t show "UpdateTcpMssOption rfc 1000 ?h (-40) = MssFuel" using w_ip_wf(8) by simp
next
  from w_tcp_progress mss_terminates_iff_progress [OF rfc_laws w_tcp_mss(1), of "-40"] w_ip_wf(8)
  show "\<exists>h e. UpdateTcpMssOption rfc 5 w_tcp (-40) = MssDone h e" by simp
qed

end
