(* ===== verification/Link_List.thy ===== *)
theory Link_List
  imports Gvisor
begin

text \<open>
  The outbound queue of the user-mode TCP stack: \<open>slice\<close> and \<open>List\<close> of
  \<open>ustack/link/list.go\<close> and \<open>match\<close> of \<open>ustack/link/link.go\<close>. gVisor's stack
  writes packets into it, the connections take them out, by destination on the server.
  The interface \<open>packet_queue\<close> is the code's \<open>listIface\<close> as the link uses it.

  A packet buffer of gVisor is a value with an identity; reference counts are kept beside
  the queue, so that \<open>IncRef\<close> and \<open>DecRef\<close> are visible.
\<close>

section \<open>The interface\<close>

locale packet_queue =
  fixes put :: "'q \<Rightarrow> 'p \<Rightarrow> 'q option"
    and get :: "'q \<Rightarrow> 'q \<times> 'p option"
    and items :: "'q \<Rightarrow> 'p list"
    and cap :: "'q \<Rightarrow> nat"
    and inv :: "'q \<Rightarrow> bool"
  assumes put_ok: "inv q \<Longrightarrow> \<exists>q'. put q p = Some q' \<and> inv q' \<and> cap q' = cap q
      \<and> items q' = (if length (items q) = cap q then tl (items q) else items q) @ [p]"
    and get_ok: "inv q \<Longrightarrow> get q = (q', r) \<Longrightarrow> inv q' \<and> cap q' = cap q
      \<and> (case items q of [] \<Rightarrow> r = None \<and> items q' = [] | x # xs \<Rightarrow> r = Some x \<and> items q' = xs)"
    and bounded: "inv q \<Longrightarrow> length (items q) \<le> cap q \<and> 0 < cap q"
begin

fun put_all :: "'q \<Rightarrow> 'p list \<Rightarrow> 'q option" where
  "put_all q [] = Some q"
| "put_all q (p # ps) = Option.bind (put q p) (\<lambda>q. put_all q ps)"

text \<open>A bounded queue keeps the newest packets, in order.\<close>

lemma put_all_newest:
  "inv q \<Longrightarrow> \<exists>q'. put_all q ps = Some q' \<and> inv q' \<and> cap q' = cap q
    \<and> items q' = drop (length (items q) + length ps - cap q) (items q @ ps)"
proof (induction ps arbitrary: q)
  case Nil
  then show ?case using bounded [OF Nil] by simp
next
  case (Cons p ps)
  note b = bounded [OF Cons.prems]
  obtain q1 where q1: "put q p = Some q1" "inv q1" "cap q1 = cap q"
    "items q1 = (if length (items q) = cap q then tl (items q) else items q) @ [p]"
    using put_ok [OF Cons.prems, of p] by blast
  obtain q2 where q2: "put_all q1 ps = Some q2" "inv q2" "cap q2 = cap q1"
    "items q2 = drop (length (items q1) + length ps - cap q1) (items q1 @ ps)"
    using Cons.IH [OF q1(2)] by blast
  have "drop (length (items q1) + length ps - cap q1) (items q1 @ ps)
      = drop (length (items q) + length (p # ps) - cap q) (items q @ p # ps)"
  proof (cases "length (items q) = cap q")
    case True
    then obtain x xs where x: "items q = x # xs" using b by (cases "items q") auto
    with True q1 have "items q1 = xs @ [p]" "length (items q1) = cap q" by simp_all
    with x True q1(3) show ?thesis by simp
  next
    case False
    with q1 show ?thesis by simp
  qed
  with q1 q2 show ?case by simp
qed

end

section \<open>Packet buffers\<close>

record pkb =
  pk_id :: nat
  pk_tproto :: proto
  pk_nproto :: u32
  pk_thdr :: bytes
  pk_nhdr :: bytes
  pk_data :: bytes

abbreviation IPv4_number :: u32 where "IPv4_number \<equiv> 0x0800"
abbreviation IPv6_number :: u32 where "IPv6_number \<equiv> 0x86dd"

text \<open>\<open>match\<close>: a nil buffer never matches; an unknown protocol is a panic.\<close>

definition pk_match :: "gvisor \<Rightarrow> pkb option \<Rightarrow> addrport \<Rightarrow> bool option" where
  "pk_match G pb dst =
     (case pb of None \<Rightarrow> Some False
      | Some pk \<Rightarrow>
          if \<not> addr_valid (ap_addr dst) then Some True
          else do {
            m \<leftarrow> (if pk_tproto pk = TCP then map_option (\<lambda>p. ap_port dst = p) (g_DestinationPort G TCP (pk_thdr pk))
                  else if pk_tproto pk = UDP then map_option (\<lambda>p. ap_port dst = p) (g_DestinationPort G UDP (pk_thdr pk))
                  else if pk_tproto pk = ICMPv4 \<or> pk_tproto pk = ICMPv6 then Some (ap_port dst = 0)
                  else None);
            if \<not> m then Some False
            else if pk_nproto pk = IPv4_number then do {
              a \<leftarrow> addr_as4 (ap_addr dst);
              d \<leftarrow> g_v4_dst G (pk_nhdr pk);
              Some (a = d)
            }
            else if pk_nproto pk = IPv6_number then do {
              d \<leftarrow> g_v6_dst G (pk_nhdr pk);
              Some (addr_as16 (ap_addr dst) = d)
            }
            else None
          })"

section \<open>The slice\<close>

record pslice =
  ps_items :: "pkb list"
  ps_cap :: nat
  ps_refs :: "nat \<Rightarrow> int"

definition newSlice :: "(nat \<Rightarrow> int) \<Rightarrow> nat \<Rightarrow> pslice" where
  "newSlice refs n = \<lparr>ps_items = [], ps_cap = n, ps_refs = refs\<rparr>"

definition pk_ref :: "int \<Rightarrow> pkb \<Rightarrow> (nat \<Rightarrow> int) \<Rightarrow> nat \<Rightarrow> int" where
  "pk_ref n p refs = refs(pk_id p := refs (pk_id p) + n)"

definition ps_get :: "pslice \<Rightarrow> pslice \<times> pkb option" where
  "ps_get s =
     (if length (ps_items s) > 0
      then (s\<lparr>ps_items := take (length (ps_items s) - 1) (fst (go_copy (ps_items s) (drop 1 (ps_items s))))\<rparr>,
            Some (ps_items s ! 0))
      else (s, None))"

fun ps_getBy_loop :: "gvisor \<Rightarrow> pslice \<Rightarrow> addrport \<Rightarrow> nat \<Rightarrow> pkb list \<Rightarrow> (pslice \<times> pkb option) option" where
  "ps_getBy_loop G s dst i [] = Some (s, None)"
| "ps_getBy_loop G s dst i (e # es) = do {
     m \<leftarrow> pk_match G (Some e) dst;
     if m then
       (let (tl, n) = go_copy (drop i (ps_items s)) (drop (i + 1) (ps_items s)) in
        Some (s\<lparr>ps_items := take (i + n) (take i (ps_items s) @ tl)\<rparr>, Some e))
     else ps_getBy_loop G s dst (i + 1) es
   }"

definition ps_getBy :: "gvisor \<Rightarrow> pslice \<Rightarrow> addrport \<Rightarrow> (pslice \<times> pkb option) option" where
  "ps_getBy G s dst = ps_getBy_loop G s dst 0 (ps_items s)"

text \<open>\<open>Put\<close>: a full queue drops its oldest packet and its reference; a full queue
  without capacity would dereference nil.\<close>

definition ps_Put :: "pslice \<Rightarrow> pkb option \<Rightarrow> (pslice \<times> bool) option" where
  "ps_Put s pb =
     (case pb of None \<Rightarrow> Some (s, False)
      | Some p \<Rightarrow> do {
          s \<leftarrow> (if length (ps_items s) = ps_cap s then
                  (let (s, d) = ps_get s in
                   case d of None \<Rightarrow> None | Some d \<Rightarrow> Some (s\<lparr>ps_refs := pk_ref (-1) d (ps_refs s)\<rparr>))
                else Some s);
          Some (s\<lparr>ps_items := ps_items s @ [p], ps_refs := pk_ref 1 p (ps_refs s)\<rparr>, True)
        })"

definition ps_Size :: "pslice \<Rightarrow> nat" where
  "ps_Size s = length (ps_items s)"

section \<open>The queue it implements\<close>

definition ps_inv :: "pslice \<Rightarrow> bool" where
  "ps_inv s \<longleftrightarrow> length (ps_items s) \<le> ps_cap s \<and> 0 < ps_cap s"

definition ps_put1 :: "pslice \<Rightarrow> pkb \<Rightarrow> pslice option" where
  "ps_put1 s p = map_option fst (ps_Put s (Some p))"

lemma ps_get_eq: "ps_get s = (case ps_items s of [] \<Rightarrow> (s, None) | x # xs \<Rightarrow> (s\<lparr>ps_items := xs\<rparr>, Some x))"
  by (cases "ps_items s") (auto simp: ps_get_def go_copy_def Let_def min_def)

lemma ps_Put_eq:
  assumes "ps_inv s"
  shows "ps_Put s (Some p) = Some (if length (ps_items s) = ps_cap s
      then s\<lparr>ps_items := tl (ps_items s) @ [p],
             ps_refs := pk_ref 1 p (pk_ref (-1) (hd (ps_items s)) (ps_refs s))\<rparr>
      else s\<lparr>ps_items := ps_items s @ [p], ps_refs := pk_ref 1 p (ps_refs s)\<rparr>, True)"
  using assms by (cases "ps_items s") (auto simp: ps_Put_def ps_get_eq ps_inv_def)

lemma ps_put1_ok:
  assumes "ps_inv s"
  shows "\<exists>s'. ps_put1 s p = Some s' \<and> ps_inv s' \<and> ps_cap s' = ps_cap s
    \<and> ps_items s' = (if length (ps_items s) = ps_cap s then tl (ps_items s) else ps_items s) @ [p]"
  using assms by (auto simp: ps_put1_def ps_Put_eq ps_inv_def)

lemma ps_get_ok:
  assumes "ps_inv s" "ps_get s = (s', r)"
  shows "ps_inv s' \<and> ps_cap s' = ps_cap s
    \<and> (case ps_items s of [] \<Rightarrow> r = None \<and> ps_items s' = [] | x # xs \<Rightarrow> r = Some x \<and> ps_items s' = xs)"
  using assms by (cases "ps_items s") (auto simp: ps_get_eq ps_inv_def)

lemma ps_bounded: "ps_inv s \<Longrightarrow> length (ps_items s) \<le> ps_cap s \<and> 0 < ps_cap s"
  by (simp add: ps_inv_def)

interpretation psq: packet_queue ps_put1 ps_get ps_items ps_cap ps_inv
  by unfold_locales (rule ps_put1_ok ps_get_ok ps_bounded; assumption)+

lemma ps_getBy_loop_eq:
  "i + length es = length (ps_items s) \<Longrightarrow> drop i (ps_items s) = es \<Longrightarrow>
    \<forall>e \<in> set es. pk_match G (Some e) dst \<noteq> None \<Longrightarrow>
    ps_getBy_loop G s dst i es = Some
      (case find (\<lambda>e. pk_match G (Some e) dst = Some True) es of
         None \<Rightarrow> (s, None)
       | Some e \<Rightarrow> (s\<lparr>ps_items := take i (ps_items s) @ takeWhile (\<lambda>e. pk_match G (Some e) dst \<noteq> Some True) es
              @ tl (dropWhile (\<lambda>e. pk_match G (Some e) dst \<noteq> Some True) es)\<rparr>, Some e))"
proof (induction es arbitrary: i)
  case (Cons e es)
  then obtain m where m: "pk_match G (Some e) dst = Some m" by auto
  have d: "drop (i + 1) (ps_items s) = es" "ps_items s ! i = e" "i < length (ps_items s)"
  proof -
    have "drop (i + 1) (ps_items s) = tl (drop i (ps_items s))" by (simp add: drop_Suc tl_drop)
    then show "drop (i + 1) (ps_items s) = es" using Cons.prems(2) by simp
    show "ps_items s ! i = e" using Cons.prems(2) by (rule nth_via_drop)
    show "i < length (ps_items s)" using Cons.prems(1) by simp
  qed
  show ?case
  proof (cases m)
    case True
    then show ?thesis using m Cons.prems(1,2) d by (simp add: go_copy_def Let_def)
  next
    case False
    have "take (i + 1) (ps_items s) = take i (ps_items s) @ [e]"
      using d by (simp add: take_Suc_conv_app_nth)
    then show ?thesis using Cons.IH [of "i + 1"] Cons.prems m False d(1)
      by (auto split: option.split)
  qed
qed simp

lemma ps_getBy_first:
  assumes "\<forall>e \<in> set (ps_items s). pk_match G (Some e) dst \<noteq> None"
  shows "\<exists>s' r. ps_getBy G s dst = Some (s', r)
    \<and> (case r of
         None \<Rightarrow> s' = s \<and> (\<forall>e \<in> set (ps_items s). pk_match G (Some e) dst = Some False)
       | Some e \<Rightarrow> \<exists>xs ys. ps_items s = xs @ e # ys \<and> s' = s\<lparr>ps_items := xs @ ys\<rparr>
           \<and> pk_match G (Some e) dst = Some True \<and> (\<forall>x \<in> set xs. pk_match G (Some x) dst = Some False))"
proof -
  let ?m = "\<lambda>e. pk_match G (Some e) dst = Some True"
  have neg: "pk_match G (Some e) dst = Some False" if "e \<in> set (ps_items s)" "\<not> ?m e" for e
    using assms that by auto
  have eq: "ps_getBy G s dst = Some (case find ?m (ps_items s) of None \<Rightarrow> (s, None)
       | Some e \<Rightarrow> (s\<lparr>ps_items := takeWhile (\<lambda>e. \<not> ?m e) (ps_items s) @ tl (dropWhile (\<lambda>e. \<not> ?m e) (ps_items s))\<rparr>, Some e))"
    unfolding ps_getBy_def using ps_getBy_loop_eq [of 0 "ps_items s" s G dst] assms
    by (simp split: option.split)
  show ?thesis
  proof (cases "find ?m (ps_items s)")
    case None
    then have "\<forall>e \<in> set (ps_items s). pk_match G (Some e) dst = Some False"
      using neg by (auto simp: find_None_iff)
    with eq None show ?thesis by simp
  next
    case (Some e)
    define xs where "xs = takeWhile (\<lambda>e. \<not> ?m e) (ps_items s)"
    obtain ys where ys: "dropWhile (\<lambda>e. \<not> ?m e) (ps_items s) = e # ys"
      using Some by (simp add: find_dropWhile comp_def split: list.splits)
    have e: "?m e" using Some unfolding find_Some_iff by blast
    have "ps_items s = xs @ e # ys" unfolding xs_def ys [symmetric] by simp
    moreover have "\<forall>x \<in> set xs. pk_match G (Some x) dst = Some False"
      unfolding xs_def using neg by (auto dest: set_takeWhileD)
    ultimately show ?thesis using eq Some ys e by (auto simp: xs_def)
  qed
qed

end
