(* ===== verification/Link_Endpoint.thy ===== *)
theory Link_Endpoint
  imports Link_List Link_Manager
begin

text \<open>
  \<open>List\<close> of \<open>ustack/link/list.go\<close>: the link endpoint over the packet queue. The
  blocking \<open>Get\<close> and \<open>GetBy\<close> wait on a condition variable; a call is given the
  events it meets while waiting, and a call that meets no more of them is still blocked.
  \<open>get_step\<close> is the same loop at the granularity of its lock sections, next to a
  concurrent \<open>Put\<close>.
\<close>

section \<open>Waiting\<close>

datatype wait_ev = CtxDone | Woken pslice

datatype wait_out = Blocked pslice | Returned pslice "pkb option"

fun ps_wait ::
  "(pslice \<Rightarrow> (pslice \<times> pkb option) option) \<Rightarrow> pslice \<Rightarrow> wait_ev list \<Rightarrow> wait_out option" where
  "ps_wait tk s [] = Some (Blocked s)"
| "ps_wait tk s (CtxDone # evs) = Some (Returned s None)"
| "ps_wait tk s (Woken s' # evs) = do {
     (s, r) \<leftarrow> tk s';
     if r \<noteq> None then Some (Returned s r) else ps_wait tk s evs
   }"

definition ps_Get :: "pslice \<Rightarrow> wait_ev list \<Rightarrow> wait_out option" where
  "ps_Get s evs =
     (let (s, r) = ps_get s in
      if r \<noteq> None then Some (Returned s r) else ps_wait (\<lambda>s. Some (ps_get s)) s evs)"

definition ps_GetBy :: "gvisor \<Rightarrow> pslice \<Rightarrow> addrport \<Rightarrow> wait_ev list \<Rightarrow> wait_out option" where
  "ps_GetBy G s dst evs = do {
     (s, r) \<leftarrow> ps_getBy G s dst;
     if r \<noteq> None then Some (Returned s r) else ps_wait (\<lambda>s. ps_getBy G s dst) s evs
   }"

section \<open>The endpoint\<close>

record List =
  l_list :: pslice
  l_mtu :: nat
  l_closed :: bool
  l_attached :: bool

datatype tcpip_error = ErrClosedForSend | ErrNoBufferSpace

definition NewList :: "(nat \<Rightarrow> int) \<Rightarrow> nat \<Rightarrow> nat \<Rightarrow> List" where
  "NewList refs buff mtu =
     \<lparr>l_list = newSlice refs (max buff 4), l_mtu = mtu, l_closed = False, l_attached = False\<rparr>"

fun write_loop :: "pslice \<Rightarrow> nat \<Rightarrow> pkb option list \<Rightarrow> (pslice \<times> nat \<times> tcpip_error option) option" where
  "write_loop s i [] = Some (s, i, None)"
| "write_loop s i (p # ps) = do {
     (s, ok) \<leftarrow> ps_Put s p;
     if \<not> ok then Some (s, i, Some ErrNoBufferSpace) else write_loop s (i + 1) ps
   }"

definition l_WritePackets :: "List \<Rightarrow> pkb option list \<Rightarrow> (List \<times> nat \<times> tcpip_error option) option" where
  "l_WritePackets l pkts =
     (if l_closed l then Some (l, 0, Some ErrClosedForSend)
      else map_option (\<lambda>(s, n, e). (l\<lparr>l_list := s\<rparr>, n, e)) (write_loop (l_list l) 0 pkts))"

datatype 'p out_res = OutBlocked | OutErr go_error | OutOk 'p

text \<open>The body of \<open>outboundBy\<close> after the wait: the segment replaces the contents of the
  caller's packet, its network header is skipped and the queue's reference given back.\<close>

definition l_outboundBy ::
  "gvisor \<Rightarrow> 'p packet_api \<Rightarrow> List \<Rightarrow> addrport \<Rightarrow> 'p \<Rightarrow> wait_ev list \<Rightarrow> (List \<times> 'p out_res) option" where
  "l_outboundBy G P l dst seg evs = do {
     w \<leftarrow> (if ap_valid dst then ps_GetBy G (l_list l) dst evs else ps_Get (l_list l) evs);
     case w of
       Blocked s \<Rightarrow> Some (l\<lparr>l_list := s\<rparr>, OutBlocked)
     | Returned s None \<Rightarrow> Some (l\<lparr>l_list := s\<rparr>, OutErr ErrCanceled)
     | Returned s (Some pk) \<Rightarrow>
         (let seg = p_Append P (p_SetData P seg 0) (pk_data pk);
              seg = p_SetHead P seg (p_head P seg + length (pk_nhdr pk))
          in Some (l\<lparr>l_list := s\<lparr>ps_refs := pk_ref (-1) pk (ps_refs s)\<rparr>\<rparr>, OutOk seg))
   }"

definition l_Outbound :: "gvisor \<Rightarrow> 'p packet_api \<Rightarrow> List \<Rightarrow> 'p \<Rightarrow> wait_ev list \<Rightarrow> (List \<times> 'p out_res) option" where
  "l_Outbound G P l seg evs = l_outboundBy G P l (AddrPort AddrZero 0) seg evs"

definition l_OutboundBy ::
  "gvisor \<Rightarrow> 'p packet_api \<Rightarrow> List \<Rightarrow> addrport \<Rightarrow> 'p \<Rightarrow> wait_ev list \<Rightarrow> (List \<times> 'p out_res) option" where
  "l_OutboundBy G P l dst seg evs = l_outboundBy G P l dst seg evs"

text \<open>\<open>Inbound\<close>: what the attached dispatcher receives, if any.\<close>

definition l_Inbound :: "List \<Rightarrow> bytes \<Rightarrow> (u32 \<times> bytes) option" where
  "l_Inbound l ip = (if l_attached l then Some (IPv4_number, ip) else None)"

definition l_Attach :: "List \<Rightarrow> bool \<Rightarrow> List" where
  "l_Attach l d = l\<lparr>l_attached := d\<rparr>"

definition l_IsAttached :: "List \<Rightarrow> bool" where
  "l_IsAttached l = l_attached l"

definition l_MTU :: "List \<Rightarrow> u32" where
  "l_MTU l = of_nat (l_mtu l)"

definition l_NumQueued :: "List \<Rightarrow> nat" where
  "l_NumQueued l = ps_Size (l_list l)"

text \<open>\<open>SynClose\<close>: the loop reads the queue size and the clock once per round; the
  argument lists the readings, and a loop that wants more of them is still waiting.\<close>

fun synclose_loop :: "time \<Rightarrow> (nat \<times> time) list \<Rightarrow> nat option" where
  "synclose_loop dead [] = None"
| "synclose_loop dead ((sz, now) # r) =
     (if sz > 0 \<or> now < dead then map_option Suc (synclose_loop dead r) else Some 0)"

definition l_SynClose ::
  "List \<Rightarrow> int \<Rightarrow> time \<Rightarrow> (nat \<times> time) list \<Rightarrow> nat \<Rightarrow> List \<times> go_error option option" where
  "l_SynClose l timeout now readings n =
     (if \<not> l_closed l then
        (let l = l\<lparr>l_closed := True\<rparr>; dead = now + timeout in
         case synclose_loop dead readings of
           None \<Rightarrow> (l, None)
         | Some _ \<Rightarrow> (l, Some (if n > 0 then Some ErrSynCloseTimeout else None)))
      else (l, Some None))"

section \<open>The functional behaviour\<close>

definition held :: "pslice \<Rightarrow> nat \<Rightarrow> nat" where
  "held s i = length (filter (\<lambda>p. pk_id p = i) (ps_items s))"

definition balance :: "pslice \<Rightarrow> nat \<Rightarrow> int" where
  "balance s i = ps_refs s i - int (held s i)"

lemma ps_put1_balance: "ps_inv s \<Longrightarrow> ps_put1 s p = Some s' \<Longrightarrow> balance s' i = balance s i"
  by (cases "ps_items s")
    (auto simp: ps_put1_def ps_Put_eq balance_def held_def pk_ref_def ps_inv_def split: if_splits)

lemma put_all_balance: "ps_inv s \<Longrightarrow> psq.put_all s ps = Some s' \<Longrightarrow> balance s' i = balance s i"
proof (induction ps arbitrary: s)
  case (Cons p ps)
  obtain s1 where s1: "ps_put1 s p = Some s1" "ps_inv s1" using psq.put_ok [OF Cons.prems(1), of p] by blast
  with Cons.prems(2) have "psq.put_all s1 ps = Some s'" by simp
  from Cons.IH [OF s1(2) this] ps_put1_balance [OF Cons.prems(1) s1(1)] show ?case by simp
qed simp

lemma write_loop_eq:
  "ps_inv s \<Longrightarrow> write_loop s i (map Some ps) = map_option (\<lambda>s. (s, i + length ps, None)) (psq.put_all s ps)"
proof (induction ps arbitrary: s i)
  case (Cons p ps)
  obtain s1 where s1: "ps_put1 s p = Some s1" "ps_inv s1" using psq.put_ok [OF Cons.prems, of p] by blast
  then have "ps_Put s (Some p) = Some (s1, True)" using Cons.prems by (simp add: ps_put1_def ps_Put_eq)
  with s1 Cons.IH [OF s1(2), of "i + 1"] show ?case by simp
qed simp

lemma synclose_loop_exit:
  "synclose_loop dead rs = Some k \<Longrightarrow> k < length rs \<and> fst (rs ! k) = 0 \<and> dead \<le> snd (rs ! k)
    \<and> (\<forall>j < k. fst (rs ! j) > 0 \<or> snd (rs ! j) < dead)"
proof (induction dead rs arbitrary: k rule: synclose_loop.induct)
  case (2 dead sz now r)
  then show ?case by (cases k) (auto split: if_splits simp: less_Suc_eq_0_disj)
qed simp

section \<open>The condition variable\<close>

text \<open>One \<open>Get\<close> by its lock sections, and \<open>Put\<close> by others. After a failed attempt
  the lock is released before \<open>Wait\<close> is entered; only a caller inside \<open>Wait\<close> hears a
  \<open>Broadcast\<close>.\<close>

datatype get_pc = GStart | GUnlocked | GWaiting | GWoken | GDone "pkb option"

inductive get_step :: "bool \<Rightarrow> get_pc \<times> pslice \<Rightarrow> get_pc \<times> pslice \<Rightarrow> bool" for ctxdone where
  first: "ps_get s = (s', r) \<Longrightarrow> pc' = (if r \<noteq> None then GDone r else GUnlocked) \<Longrightarrow>
    get_step ctxdone (GStart, s) (pc', s')"
| cancel: "ctxdone \<Longrightarrow> get_step ctxdone (GUnlocked, s) (GDone None, s)"
| wait: "\<not> ctxdone \<Longrightarrow> get_step ctxdone (GUnlocked, s) (GWaiting, s)"
| again: "ps_get s = (s', r) \<Longrightarrow> pc' = (if r \<noteq> None then GDone r else GUnlocked) \<Longrightarrow>
    get_step ctxdone (GWoken, s) (pc', s')"

inductive put_step :: "get_pc \<times> pslice \<Rightarrow> get_pc \<times> pslice \<Rightarrow> bool" where
  put: "ps_Put s (Some p) = Some (s', True) \<Longrightarrow> pc' = (if pc = GWaiting then GWoken else pc) \<Longrightarrow>
    put_step (pc, s) (pc', s')"

inductive get_run :: "get_pc \<times> pslice \<Rightarrow> get_pc \<times> pslice \<Rightarrow> bool" where
  refl: "get_run c c"
| get: "get_run c c' \<Longrightarrow> get_step b c' c'' \<Longrightarrow> get_run c c''"
| put: "get_run c c' \<Longrightarrow> put_step c' c'' \<Longrightarrow> get_run c c''"

inductive_cases get_stepE: "get_step b (GWaiting, s) c"

lemma waiting_stuck: "\<not> get_step b (GWaiting, s) c"
  by (auto elim: get_stepE)

end
