(* ===== verification/Stack_Props.thy ===== *)
theory Stack_Props
  imports Link_Endpoint Packet_Props
begin

text \<open>
  The properties of the outbound queue and link endpoint of the user-mode stack. The
  witnesses use a queue of two TCP packets to different ports.
\<close>

section \<open>Data of the witnesses\<close>

definition w_pk :: "nat \<Rightarrow> u8 \<Rightarrow> pkb" where
  "w_pk i p = \<lparr>pk_id = i, pk_tproto = TCP, pk_nproto = IPv4_number, pk_thdr = [0, 80, 0, p],
     pk_nhdr = take 20 w_ip, pk_data = take 20 w_ip @ [0, 80, 0, p]\<rparr>"

definition w_slice :: pslice where
  "w_slice = \<lparr>ps_items = [w_pk 1 7, w_pk 2 9], ps_cap = 4, ps_refs = (\<lambda>_. 1)\<rparr>"

definition w_list :: List where
  "w_list = \<lparr>l_list = w_slice, l_mtu = 1320, l_closed = False, l_attached = True\<rparr>"

lemma w_slice_inv: "ps_inv w_slice"
  by (simp add: ps_inv_def w_slice_def)

lemma w_match: "pk_match rfc (Some (w_pk i p)) (AddrPort (Addr4 8 8 8 8) q) = Some (q = be16 0 p)"
  using w_ip_wf(7) by (simp add: pk_match_def w_pk_def rfc_def if_len_def get16_def window_def)
    (simp add: w_ip_def)

section \<open>The outbound queue\<close>

text \<open>
  C29. \<open>WritePackets\<close> on an open endpoint accepts every packet of any batch; the queue then
  holds the newest packets up to its capacity, in order, and the reference counts change by
  exactly the change in what the queue holds. A closed endpoint takes nothing.
\<close>

theorem write_packets_newest:
  assumes "ps_inv (l_list l)"
  shows "(\<not> l_closed l \<longrightarrow> (\<exists>s'. l_WritePackets l (map Some ps) = Some (l\<lparr>l_list := s'\<rparr>, length ps, None)
        \<and> ps_inv s'
        \<and> ps_items s' = drop (length (ps_items (l_list l)) + length ps - ps_cap (l_list l)) (ps_items (l_list l) @ ps)
        \<and> (\<forall>i. ps_refs s' i - ps_refs (l_list l) i = int (held s' i) - int (held (l_list l) i))))
    \<and> (l_closed l \<longrightarrow> l_WritePackets l (map Some ps) = Some (l, 0, Some ErrClosedForSend))"
proof (intro conjI impI)
  assume "\<not> l_closed l"
  obtain s' where s': "psq.put_all (l_list l) ps = Some s'" "ps_inv s'"
    "ps_items s' = drop (length (ps_items (l_list l)) + length ps - ps_cap (l_list l)) (ps_items (l_list l) @ ps)"
    using psq.put_all_newest [OF assms, of ps] by blast
  have "ps_refs s' i - ps_refs (l_list l) i = int (held s' i) - int (held (l_list l) i)" for i
    using put_all_balance [OF assms s'(1), of i] by (simp add: balance_def)
  then show "\<exists>s'. l_WritePackets l (map Some ps) = Some (l\<lparr>l_list := s'\<rparr>, length ps, None) \<and> ps_inv s'
        \<and> ps_items s' = drop (length (ps_items (l_list l)) + length ps - ps_cap (l_list l)) (ps_items (l_list l) @ ps)
        \<and> (\<forall>i. ps_refs s' i - ps_refs (l_list l) i = int (held s' i) - int (held (l_list l) i))"
    using s' \<open>\<not> l_closed l\<close> write_loop_eq [OF assms, of 0 ps]
    by (intro exI [of _ s']) (simp add: l_WritePackets_def)
qed (simp add: l_WritePackets_def)

theorem write_packets_newest_witness:
  "\<exists>s'. l_WritePackets w_list (map Some [w_pk 3 1, w_pk 4 2, w_pk 5 3]) = Some (w_list\<lparr>l_list := s'\<rparr>, 3, None)
    \<and> ps_items s' = [w_pk 2 9, w_pk 3 1, w_pk 4 2, w_pk 5 3]"
  using write_packets_newest [of w_list "[w_pk 3 1, w_pk 4 2, w_pk 5 3]"] w_slice_inv
  by (auto simp: w_list_def w_slice_def)

text \<open>
  \<open>GetBy\<close> takes the first queued packet that matches the destination and only it: the
  packets before it do not match, the order of the rest is kept, and when nothing matches the
  queue is unchanged.
\<close>

theorem get_by_first_match:
  assumes "\<forall>e \<in> set (ps_items s). pk_match G (Some e) dst \<noteq> None"
  shows "\<exists>s' r. ps_getBy G s dst = Some (s', r)
    \<and> (case r of
         None \<Rightarrow> s' = s \<and> (\<forall>e \<in> set (ps_items s). pk_match G (Some e) dst = Some False)
       | Some e \<Rightarrow> \<exists>xs ys. ps_items s = xs @ e # ys \<and> s' = s\<lparr>ps_items := xs @ ys\<rparr>
           \<and> pk_match G (Some e) dst = Some True \<and> (\<forall>x \<in> set xs. pk_match G (Some x) dst = Some False))"
  using assms by (rule ps_getBy_first)

theorem get_by_first_match_witness:
  "\<exists>s' r. ps_getBy rfc w_slice (AddrPort (Addr4 8 8 8 8) 9) = Some (s', r)"
  using get_by_first_match [of w_slice rfc "AddrPort (Addr4 8 8 8 8) 9"] w_match
  by (auto simp: w_slice_def)

text \<open>
  \<open>Outbound\<close> that finds a packet hands its transport segment to the caller: the
  caller's packet holds exactly the data after the network header, and the reference the
  queue held is given back, so every packet id keeps its balance.
\<close>

theorem outbound_segment:
  assumes "packet_laws P" "ps_items (l_list l) = pk # rest" "length (pk_nhdr pk) \<le> length (pk_data pk)"
  shows "\<exists>l' q. l_Outbound G P l seg evs = Some (l', OutOk q)
    \<and> p_bytes P q = drop (length (pk_nhdr pk)) (pk_data pk)
    \<and> ps_items (l_list l') = rest \<and> (\<forall>i. balance (l_list l') i = balance (l_list l) i)"
proof -
  define q where "q = p_Append P (p_SetData P seg 0) (pk_data pk)"
  have "p_bytes P (p_SetData P seg 0) = []" using packet_lawsD(4) [OF assms(1), of 0 seg] by simp
  then have q: "p_bytes P q = pk_data pk" unfolding q_def packet_lawsD(10) [OF assms(1)] by simp
  have "p_bytes P (p_SetHead P q (p_head P q + length (pk_nhdr pk))) = drop (length (pk_nhdr pk)) (pk_data pk)"
    using packet_lawsD(3) [OF assms(1), of "length (pk_nhdr pk)" q] q assms(3) by simp
  moreover have "ps_Get (l_list l) evs = Some (Returned ((l_list l)\<lparr>ps_items := rest\<rparr>) (Some pk))"
    using assms(2) by (simp add: ps_Get_def ps_get_eq)
  moreover have "balance ((l_list l)\<lparr>ps_items := rest, ps_refs := pk_ref (-1) pk (ps_refs (l_list l))\<rparr>) i
      = balance (l_list l) i" for i
    using assms(2) by (simp add: balance_def held_def pk_ref_def)
  ultimately show ?thesis
    by (simp add: l_Outbound_def l_outboundBy_def ap_valid_def Let_def flip: q_def)
qed

theorem outbound_segment_witness:
  "\<exists>l' q. l_Outbound rfc plain_packet w_list (64, [1, 2, 3]) [] = Some (l', OutOk q)
    \<and> p_bytes plain_packet q = [0, 80, 0, 7]"
proof -
  have "ps_items (l_list w_list) = w_pk 1 7 # [w_pk 2 9]" by (simp add: w_list_def w_slice_def)
  moreover have "length (pk_nhdr (w_pk 1 7)) = 20" by (simp add: w_pk_def w_ip_def)
  moreover have "drop 20 (pk_data (w_pk 1 7)) = [0, 80, 0, 7]" "length (pk_data (w_pk 1 7)) = 24"
    by (simp_all add: w_pk_def w_ip_def)
  ultimately show ?thesis
    using outbound_segment [OF plain_packet_laws, of w_list "w_pk 1 7" "[w_pk 2 9]" rfc "(64, [1, 2, 3])" "[]"] by auto
qed

text \<open>
  C37. A wake-up can be lost: between the failed attempt and the wait the lock is free, so a
  packet put there broadcasts to nobody. The caller then waits on a queue that holds a
  packet, and no step of its own gets it out, whatever its context does.
\<close>

theorem get_lost_wakeup:
  "\<exists>s. get_run (GStart, newSlice (\<lambda>_. 1) 4) (GWaiting, s) \<and> ps_items s \<noteq> []
    \<and> (\<forall>ctxdone c. \<not> get_step ctxdone (GWaiting, s) c)"
proof -
  let ?s0 = "newSlice (\<lambda>_. 1) 4"
  obtain s where s: "ps_Put ?s0 (Some (w_pk 1 7)) = Some (s, True)" "ps_items s = [w_pk 1 7]"
    by (simp add: ps_Put_def newSlice_def)
  have "get_step False (GStart, ?s0) (GUnlocked, ?s0)"
    by (rule get_step.first [of _ _ None]) (simp_all add: ps_get_def newSlice_def)
  with get_run.refl have "get_run (GStart, ?s0) (GUnlocked, ?s0)" by (rule get_run.get)
  moreover have "put_step (GUnlocked, ?s0) (GUnlocked, s)" by (rule put_step.put [OF s(1)]) simp
  ultimately have "get_run (GStart, ?s0) (GUnlocked, s)" by (rule get_run.put)
  moreover have "get_step False (GUnlocked, s) (GWaiting, s)" by (rule get_step.wait) simp
  ultimately have "get_run (GStart, ?s0) (GWaiting, s)" by (rule get_run.get)
  with s(2) waiting_stuck show ?thesis by (intro exI [of _ s]) simp
qed

text \<open>
  \<open>SynClose\<close> of an open endpoint ends only at a reading with an empty queue and a
  passed deadline: it waits out the whole timeout even when the queue is empty, and while
  packets stay queued no timeout ends it.
\<close>

theorem synclose_waits_for_both:
  assumes "\<not> l_closed l" "l_SynClose l timeout now readings n = (l', Some r)"
  shows "l_closed l' \<and> (\<exists>k < length readings. fst (readings ! k) = 0 \<and> now + timeout \<le> snd (readings ! k)
    \<and> (\<forall>j < k. fst (readings ! j) > 0 \<or> snd (readings ! j) < now + timeout))"
proof -
  obtain k where k: "synclose_loop (now + timeout) readings = Some k" and l': "l' = l\<lparr>l_closed := True\<rparr>"
    using assms by (auto simp: l_SynClose_def Let_def split: option.splits)
  show ?thesis using synclose_loop_exit [OF k] l' by auto
qed

theorem synclose_waits_for_both_witness:
  "\<exists>l' r. l_SynClose w_list 100 0 [(0, 10), (0, 90), (0, 110)] 0 = (l', Some r) \<and> l_closed l'"
proof -
  have "\<not> l_closed w_list" by (simp add: w_list_def)
  moreover have "l_SynClose w_list 100 0 [(0, 10), (0, 90), (0, 110)] 0 = (w_list\<lparr>l_closed := True\<rparr>, Some None)"
    by (simp add: l_SynClose_def w_list_def)
  ultimately show ?thesis using synclose_waits_for_both by blast
qed

end
