(* ===== verification/Udp_Listener.thy ===== *)
theory Udp_Listener
  imports Netip "HOL-Library.AList"
begin

text \<open>
  The datagram listener of \<open>conn/udp\<close>: one UDP socket demultiplexed by remote address into
  connections with a bounded channel of segments each, and a bounded channel of connections
  not yet accepted. Channels are lists with a closed flag; the pool of segment buffers is not
  observable and left out. Sending on or closing a closed channel is a panic (\<open>None\<close>).
\<close>

section \<open>State\<close>

record acceptConn =
  ac_raddr :: addrport
  ac_closed :: bool
  ac_buff :: "bytes list"
  ac_chclosed :: bool

record Listener =
  u_open :: bool
  u_conns :: "addrport \<rightharpoonup> nat"
  u_heap :: "nat \<rightharpoonup> acceptConn"
  u_next :: nat
  u_ch :: "nat list"
  u_chclosed :: bool
  u_closed :: bool
  u_timers :: "addrport list"

definition newAcceptConn :: "addrport \<Rightarrow> acceptConn" where
  "newAcceptConn raddr = \<lparr>ac_raddr = raddr, ac_closed = False, ac_buff = [], ac_chclosed = False\<rparr>"

definition u_Listen :: Listener where
  "u_Listen = \<lparr>u_open = True, u_conns = Map.empty, u_heap = Map.empty, u_next = 0, u_ch = [],
     u_chclosed = False, u_closed = False, u_timers = []\<rparr>"

section \<open>Connections\<close>

text \<open>\<open>put\<close> drops the oldest segment while the channel of 128 is full.\<close>

function ac_put :: "acceptConn \<Rightarrow> bytes \<Rightarrow> acceptConn option" where
  "ac_put c s =
     (if ac_closed c then Some c
      else if ac_chclosed c then None
      else if length (ac_buff c) < 128 then Some (c\<lparr>ac_buff := ac_buff c @ [s]\<rparr>)
      else ac_put (c\<lparr>ac_buff := tl (ac_buff c)\<rparr>) s)"
  by pat_completeness auto
termination by (relation "measure (\<lambda>(c, s). length (ac_buff c))") auto

declare ac_put.simps [simp del]

datatype read_res = ReadBlocked | ReadOk bytes | ReadErr bytes go_error

definition ac_Read :: "acceptConn \<Rightarrow> nat \<Rightarrow> acceptConn \<times> read_res" where
  "ac_Read c n =
     (case ac_buff c of
        [] \<Rightarrow> (c, if ac_chclosed c then ReadErr [] ErrClosed else ReadBlocked)
      | seg # rest \<Rightarrow>
          (let c = c\<lparr>ac_buff := rest\<rparr>; k = min n (length seg) in
           if k \<noteq> length seg then (c, ReadErr (take k seg) (ErrShortBuff (length seg) k))
           else (c, ReadOk (take k seg))))"

definition ac_Write :: "acceptConn \<Rightarrow> bytes \<Rightarrow> (addrport \<times> bytes) result" where
  "ac_Write c b = (if ac_closed c then Inl ErrClosed else Inr (ac_raddr c, b))"

section \<open>The listener\<close>

definition u_close :: "Listener \<Rightarrow> Listener" where
  "u_close l = (if u_closed l then l else l\<lparr>u_closed := True, u_chclosed := True\<rparr>)"

definition u__del :: "Listener \<Rightarrow> addrport \<Rightarrow> Listener" where
  "u__del l raddr =
     (let l = l\<lparr>u_conns := (u_conns l)(raddr := None)\<rparr> in
      if u_conns l = Map.empty \<and> u_closed l then l\<lparr>u_open := False\<rparr> else l)"

text \<open>\<open>del\<close>: at once when the connection is the only one, after five seconds otherwise.\<close>

definition u_del :: "Listener \<Rightarrow> addrport \<Rightarrow> Listener" where
  "u_del l raddr =
     (if card (dom (u_conns l)) = 1 then u__del l raddr else l\<lparr>u_timers := u_timers l @ [raddr]\<rparr>)"

definition u_put :: "Listener \<Rightarrow> nat \<Rightarrow> bytes \<Rightarrow> Listener option" where
  "u_put l i seg = do {
     c \<leftarrow> u_heap l i;
     c \<leftarrow> ac_put c seg;
     Some (l\<lparr>u_heap := (u_heap l)(i \<mapsto> c)\<rparr>)
   }"

text \<open>One round of \<open>accpetService\<close>: what the socket read, a segment with its sender or an
  error that closes the listener. \<open>u_handle\<close> is the round after the table was read; the
  argument \<open>has\<close> is what it read. In a debug build one goroutine runs the rounds, one
  after the other, as \<open>u_round\<close> and the runs below do; otherwise there is one for every
  processor and another round can come between the two halves.\<close>

definition u_handle :: "Listener \<Rightarrow> addrport \<Rightarrow> bytes \<Rightarrow> nat option \<Rightarrow> Listener option" where
  "u_handle l addr seg has =
     (case has of
        Some i \<Rightarrow> u_put l i seg
      | None \<Rightarrow> do {
          let i = u_next l;
          let l = l\<lparr>u_next := i + 1, u_heap := (u_heap l)(i \<mapsto> newAcceptConn addr),
                    u_conns := (u_conns l)(addr \<mapsto> i)\<rparr>;
          l \<leftarrow> u_put l i seg;
          if u_closed l then Some l
          else if u_chclosed l then None
          else if length (u_ch l) < 32 then Some (l\<lparr>u_ch := u_ch l @ [i]\<rparr>)
          else Some l
        })"

definition u_round :: "Listener \<Rightarrow> (addrport \<times> bytes) result \<Rightarrow> Listener option" where
  "u_round l r =
     (case r of
        Inl err \<Rightarrow> Some (u_close l)
      | Inr (addr, seg) \<Rightarrow> u_handle l addr seg (u_conns l addr))"

datatype accept_res = AcceptBlocked | AcceptOk nat | AcceptErr

definition u_Accept :: "Listener \<Rightarrow> Listener \<times> accept_res" where
  "u_Accept l =
     (case u_ch l of
        i # rest \<Rightarrow> (l\<lparr>u_ch := rest\<rparr>, AcceptOk i)
      | [] \<Rightarrow> if u_chclosed l then (u_close l, AcceptErr) else (l, AcceptBlocked))"

definition ac_Close :: "Listener \<Rightarrow> nat \<Rightarrow> Listener option" where
  "ac_Close l i = do {
     c \<leftarrow> u_heap l i;
     if ac_chclosed c then None
     else do {
       let l = l\<lparr>u_heap := (u_heap l)(i \<mapsto> c\<lparr>ac_closed := True, ac_chclosed := True\<rparr>)\<rparr>;
       let l = u_del l (ac_raddr c);
       Some (l\<lparr>u_heap := (u_heap l)(i \<mapsto> c\<lparr>ac_closed := True, ac_chclosed := True, ac_buff := []\<rparr>)\<rparr>)
     }
   }"

section \<open>Runs\<close>

text \<open>The runs in which no operation overlaps another: datagrams and read errors, timers,
  \<open>Accept\<close>, \<open>Close\<close>, and the users of accepted connections (the set \<open>acc\<close> of handles in
  use), who read and close them once, each from its first to its last access to the shared
  state. They are enough to show what goes wrong without any race; the program has more runs
  than these, and \<open>Udp_Steps\<close> has them, with steps inside \<open>accpetService\<close> and \<open>Close\<close>.\<close>

inductive u_step :: "Listener \<times> nat set \<Rightarrow> Listener \<times> nat set \<Rightarrow> bool" where
  recv: "u_open l \<Longrightarrow> u_round l (Inr r) = Some l' \<Longrightarrow> u_step (l, acc) (l', acc)"
| fail: "u_round l (Inl err) = Some l' \<Longrightarrow> u_step (l, acc) (l', acc)"
| timer: "u_timers l = a # rest \<Longrightarrow> u_step (l, acc) (u__del (l\<lparr>u_timers := rest\<rparr>) a, acc)"
| accept: "u_Accept l = (l', AcceptOk i) \<Longrightarrow> u_step (l, acc) (l', insert i acc)"
| stop: "u_step (l, acc) (u_close l, acc)"
| read: "i \<in> acc \<Longrightarrow> u_heap l i = Some c \<Longrightarrow> ac_Read c n = (c', res) \<Longrightarrow>
    u_step (l, acc) (l\<lparr>u_heap := (u_heap l)(i \<mapsto> c')\<rparr>, acc)"
| drop_conn: "i \<in> acc \<Longrightarrow> ac_Close l i = Some l' \<Longrightarrow> u_step (l, acc) (l', acc - {i})"

definition u_reach :: "Listener \<times> nat set \<Rightarrow> Listener \<times> nat set \<Rightarrow> bool" where
  "u_reach = u_step\<^sup>*\<^sup>*"

section \<open>The table\<close>

text \<open>The table names only connections that exist, under their own address; every open
  connection is in it; a scheduled deletion waits for a closed connection; handles and
  the accept queue hold open connections, each once.\<close>

definition conn_ok :: "Listener \<Rightarrow> nat \<Rightarrow> acceptConn \<Rightarrow> bool" where
  "conn_ok l i c \<longleftrightarrow> i < u_next l \<and> ac_chclosed c = ac_closed c \<and> length (ac_buff c) \<le> 128
     \<and> (\<not> ac_closed c \<longrightarrow> u_conns l (ac_raddr c) = Some i)"

definition u_table :: "Listener \<Rightarrow> bool" where
  "u_table l \<longleftrightarrow> finite (dom (u_conns l))
     \<and> (\<forall>a i. u_conns l a = Some i \<longrightarrow> (\<exists>c. u_heap l i = Some c \<and> ac_raddr c = a))
     \<and> (\<forall>i c. u_heap l i = Some c \<longrightarrow> conn_ok l i c)
     \<and> distinct (u_timers l)
     \<and> (\<forall>a \<in> set (u_timers l). \<exists>i c. u_conns l a = Some i \<and> u_heap l i = Some c \<and> ac_closed c)"

definition u_handles :: "Listener \<times> nat set \<Rightarrow> bool" where
  "u_handles s \<longleftrightarrow> (let (l, acc) = s in (u_chclosed l = u_closed l) \<and> length (u_ch l) \<le> 32
     \<and> distinct (u_ch l) \<and> set (u_ch l) \<inter> acc = {}
     \<and> (\<forall>i \<in> set (u_ch l) \<union> acc. \<exists>c. u_heap l i = Some c \<and> \<not> ac_closed c))"

definition u_inv :: "Listener \<times> nat set \<Rightarrow> bool" where
  "u_inv s \<longleftrightarrow> u_table (fst s) \<and> u_handles s"

lemma ac_put_full: "length (ac_buff c) = 128 \<Longrightarrow> \<not> ac_closed c \<Longrightarrow> \<not> ac_chclosed c \<Longrightarrow>
    ac_put c s = Some (c\<lparr>ac_buff := tl (ac_buff c) @ [s]\<rparr>)"
  by (simp add: ac_put.simps [of c] ac_put.simps [of "c\<lparr>ac_buff := tl (ac_buff c)\<rparr>"])

lemma ac_put_eq:
  assumes "ac_chclosed c = ac_closed c" "length (ac_buff c) \<le> 128"
  shows "ac_put c s = Some (if ac_closed c then c
     else c\<lparr>ac_buff := (if length (ac_buff c) = 128 then tl (ac_buff c) else ac_buff c) @ [s]\<rparr>)"
  using assms ac_put_full [of c s] by (cases "length (ac_buff c) = 128") (auto simp: ac_put.simps [of c])

lemma u_put_eq:
  assumes "u_table l" "u_heap l i = Some c"
  obtains c' where "u_put l i seg = Some (l\<lparr>u_heap := (u_heap l)(i \<mapsto> c')\<rparr>)"
    "conn_ok l i c'" "ac_raddr c' = ac_raddr c" "ac_closed c' = ac_closed c"
    "ac_buff c' = (if ac_closed c then ac_buff c
       else (if length (ac_buff c) = 128 then tl (ac_buff c) else ac_buff c) @ [seg])"
proof -
  have ok: "conn_ok l i c" using assms by (simp add: u_table_def)
  then have "ac_chclosed c = ac_closed c" "length (ac_buff c) \<le> 128" by (simp_all add: conn_ok_def)
  from ac_put_eq [OF this, of seg] obtain c' where c': "ac_put c seg = Some c'"
    "c' = (if ac_closed c then c
     else c\<lparr>ac_buff := (if length (ac_buff c) = 128 then tl (ac_buff c) else ac_buff c) @ [seg]\<rparr>)" by blast
  show thesis
    by (rule that [of c']) (use c' assms(2) ok in \<open>simp_all add: u_put_def conn_ok_def\<close>)
qed

text \<open>Replacing a connection by one that agrees on address and closedness.\<close>

lemma u_table_heap:
  assumes "u_table l" "u_heap l i = Some c" "conn_ok l i c'" "ac_raddr c' = ac_raddr c" "ac_closed c' = ac_closed c"
  shows "u_table (l\<lparr>u_heap := (u_heap l)(i \<mapsto> c')\<rparr>)"
  using assms unfolding u_table_def conn_ok_def by (simp, safe; force)

lemma u_handles_heap:
  assumes "u_handles (l, acc)" "u_heap l i = Some c" "ac_closed c' = ac_closed c"
  shows "u_handles (l\<lparr>u_heap := (u_heap l)(i \<mapsto> c')\<rparr>, acc)"
  using assms unfolding u_handles_def Let_def prod.case by (simp, safe; force)

section \<open>Preservation\<close>

definition u_register :: "Listener \<Rightarrow> addrport \<Rightarrow> Listener" where
  "u_register l a = l\<lparr>u_next := u_next l + 1, u_heap := (u_heap l)(u_next l \<mapsto> newAcceptConn a),
     u_conns := (u_conns l)(a \<mapsto> u_next l)\<rparr>"

lemma u_heap_fresh: "u_table l \<Longrightarrow> u_heap l (u_next l) = None"
  unfolding u_table_def conn_ok_def by (metis less_irrefl option.exhaust)

lemma u_register_table:
  assumes t: "u_table l" and a: "u_conns l a = None"
  shows "u_table (u_register l a)"
proof -
  let ?l = "u_register l a" and ?n = "u_next l"
  have fresh: "u_heap l ?n = None" by (rule u_heap_fresh [OF t])
  have conns: "u_conns l b = Some i \<Longrightarrow> \<exists>c. u_heap l i = Some c \<and> ac_raddr c = b" for b i
    using t by (simp add: u_table_def)
  have ok: "u_heap l i = Some c \<Longrightarrow> conn_ok l i c" for i c using t by (simp add: u_table_def)
  have f: "u_heap ?l = (u_heap l)(?n \<mapsto> newAcceptConn a)" "u_conns ?l = (u_conns l)(a \<mapsto> ?n)"
    "u_next ?l = ?n + 1" "u_timers ?l = u_timers l" by (simp_all add: u_register_def)
  have old: "u_heap ?l i = u_heap l i" if "u_heap l i \<noteq> None" for i using that fresh f(1) by auto
  have "\<exists>c. u_heap ?l i = Some c \<and> ac_raddr c = b" if "u_conns ?l b = Some i" for b i
  proof (cases "b = a")
    case True
    then show ?thesis using that f by (auto simp: newAcceptConn_def)
  next
    case False
    with that f conns [of b i] old [of i] show ?thesis by auto
  qed
  moreover have "conn_ok ?l i c" if "u_heap ?l i = Some c" for i c
  proof (cases "i = ?n")
    case True
    then show ?thesis using that f by (auto simp: conn_ok_def newAcceptConn_def)
  next
    case False
    then have "conn_ok l i c" using that f ok by simp
    moreover from this a have "\<not> ac_closed c \<longrightarrow> ac_raddr c \<noteq> a" by (auto simp: conn_ok_def)
    ultimately show ?thesis using f by (auto simp: conn_ok_def)
  qed
  moreover have "\<exists>i c. u_conns ?l b = Some i \<and> u_heap ?l i = Some c \<and> ac_closed c" if b: "b \<in> set (u_timers l)" for b
  proof -
    from t b obtain i c where i: "u_conns l b = Some i" "u_heap l i = Some c" "ac_closed c"
      unfolding u_table_def by blast
    then have "b \<noteq> a" using a by auto
    with i old [of i] f show ?thesis by auto
  qed
  ultimately show ?thesis using t f unfolding u_table_def by auto
qed

lemma u_round_ok:
  assumes inv: "u_inv (l, acc)"
  obtains l' i where "u_round l (Inr (a, seg)) = Some l'" "u_inv (l', acc)"
    "u_conns l' a = Some i" "i = (case u_conns l a of Some i \<Rightarrow> i | None \<Rightarrow> u_next l)"
    "\<forall>b. b \<noteq> a \<longrightarrow> u_conns l' b = u_conns l b"
    "\<forall>j. j \<noteq> i \<longrightarrow> u_heap l' j = u_heap l j"
    "u_ch l' = (if u_conns l a = None \<and> \<not> u_closed l \<and> length (u_ch l) < 32 then u_ch l @ [i] else u_ch l)"
    "\<exists>c c'. u_heap l i = (if u_conns l a = None then None else Some c) \<and> u_heap l' i = Some c'
      \<and> (u_conns l a = None \<longrightarrow> c = newAcceptConn a) \<and> ac_closed c' = ac_closed c
      \<and> ac_buff c' = (if ac_closed c then ac_buff c
           else (if length (ac_buff c) = 128 then tl (ac_buff c) else ac_buff c) @ [seg])"
    "u_open l' = u_open l" "u_closed l' = u_closed l" "u_timers l' = u_timers l"
proof -
  have t: "u_table l" and h: "u_handles (l, acc)" using inv by (simp_all add: u_inv_def)
  show thesis
  proof (cases "u_conns l a")
    case (Some i)
    then obtain c where c: "u_heap l i = Some c" using t unfolding u_table_def by blast
    obtain c' where c': "u_put l i seg = Some (l\<lparr>u_heap := (u_heap l)(i \<mapsto> c')\<rparr>)"
      "conn_ok l i c'" "ac_raddr c' = ac_raddr c" "ac_closed c' = ac_closed c"
      "ac_buff c' = (if ac_closed c then ac_buff c
         else (if length (ac_buff c) = 128 then tl (ac_buff c) else ac_buff c) @ [seg])"
      using u_put_eq [OF t c] .
    have "u_inv (l\<lparr>u_heap := (u_heap l)(i \<mapsto> c')\<rparr>, acc)"
      using u_table_heap [OF t c c'(2-4)] u_handles_heap [OF h c c'(4)] by (simp add: u_inv_def)
    with Some c c' show thesis
      by (intro that [of "l\<lparr>u_heap := (u_heap l)(i \<mapsto> c')\<rparr>" i]) (simp_all add: u_round_def u_handle_def)
  next
    case None
    let ?n = "u_next l" and ?r = "u_register l a"
    have tr: "u_table ?r" by (rule u_register_table [OF t None])
    have nc: "u_heap ?r ?n = Some (newAcceptConn a)" by (simp add: u_register_def)
    obtain c' where c': "u_put ?r ?n seg = Some (?r\<lparr>u_heap := (u_heap ?r)(?n \<mapsto> c')\<rparr>)"
      "conn_ok ?r ?n c'" "ac_raddr c' = a" "\<not> ac_closed c'" "ac_buff c' = [seg]"
      using u_put_eq [OF tr nc] by (auto simp: newAcceptConn_def)
    let ?l1 = "?r\<lparr>u_heap := (u_heap ?r)(?n \<mapsto> c')\<rparr>"
    have t1: "u_table ?l1"
      by (rule u_table_heap [OF tr nc c'(2)]) (use c' in \<open>simp_all add: newAcceptConn_def\<close>)
    have fresh: "u_heap l ?n = None" by (rule u_heap_fresh [OF t])
    have hd: "\<exists>c. u_heap l i = Some c \<and> \<not> ac_closed c" if "i \<in> set (u_ch l) \<union> acc" for i
      using h that by (simp add: u_handles_def)
    then have nin: "?n \<notin> set (u_ch l) \<union> acc" using fresh by fastforce
    define ch where "ch = (if \<not> u_closed l \<and> length (u_ch l) < 32 then u_ch l @ [?n] else u_ch l)"
    let ?l' = "?l1\<lparr>u_ch := ch\<rparr>"
    have t2: "u_table ?l'" using t1 unfolding u_table_def conn_ok_def by simp
    have heap': "u_heap ?l' j = (if j = ?n then Some c' else u_heap l j)" for j
      by (simp add: u_register_def)
    have h2: "u_handles (?l', acc)"
      unfolding u_handles_def Let_def prod.case
    proof (intro conjI ballI)
      show "u_chclosed ?l' = u_closed ?l'" using h by (simp add: u_handles_def u_register_def)
      show "length (u_ch ?l') \<le> 32" "distinct (u_ch ?l')" "set (u_ch ?l') \<inter> acc = {}"
        using h nin by (auto simp: u_handles_def ch_def)
      fix i assume i: "i \<in> set (u_ch ?l') \<union> acc"
      show "\<exists>c. u_heap ?l' i = Some c \<and> \<not> ac_closed c"
      proof (cases "i = ?n")
        case True
        then show ?thesis using heap' [of i] c'(4) by auto
      next
        case False
        with i have "i \<in> set (u_ch l) \<union> acc" by (auto simp: ch_def split: if_splits)
        with hd [of i] False heap' [of i] show ?thesis by simp
      qed
    qed
    have eq: "u_chclosed l = u_closed l" using h by (simp add: u_handles_def)
    have run: "u_round l (Inr (a, seg)) = Some ?l'"
      using None c'(1) eq
      by (auto simp: u_round_def u_handle_def u_register_def [symmetric] ch_def Let_def) (simp_all add: u_register_def)
    show thesis
      by (rule that [OF run _ _ refl])
        (use t2 h2 None fresh c' in \<open>auto simp: u_inv_def ch_def u_register_def newAcceptConn_def\<close>)
  qed
qed

lemma u__del_fields [simp]: "u_heap (u__del l a) = u_heap l" "u_next (u__del l a) = u_next l"
    "u_ch (u__del l a) = u_ch l" "u_chclosed (u__del l a) = u_chclosed l" "u_closed (u__del l a) = u_closed l"
    "u_timers (u__del l a) = u_timers l" "u_conns (u__del l a) = (u_conns l)(a := None)"
  by (simp_all add: u__del_def Let_def)

lemma u__del_table:
  assumes t: "u_table l" and a: "a \<notin> set (u_timers l)"
    and closed: "\<And>i c. u_heap l i = Some c \<Longrightarrow> ac_raddr c = a \<Longrightarrow> ac_closed c"
  shows "u_table (u__del l a)"
proof -
  have "conn_ok (u__del l a) i c" if "u_heap l i = Some c" for i c
  proof -
    have "conn_ok l i c" using t that by (simp add: u_table_def)
    with closed [OF that] show ?thesis by (auto simp: conn_ok_def)
  qed
  moreover have "\<exists>i c. u_conns (u__del l a) b = Some i \<and> u_heap l i = Some c \<and> ac_closed c"
    if "b \<in> set (u_timers l)" for b
    using t a that unfolding u_table_def by (cases "b = a") auto
  moreover have "\<exists>c. u_heap l i = Some c \<and> ac_raddr c = b" if "u_conns (u__del l a) b = Some i" for b i
    using t that unfolding u_table_def by (auto split: if_splits)
  moreover have "finite (dom (u_conns (u__del l a)))" "distinct (u_timers l)"
    using t by (simp_all add: u_table_def)
  ultimately show ?thesis unfolding u_table_def u__del_fields(1,6) by blast
qed

lemma timer_closed:
  assumes t: "u_table l" and a: "a \<in> set (u_timers l)" and c: "u_heap l i = Some c" "ac_raddr c = a"
  shows "ac_closed c"
proof (rule ccontr)
  assume "\<not> ac_closed c"
  moreover have "conn_ok l i c" using t c(1) by (simp add: u_table_def)
  ultimately have "u_conns l a = Some i" using c(2) by (simp add: conn_ok_def)
  with t a c(1) \<open>\<not> ac_closed c\<close> show False unfolding u_table_def by fastforce
qed

lemma u_timer_inv:
  assumes inv: "u_inv (l, acc)" and tm: "u_timers l = a # rest"
  shows "u_inv (u__del (l\<lparr>u_timers := rest\<rparr>) a, acc)"
proof -
  have t: "u_table l" using inv by (simp add: u_inv_def)
  have t1: "u_table (l\<lparr>u_timers := rest\<rparr>)" using t tm unfolding u_table_def conn_ok_def by simp
  have "a \<notin> set rest" using t tm by (simp add: u_table_def)
  with u__del_table [OF t1] timer_closed [OF t, of a] tm have "u_table (u__del (l\<lparr>u_timers := rest\<rparr>) a)" by simp
  then show ?thesis using inv by (simp add: u_inv_def u_handles_def)
qed

lemma u_close_inv: "u_inv (l, acc) \<Longrightarrow> u_inv (u_close l, acc)"
  by (simp add: u_inv_def u_handles_def u_close_def u_table_def conn_ok_def)

lemma u_Accept_inv:
  assumes "u_inv (l, acc)" "u_Accept l = (l', AcceptOk i)"
  shows "u_inv (l', insert i acc)"
  using assms by (auto simp: u_Accept_def u_inv_def u_handles_def u_table_def conn_ok_def
      split: list.splits if_splits)

lemma u_read_inv:
  assumes inv: "u_inv (l, acc)" and c: "u_heap l i = Some c" "ac_Read c n = (c', res)"
  shows "u_inv (l\<lparr>u_heap := (u_heap l)(i \<mapsto> c')\<rparr>, acc)"
proof -
  have t: "u_table l" "u_handles (l, acc)" using inv by (simp_all add: u_inv_def)
  have c': "ac_raddr c' = ac_raddr c" "ac_closed c' = ac_closed c" "ac_chclosed c' = ac_chclosed c"
    "length (ac_buff c') \<le> length (ac_buff c)"
    using c(2) by (auto simp: ac_Read_def Let_def split: list.splits if_splits)
  have "conn_ok l i c" using t(1) c(1) by (simp add: u_table_def)
  then have "conn_ok l i c'" using c' by (simp add: conn_ok_def)
  from u_table_heap [OF t(1) c(1) this c'(1,2)] u_handles_heap [OF t(2) c(1) c'(2)]
  show ?thesis by (simp add: u_inv_def)
qed

lemma ac_Close_ok:
  assumes inv: "u_inv (l, acc)" and i: "i \<in> acc"
  obtains l' where "ac_Close l i = Some l'" "u_inv (l', acc - {i})"
proof -
  have t: "u_table l" and h: "u_handles (l, acc)" using inv by (simp_all add: u_inv_def)
  obtain c where c: "u_heap l i = Some c" "\<not> ac_closed c" using h i by (auto simp: u_handles_def)
  have ok: "conn_ok l i c" using t c(1) by (simp add: u_table_def)
  then have reg: "u_conns l (ac_raddr c) = Some i" and nch: "\<not> ac_chclosed c" using c(2) by (simp_all add: conn_ok_def)
  let ?a = "ac_raddr c" and ?c1 = "c\<lparr>ac_closed := True, ac_chclosed := True\<rparr>"
  let ?l1 = "l\<lparr>u_heap := (u_heap l)(i \<mapsto> ?c1)\<rparr>"
  have nt: "?a \<notin> set (u_timers l)" using timer_closed [OF t _ c(1) refl] c(2) by blast
  have t1: "u_table ?l1"
    using t c(1) unfolding u_table_def conn_ok_def by (simp, safe; force)
  have only: "j = i" if "u_heap ?l1 j = Some d" "ac_raddr d = ?a" "\<not> ac_closed d" for j d
  proof -
    have "conn_ok ?l1 j d" using t1 that(1) by (simp add: u_table_def)
    with that reg show ?thesis by (simp add: conn_ok_def)
  qed
  have t2: "u_table (u_del ?l1 ?a)"
  proof (cases "card (dom (u_conns ?l1)) = 1")
    case True
    have "u_table (u__del ?l1 ?a)"
    proof (rule u__del_table [OF t1])
      show "?a \<notin> set (u_timers ?l1)" using nt by simp
      fix j d assume d: "u_heap ?l1 j = Some d" "ac_raddr d = ?a"
      show "ac_closed d"
      proof (rule ccontr)
        assume "\<not> ac_closed d"
        from only [OF d this] d(1) have "d = ?c1" by simp
        with \<open>\<not> ac_closed d\<close> show False by simp
      qed
    qed
    with True show ?thesis by (simp add: u_del_def)
  next
    case False
    have "u_table (?l1\<lparr>u_timers := u_timers l @ [?a]\<rparr>)"
      using t1 nt reg unfolding u_table_def conn_ok_def by auto
    with False show ?thesis by (simp add: u_del_def)
  qed
  let ?c2 = "?c1\<lparr>ac_buff := []\<rparr>"
  have heap2: "u_heap (u_del ?l1 ?a) = (u_heap l)(i \<mapsto> ?c1)" by (simp add: u_del_def)
  have "conn_ok (u_del ?l1 ?a) i ?c2" using ok by (simp add: conn_ok_def u_del_def)
  then have t3: "u_table ((u_del ?l1 ?a)\<lparr>u_heap := (u_heap (u_del ?l1 ?a))(i \<mapsto> ?c2)\<rparr>)"
    using u_table_heap [OF t2, of i ?c1 ?c2] heap2 by simp
  let ?l' = "(u_del ?l1 ?a)\<lparr>u_heap := (u_heap l)(i \<mapsto> ?c2)\<rparr>"
  have l': "ac_Close l i = Some ((u_del ?l1 ?a)\<lparr>u_heap := (u_heap (u_del ?l1 ?a))(i \<mapsto> ?c2)\<rparr>)"
    using c(1) nch by (simp add: ac_Close_def Let_def)
  have ch: "u_ch (u_del ?l1 ?a) = u_ch l" "u_chclosed (u_del ?l1 ?a) = u_chclosed l"
    "u_closed (u_del ?l1 ?a) = u_closed l" by (simp_all add: u_del_def)
  have "u_handles ((u_del ?l1 ?a)\<lparr>u_heap := (u_heap (u_del ?l1 ?a))(i \<mapsto> ?c2)\<rparr>, acc - {i})"
  proof -
    have ni: "i \<notin> set (u_ch l)" using h i by (auto simp: u_handles_def)
    have op: "\<exists>c. u_heap l j = Some c \<and> \<not> ac_closed c" if "j \<in> set (u_ch l) \<union> acc" for j
      using h that by (simp add: u_handles_def)
    show ?thesis using h ch heap2 ni op by (auto simp: u_handles_def)
  qed
  with l' t3 show thesis by (intro that) (simp_all add: u_inv_def)
qed

lemma u_step_inv: "u_step s s' \<Longrightarrow> u_inv s \<Longrightarrow> u_inv s'"
proof (induction rule: u_step.induct)
  case (recv l r l' acc)
  obtain a seg where "r = (a, seg)" by (cases r)
  with recv u_round_ok [OF recv.prems, of a seg] show ?case by (metis option.inject)
next
  case (fail l err l' acc)
  then show ?case using u_close_inv by (auto simp: u_round_def u_handle_def)
next
  case (drop_conn i acc l l')
  with ac_Close_ok [OF drop_conn.prems drop_conn.hyps(1)] show ?case by (metis option.inject)
qed (simp_all add: u_timer_inv u_close_inv u_Accept_inv u_read_inv)

lemma u_init_inv: "u_inv (u_Listen, {})"
  by (simp add: u_inv_def u_table_def u_handles_def u_Listen_def)

lemma u_reach_inv: "u_reach s s' \<Longrightarrow> u_inv s \<Longrightarrow> u_inv s'"
  unfolding u_reach_def by (induction rule: rtranclp_induct) (auto intro: u_step_inv)

end
