(* ===== verification/Udp_Props.thy ===== *)
theory Udp_Props
  imports Udp_Listener
begin

text \<open>
  What goes wrong in the datagram listener of \<open>conn/udp\<close> even when its operations do not
  overlap (the runs of \<open>Udp_Listener\<close>): a client that two workers register, connections that
  the accept queue loses, and the socket that outlives the listener. The demultiplexing itself
  is a property of the steps of \<open>Udp_Steps\<close>, whatever overlaps.
\<close>

section \<open>The first datagram of a client\<close>

lemma u_round_new:
  assumes inv: "u_inv (l, acc)" and a: "u_conns l a = None"
  shows "\<exists>l' c'. u_round l (Inr (a, seg)) = Some l' \<and> u_inv (l', acc) \<and> u_conns l' a = Some (u_next l)
    \<and> u_heap l (u_next l) = None \<and> u_heap l' (u_next l) = Some c' \<and> ac_buff c' = [seg]
    \<and> u_ch l' = (if \<not> u_closed l \<and> length (u_ch l) < 32 then u_ch l @ [u_next l] else u_ch l)
    \<and> (\<forall>j. j \<noteq> u_next l \<longrightarrow> u_heap l' j = u_heap l j)"
proof (rule u_round_ok [OF inv, of a seg])
  fix l' k
  assume r: "u_round l (Inr (a, seg)) = Some l'" "u_inv (l', acc)" "u_conns l' a = Some k"
    "k = (case u_conns l a of Some i \<Rightarrow> i | None \<Rightarrow> u_next l)"
    "\<forall>j. j \<noteq> k \<longrightarrow> u_heap l' j = u_heap l j"
    "u_ch l' = (if u_conns l a = None \<and> \<not> u_closed l \<and> length (u_ch l) < 32 then u_ch l @ [k] else u_ch l)"
  assume "\<exists>c c'. u_heap l k = (if u_conns l a = None then None else Some c) \<and> u_heap l' k = Some c'
      \<and> (u_conns l a = None \<longrightarrow> c = newAcceptConn a) \<and> ac_closed c' = ac_closed c
      \<and> ac_buff c' = (if ac_closed c then ac_buff c
           else (if length (ac_buff c) = 128 then tl (ac_buff c) else ac_buff c) @ [seg])"
  then obtain d c' where d: "u_heap l k = (if u_conns l a = None then None else Some d)" "u_heap l' k = Some c'"
    "u_conns l a = None \<longrightarrow> d = newAcceptConn a" "ac_buff c' = (if ac_closed d then ac_buff d
           else (if length (ac_buff d) = 128 then tl (ac_buff d) else ac_buff d) @ [seg])" by (elim exE conjE)
  have k: "k = u_next l" using r(4) a by simp
  have "ac_buff c' = [seg]" using d(3,4) a by (simp add: newAcceptConn_def)
  with r d k a show ?thesis by (intro exI conjI) (assumption | simp)+
qed

lemma u_round_ex: "u_inv (l, acc) \<Longrightarrow> \<exists>l'. u_round l (Inr (a, seg)) = Some l' \<and> u_inv (l', acc)"
  by (rule u_round_ok) auto

text \<open>While the listener is closed a datagram never extends the accept queue.\<close>

lemma u_round_closed:
  "u_round l (Inr r) = Some l' \<Longrightarrow> u_closed l \<Longrightarrow> u_closed l' \<and> u_ch l' = u_ch l \<and> u_timers l' = u_timers l \<and> u_open l' = u_open l"
  by (cases r) (auto simp: u_round_def u_handle_def u_put_def Let_def bind_eq_Some_conv split: option.splits)

section \<open>Several workers\<close>

text \<open>
  The table is read and written under separate locks: when a second worker reads it for
  the same new client before the first has registered the client, both register one. The
  accept queue then offers two open connections with the same remote address, each with one
  of the two datagrams, and the table names only the second: the first is never served again.
\<close>

theorem udp_workers_split_client:
  assumes "u_inv (l, acc)" "u_conns l a = None" "\<not> u_closed l" "length (u_ch l) \<le> 30"
  shows "\<exists>l1 l2 i j c d. u_handle l a s1 (u_conns l a) = Some l1 \<and> u_handle l1 a s2 (u_conns l a) = Some l2
    \<and> i \<noteq> j \<and> u_ch l2 = u_ch l @ [i, j] \<and> u_conns l2 a = Some j
    \<and> u_heap l2 i = Some c \<and> u_heap l2 j = Some d \<and> ac_raddr c = a \<and> ac_raddr d = a
    \<and> \<not> ac_closed c \<and> \<not> ac_closed d \<and> ac_buff c = [s1] \<and> ac_buff d = [s2]"
proof -
  have "u_chclosed l = u_closed l" using assms(1) by (simp add: u_inv_def u_handles_def)
  then show ?thesis using assms(2-4)
    by (simp add: u_handle_def u_put_def Let_def newAcceptConn_def ac_put.simps)
qed

theorem udp_workers_split_client_witness:
  "\<exists>l1 l2 i j. u_handle u_Listen (AddrPort (Addr4 1 2 3 4) 5) [1] None = Some l1
    \<and> u_handle l1 (AddrPort (Addr4 1 2 3 4) 5) [2] None = Some l2 \<and> i \<noteq> j \<and> u_ch l2 = [i, j]"
proof -
  let ?a = "AddrPort (Addr4 1 2 3 4) 5"
  have f: "u_conns u_Listen ?a = None" "\<not> u_closed u_Listen" "length (u_ch u_Listen) \<le> 30" "u_ch u_Listen = []"
    by (simp_all add: u_Listen_def)
  show ?thesis
    using udp_workers_split_client [OF u_init_inv f(1-3), of "[1]" "[2]"] unfolding f append_Nil by blast
qed

section \<open>The accept queue\<close>

lemma u_round_ch:
  assumes "u_inv (l, acc)" "u_round l (Inr r) = Some l'" "i < u_next l" "i \<notin> set (u_ch l)"
  shows "i < u_next l' \<and> i \<notin> set (u_ch l')"
proof -
  obtain a seg where r: "r = (a, seg)" by (cases r)
  show ?thesis
  proof (cases "u_conns l a")
    case None
    with assms(2-4) r show ?thesis
      by (auto simp: u_round_def u_handle_def u_put_def Let_def bind_eq_Some_conv split: if_splits)
  next
    case (Some k)
    with assms(2-4) r show ?thesis by (auto simp: u_round_def u_handle_def u_put_def bind_eq_Some_conv)
  qed
qed

lemma u_close_keeps [simp]: "u_ch (u_close l) = u_ch l" "u_next (u_close l) = u_next l"
  by (simp_all add: u_close_def)

lemma u_step_lost:
  assumes "u_step (l, acc) (l', acc')" "u_inv (l, acc)" "i < u_next l" "i \<notin> set (u_ch l)" "i \<notin> acc"
  shows "i < u_next l' \<and> i \<notin> set (u_ch l') \<and> i \<notin> acc'"
  using assms
proof (cases rule: u_step.cases)
  case (recv r)
  with u_round_ch [OF assms(2) recv(3)] assms show ?thesis by simp
next
  case (fail err)
  with assms show ?thesis by (simp add: u_round_def u_handle_def) (metis u_close_keeps)
next
  case stop
  with assms show ?thesis by simp
next
  case (drop_conn j)
  with assms show ?thesis
    by (auto simp: ac_Close_def u_del_def Let_def bind_eq_Some_conv split: if_splits)
qed (auto simp: u_Accept_def split: list.splits if_splits)

lemma u_reach_lost:
  "u_reach s s' \<Longrightarrow> u_inv s \<Longrightarrow> i < u_next (fst s) \<Longrightarrow> i \<notin> set (u_ch (fst s)) \<union> snd s \<Longrightarrow>
    i < u_next (fst s') \<and> i \<notin> set (u_ch (fst s')) \<union> snd s'"
  unfolding u_reach_def
proof (induction rule: rtranclp_induct)
  case (step y z)
  have "u_inv y" using u_reach_inv [of s y] step by (simp add: u_reach_def)
  with u_step_lost [of "fst y" "snd y" "fst z" "snd z" i] step show ?case by simp
qed simp

text \<open>
  A client whose first datagram arrives while 32 connections wait to be accepted is lost:
  it is registered, so its later datagrams are queued for it, but no later run ever offers
  its connection to \<open>Accept\<close> or hands it to anyone.
\<close>

theorem udp_backlog_loses_client:
  assumes "u_inv (l, acc)" "length (u_ch l) = 32" "\<not> u_closed l" "u_conns l a = None"
  shows "\<exists>l1 i. u_round l (Inr (a, seg)) = Some l1 \<and> u_conns l1 a = Some i
    \<and> (\<forall>l2 acc2. u_reach (l1, acc) (l2, acc2) \<longrightarrow> i \<notin> set (u_ch l2) \<and> i \<notin> acc2)"
proof -
  define i where "i = u_next l"
  obtain l1 c' where r: "u_round l (Inr (a, seg)) = Some l1" "u_inv (l1, acc)" "u_conns l1 a = Some i"
    "i = u_next l" "u_ch l1 = u_ch l" "u_heap l1 i = Some c'" "u_heap l i = None"
    using u_round_new [OF assms(1,4), of seg, folded i_def] assms(2) i_def
    by (elim exE conjE) (simp split: if_splits)
  have "i < u_next l1" using r(2,6) by (auto simp: u_inv_def u_table_def conn_ok_def)
  moreover have "i \<notin> set (u_ch l1) \<union> acc"
  proof
    assume "i \<in> set (u_ch l1) \<union> acc"
    then have "\<exists>c. u_heap l i = Some c" using assms(1) r(5) by (auto simp: u_inv_def u_handles_def)
    with r(7) show False by simp
  qed
  ultimately have "i \<notin> set (u_ch l2) \<and> i \<notin> acc2" if "u_reach (l1, acc) (l2, acc2)" for l2 acc2
    using u_reach_lost [OF that r(2), of i] by simp
  with r(1,3) show ?thesis by blast
qed

definition w_conn :: "nat \<Rightarrow> acceptConn" where
  "w_conn i = newAcceptConn (AddrPort (Addr4 1 2 3 4) (of_nat i))"

definition w_full :: Listener where
  "w_full = \<lparr>u_open = True, u_conns = (\<lambda>a. if ap_addr a = Addr4 1 2 3 4 \<and> unat (ap_port a) < 32 then Some (unat (ap_port a)) else None),
     u_heap = (\<lambda>i. if i < 32 then Some (w_conn i) else None), u_next = 32, u_ch = [0..<32],
     u_chclosed = False, u_closed = False, u_timers = []\<rparr>"

lemma w_full_inv: "u_inv (w_full, {})"
proof -
  have fin: "finite (dom (u_conns w_full))"
  proof (rule finite_subset)
    show "dom (u_conns w_full) \<subseteq> range (AddrPort (Addr4 1 2 3 4))"
    proof
      fix x assume "x \<in> dom (u_conns w_full)"
      then have "ap_addr x = Addr4 1 2 3 4" by (auto simp: w_full_def split: if_splits)
      then have "x = AddrPort (Addr4 1 2 3 4) (ap_port x)" by (cases x) simp
      then show "x \<in> range (AddrPort (Addr4 1 2 3 4))" by (rule range_eqI)
    qed
    show "finite (range (AddrPort (Addr4 1 2 3 4)))" by simp
  qed
  have port: "AddrPort (Addr4 1 2 3 4) (of_nat (unat (ap_port a))) = a" if "ap_addr a = Addr4 1 2 3 4" for a
    using that by (cases a) simp
  have small: "unat (of_nat i :: u16) = i" if "i < 32" for i
    using that by (simp add: unat_of_nat take_bit_nat_eq_self)
  show ?thesis
    using fin port small
    by (auto simp: u_inv_def u_table_def u_handles_def conn_ok_def w_full_def w_conn_def newAcceptConn_def)
qed

theorem udp_backlog_loses_client_witness:
  "\<exists>l1 i. u_round w_full (Inr (AddrPort (Addr4 9 9 9 9) 7, [1])) = Some l1
    \<and> u_conns l1 (AddrPort (Addr4 9 9 9 9) 7) = Some i \<and> i \<notin> set (u_ch l1)"
proof -
  have "length (u_ch w_full) = 32" "\<not> u_closed w_full" "u_conns w_full (AddrPort (Addr4 9 9 9 9) 7) = None"
    by (simp_all add: w_full_def)
  from udp_backlog_loses_client [OF w_full_inv this, of "[1]"] obtain l1 i where
    l1: "u_round w_full (Inr (AddrPort (Addr4 9 9 9 9) 7, [1])) = Some l1"
      "u_conns l1 (AddrPort (Addr4 9 9 9 9) 7) = Some i"
      "\<forall>l2 acc2. u_reach (l1, {}) (l2, acc2) \<longrightarrow> i \<notin> set (u_ch l2) \<and> i \<notin> acc2"
    by (elim exE conjE)
  moreover have "u_reach (l1, {}) (l1, {})" by (simp add: u_reach_def)
  ultimately show ?thesis by blast
qed

section \<open>Closing\<close>

text \<open>
  The socket outlives the listener: once the listener is closed while no connection is
  waiting or in use, no run closes the socket, whatever datagrams arrive. The clients they
  register are never handed out, so nothing ever deletes the last of them.
\<close>

theorem udp_close_leaks_socket:
  assumes "u_reach (l, {}) (l', acc')" "u_inv (l, {})"
    and "u_closed l" "u_ch l = []" "u_timers l = []" "u_open l"
  shows "u_open l' \<and> u_closed l' \<and> u_ch l' = [] \<and> acc' = {}"
proof -
  have "(\<lambda>(l, acc). u_inv (l, acc) \<and> u_open l \<and> u_closed l \<and> u_ch l = [] \<and> u_timers l = [] \<and> acc = {}) s"
    if "u_reach (l, {}) s" for s
    using that unfolding u_reach_def
  proof (induction rule: rtranclp_induct)
    case base
    then show ?case using assms(2-6) by simp
  next
    case (step s s')
    obtain m acc m' acc2 where s: "s = (m, acc)" "s' = (m', acc2)" by (cases s; cases s')
    have i: "u_inv (m, {})" "acc = {}" "u_open m" "u_closed m" "u_ch m = []" "u_timers m = []"
      using step.IH s by auto
    have inv': "u_inv (m', acc2)" using u_step_inv [OF step.hyps(2)] i(1,2) s by simp
    from step.hyps(2) [unfolded s] show ?case
    proof (cases rule: u_step.cases)
      case (recv r)
      then show ?thesis using u_round_closed [of m r m'] i inv' by (simp add: s)
    next
      case (fail err)
      then show ?thesis using i inv' by (auto simp: s u_round_def u_handle_def u_close_def)
    next
      case (accept k)
      then show ?thesis using i by (simp add: u_Accept_def split: if_splits)
    qed (use i inv' in \<open>auto simp: s u_close_def\<close>)
  qed
  from this [OF assms(1)] show ?thesis by simp
qed

theorem udp_close_leaks_socket_witness:
  "\<exists>l' acc'. u_reach (u_close u_Listen, {}) (l', acc') \<and> u_open l' \<and> u_closed l'"
proof -
  have r: "u_reach (u_close u_Listen, {}) (u_close u_Listen, {})" by (simp add: u_reach_def)
  from udp_close_leaks_socket [OF r u_close_inv [OF u_init_inv]] r show ?thesis
    by (auto simp: u_close_def u_Listen_def)
qed

end
