(* ===== verification/Conn_Data.thy ===== *)
theory Conn_Data
  imports Peer Gvisor
begin

text \<open>
  The data path of a connection, \<open>conn/conn.go\<close> and \<open>conn/crypto.go\<close>: sealing and
  opening payloads, \<open>Recv\<close> and \<open>Send\<close> with the peer header, the outbound loop of the
  built-in TCP stack, and \<open>close\<close>. The cipher of the standard library is a parameter. What
  the connection does to the outside, in order, is the list of its events.
\<close>

section \<open>Encryption\<close>

text \<open>An AEAD: \<open>seal nonce plain\<close>, \<open>unseal nonce cipher\<close>; no additional data.\<close>

record aead =
  seal :: "bytes \<Rightarrow> bytes \<Rightarrow> bytes"
  unseal :: "bytes \<Rightarrow> bytes \<Rightarrow> bytes option"

record crypto =
  cr_c :: aead
  cr_headerSize :: nat

text \<open>\<open>aes.NewCipher\<close> and \<open>cipher.NewGCMWithNonceSize\<close> are the arguments.\<close>

definition newCrypto ::
  "(bytes \<Rightarrow> 'b result) \<Rightarrow> ('b \<Rightarrow> nat \<Rightarrow> aead result) \<Rightarrow> bytes \<Rightarrow> nat \<Rightarrow> crypto result" where
  "newCrypto aes gcm key headerSize =
     (case aes key of Inl err \<Rightarrow> Inl err
      | Inr block \<Rightarrow> (case gcm block headerSize of Inl err \<Rightarrow> Inl err
         | Inr c \<Rightarrow> Inr \<lparr>cr_c = c, cr_headerSize = headerSize\<rparr>))"

text \<open>\<open>Seal\<close> and \<open>Open\<close> work in place: the ciphertext is written over the plaintext and the
  16 bytes that \<open>AppendN\<close> made room for, which \<open>ReduceN\<close> hides while the slice is taken
  and the final \<open>SetData\<close> shows.\<close>

definition encrypt :: "'p packet_api \<Rightarrow> crypto \<Rightarrow> 'p \<Rightarrow> 'p option" where
  "encrypt P c seg =
     (let seg = p_AppendN P seg 16;
          b = p_bytes P (p_ReduceN P seg 16);
          i = cr_headerSize c in
      if i \<le> length b
      then Some (p_store P seg (take i b @ seal (cr_c c) (take i b) (drop i b)))
      else None)"

text \<open>A failed \<open>Open\<close> leaves the packet's contents undefined, so an error carries none.\<close>

definition decrypt :: "'p packet_api \<Rightarrow> crypto \<Rightarrow> 'p \<Rightarrow> 'p result" where
  "decrypt P c seg =
     (let b = p_bytes P seg in
      if length b < cr_headerSize c + 16 then Inl ErrShortPacket
      else
        (let i = cr_headerSize c in
         case unseal (cr_c c) (take i b) (drop i b) of
           None \<Rightarrow> Inl (ErrExt 1)
         | Some x \<Rightarrow> Inr (p_SetData P (p_store P seg (take i b @ x @ drop (i + length x) b)) (length b - 16))))"

text \<open>What the code relies on: the tag has 16 bytes, and exactly the sealed texts open.\<close>

definition aead_laws :: "aead \<Rightarrow> bool" where
  "aead_laws A \<longleftrightarrow> (\<forall>n p. length (seal A n p) = length p + 16)
     \<and> (\<forall>n c p. unseal A n c = Some p \<longleftrightarrow> c = seal A n p)"

definition tagged :: aead where
  "tagged = \<lparr>seal = (\<lambda>n p. p @ replicate 15 0 @ [sum_list p + sum_list n]),
     unseal = (\<lambda>n c. let p = take (length c - 16) c in
       if 16 \<le> length c \<and> c = p @ replicate 15 0 @ [sum_list p + sum_list n] then Some p else None)\<rparr>"

lemma tagged_laws: "aead_laws tagged"
  by (auto simp: aead_laws_def tagged_def Let_def)

lemma encrypt_ok:
  assumes P: "packet_laws P" and A: "aead_laws (cr_c c)" and b: "p_bytes P seg = b" "cr_headerSize c \<le> length b"
  shows "\<exists>seg'. encrypt P c seg = Some seg'
    \<and> p_bytes P seg' = take (cr_headerSize c) b @ seal (cr_c c) (take (cr_headerSize c) b) (drop (cr_headerSize c) b)"
proof -
  obtain xs where xs: "length xs = 16" "p_bytes P (p_AppendN P seg 16) = b @ xs"
    using packet_lawsD(8) [OF P, of 16 seg] b(1) by blast
  have r: "p_bytes P (p_ReduceN P (p_AppendN P seg 16) 16) = b"
    using packet_lawsD(9) [OF P, of 16 "p_AppendN P seg 16"] xs by simp
  let ?d = "take (cr_headerSize c) b @ seal (cr_c c) (take (cr_headerSize c) b) (drop (cr_headerSize c) b)"
  have "length ?d = length (p_bytes P (p_AppendN P seg 16))" using A b(2) xs by (simp add: aead_laws_def)
  then have "p_bytes P (p_store P (p_AppendN P seg 16) ?d) = ?d" by (rule packet_lawsD(1) [OF P])
  with r b(2) show ?thesis by (simp add: encrypt_def Let_def)
qed

lemma decrypt_ok:
  assumes P: "packet_laws P" and A: "aead_laws (cr_c c)"
    and b: "p_bytes P seg = h @ seal (cr_c c) h x" "length h = cr_headerSize c"
  shows "\<exists>seg'. decrypt P c seg = Inr seg' \<and> p_bytes P seg' = h @ x"
proof -
  let ?b = "p_bytes P seg"
  have l: "length ?b = length h + length x + 16" using A b by (simp add: aead_laws_def)
  have o: "unseal (cr_c c) (take (length h) ?b) (drop (length h) ?b) = Some x"
    using A b(1) by (simp add: aead_laws_def)
  let ?d = "take (length h) ?b @ x @ drop (length h + length x) ?b"
  have d: "length ?d = length ?b" using l by simp
  have "p_bytes P (p_SetData P (p_store P seg ?d) (length ?b - 16)) = take (length ?b - 16) ?d"
    using packet_lawsD(4) [OF P, of "length ?b - 16" "p_store P seg ?d"] packet_lawsD(1) [OF P d] d l by simp
  also have "\<dots> = h @ x" using l b(1) by simp
  finally show ?thesis using l o b(2) by (simp add: decrypt_def Let_def)
qed

lemma decrypt_sealed:
  assumes P: "packet_laws P" and A: "aead_laws (cr_c c)" and r: "decrypt P c seg = Inr seg'"
  shows "\<exists>h x. p_bytes P seg = h @ seal (cr_c c) h x \<and> length h = cr_headerSize c \<and> p_bytes P seg' = h @ x"
proof -
  let ?b = "p_bytes P seg" and ?i = "cr_headerSize c"
  have l: "cr_headerSize c + 16 \<le> length ?b" using r by (auto simp: decrypt_def Let_def split: if_splits)
  obtain x where x: "unseal (cr_c c) (take ?i ?b) (drop ?i ?b) = Some x"
    using r l by (auto simp: decrypt_def Let_def split: option.splits)
  then have "drop ?i ?b = seal (cr_c c) (take ?i ?b) x" using A by (simp add: aead_laws_def)
  then have b: "?b = take ?i ?b @ seal (cr_c c) (take ?i ?b) x" by (metis append_take_drop_id)
  have len: "length (take ?i ?b) = ?i" using l by simp
  from decrypt_ok [OF P A b len] r have "p_bytes P seg' = take ?i ?b @ x" by auto
  with b len show ?thesis by blast
qed

section \<open>The connection\<close>

datatype role = Client | Server

fun role_String :: "role \<Rightarrow> string" where
  "role_String Client = ''client''"
| "role_String Server = ''server''"

datatype conn_ev = EvInbound bytes | EvWrote bytes | EvCloseBuiltin | EvCloseEp | EvCloseConn

text \<open>The fields the data path uses; \<open>c_queue\<close> holds the packets that came in during the
  handshake, \<open>c_builtin\<close> says whether the built-in connection is set.\<close>

record conn =
  c_role :: role
  c_natPort :: u16
  c_builtin :: bool
  c_crypto :: "crypto option"
  c_queue :: "bytes list"
  c_closed :: bool
  c_events :: "conn_ev list"

definition newConn :: "role \<Rightarrow> u16 \<Rightarrow> u16 \<Rightarrow> conn" where
  "newConn role lport rport = \<lparr>c_role = role, c_natPort = (if role = Client then lport else rport),
     c_builtin = False, c_crypto = None, c_queue = [], c_closed = False, c_events = []\<rparr>"

definition c_emit :: "conn_ev \<Rightarrow> conn \<Rightarrow> conn" where
  "c_emit e c = c\<lparr>c_events := c_events c @ [e]\<rparr>"

text \<open>The body runs once, whoever calls \<open>close\<close> first.\<close>

definition c_close :: "conn \<Rightarrow> conn" where
  "c_close c =
     (if c_closed c then c
      else
        (let c = c\<lparr>c_closed := True\<rparr>;
             c = (if c_builtin c then c_emit EvCloseBuiltin c else c);
             c = c_emit EvCloseEp c in
         c_emit EvCloseConn c))"

text \<open>\<open>inboundBuitinPacket\<close>: restores the port that a NAT changed and hands the segment to
  the built-in stack.\<close>

definition inboundBuitinPacket :: "gvisor \<Rightarrow> 'p packet_api \<Rightarrow> conn \<Rightarrow> 'p \<Rightarrow> (conn \<times> 'p) option" where
  "inboundBuitinPacket G P c pkt = do {
     b \<leftarrow> (if c_role c = Client then g_SetDestinationPortUpd G (p_bytes P pkt) (c_natPort c)
           else g_SetSourcePortUpd G (p_bytes P pkt) (c_natPort c));
     Some (c_emit (EvInbound b) c, p_store P pkt b)
   }"

lemma inbound_queue: "inboundBuitinPacket G P c pkt = Some (c', pkt') \<Longrightarrow> c_queue c' = c_queue c"
  by (auto simp: inboundBuitinPacket_def c_emit_def bind_eq_Some_conv)

section \<open>Receiving\<close>

text \<open>The argument \<open>env\<close> lists what the next reads of the datagram connection return; a read
  that finds no more of them has not returned.\<close>

type_synonym reads = "bytes result list"

datatype recv_res = RecvBlocked | RecvOk | RecvErr go_error | RecvClosed go_error

definition c_recv ::
  "'p packet_api \<Rightarrow> conn \<Rightarrow> 'p \<Rightarrow> reads \<Rightarrow> (conn \<times> 'p \<times> go_error option \<times> reads) option" where
  "c_recv P c pkt env =
     (case c_queue c of
        q # qs \<Rightarrow>
          (let (b, n) = go_copy (p_bytes P pkt) q;
               pkt = p_SetData P (p_store P pkt b) n in
           Some (c\<lparr>c_queue := qs\<rparr>, pkt, if n \<noteq> length q then Some (ErrShortBuff (length q) n) else None, env))
      | [] \<Rightarrow>
          (case env of
             [] \<Rightarrow> None
           | Inl err # env \<Rightarrow> Some (c, pkt, Some err, env)
           | Inr d # env \<Rightarrow>
               (let (b, n) = go_copy (p_bytes P pkt) d in
                Some (c, p_SetData P (p_store P pkt b) n, None, env))))"

lemma c_recv_less: "c_recv P c pkt env = Some (c', pkt', e, env') \<Longrightarrow>
    length (c_queue c') + length env' < length (c_queue c) + length env"
  by (auto simp: c_recv_def Let_def split: list.splits sum.splits prod.splits)

text \<open>The loop of \<open>Recv\<close>; \<open>None\<close> is a panic.\<close>

function recv_loop :: "gvisor \<Rightarrow> 'p packet_api \<Rightarrow> nat \<Rightarrow> nat \<Rightarrow> conn \<Rightarrow> peer \<Rightarrow> 'p \<Rightarrow> reads
    \<Rightarrow> (conn \<times> peer \<times> 'p \<times> recv_res \<times> reads) option" where
  "recv_loop G P head data c peer pkt env =
     (case c_recv P c (p_Sets P pkt head data) env of
        None \<Rightarrow> Some (c, peer, pkt, RecvBlocked, env)
      | Some (c1, pkt, Some err, env1) \<Rightarrow> Some (c_close c1, peer, pkt, RecvClosed err, env1)
      | Some (c1, pkt, None, env1) \<Rightarrow>
          (case ds_Decode P peer pkt of
             (peer, pkt, Some err) \<Rightarrow> Some (c1, peer, pkt, RecvErr err, env1)
           | (peer, pkt, None) \<Rightarrow>
               if ds_IsBuiltin peer then
                 (case inboundBuitinPacket G P c1 pkt of
                    None \<Rightarrow> None
                  | Some (c2, pkt) \<Rightarrow>
                      recv_loop G P head data c2 peer pkt env1)
               else
                 (case c_crypto c1 of
                    None \<Rightarrow> Some (c1, peer, pkt, RecvOk, env1)
                  | Some k \<Rightarrow>
                      (case decrypt P k (p_AttachN P pkt ds_Overhead) of
                         Inl err \<Rightarrow> Some (c1, peer, pkt, RecvErr err, env1)
                       | Inr pkt \<Rightarrow> Some (c1, peer, p_DetachN P pkt ds_Overhead, RecvOk, env1)))))"
  by pat_completeness auto
termination
  by (relation "measure (\<lambda>(G, P, head, data, c, peer, pkt, env). length (c_queue c) + length env)")
    (auto dest!: c_recv_less simp: inbound_queue)

declare recv_loop.simps [simp del]

text \<open>\<open>Recv\<close>, \<open>Send\<close>: the argument \<open>hs\<close> is what the call of \<open>handshake\<close> did, \<open>None\<close> while
  it has not returned.\<close>

definition Recv :: "gvisor \<Rightarrow> 'p packet_api \<Rightarrow> go_error option option \<Rightarrow> conn \<Rightarrow> peer \<Rightarrow> 'p \<Rightarrow> reads
    \<Rightarrow> (conn \<times> peer \<times> 'p \<times> recv_res \<times> reads) option" where
  "Recv G P hs c peer pkt env =
     (case hs of
        None \<Rightarrow> Some (c, peer, pkt, RecvBlocked, env)
      | Some (Some err) \<Rightarrow> Some (c_close c, peer, pkt, RecvClosed err, env)
      | Some None \<Rightarrow> recv_loop G P (p_head P pkt) (p_data P pkt) c peer pkt env)"

text \<open>\<open>BuiltinConn\<close> hands out what the handshake made; no value while the handshake lasts.\<close>

definition BuiltinConn :: "go_error option option \<Rightarrow> conn \<Rightarrow> (conn \<times> bool result) option" where
  "BuiltinConn hs c =
     map_option (\<lambda>r. case r of Some err \<Rightarrow> (c_close c, Inl err) | None \<Rightarrow> (c, Inr (c_builtin c))) hs"

section \<open>Sending\<close>

datatype send_res = SendBlocked | SendOk | SendClosed go_error

definition Send :: "'p packet_api \<Rightarrow> go_error option option \<Rightarrow> conn \<Rightarrow> peer \<Rightarrow> 'p \<Rightarrow> go_error option
    \<Rightarrow> (conn \<times> 'p \<times> send_res) option" where
  "Send P hs c peer pkt werr =
     (case hs of
        None \<Rightarrow> Some (c, pkt, SendBlocked)
      | Some (Some err) \<Rightarrow> Some (c_close c, pkt, SendClosed err)
      | Some None \<Rightarrow>
          (case ds_Encode P peer pkt of
             (pkt, Some err) \<Rightarrow> Some (c_close c, pkt, SendClosed err)
           | (pkt, None) \<Rightarrow> do {
               pkt \<leftarrow> (if \<not> ds_IsBuiltin peer then
                         (case c_crypto c of Some k \<Rightarrow> encrypt P k pkt | None \<Rightarrow> Some pkt)
                       else Some pkt);
               case werr of
                 Some err \<Rightarrow> Some (c_close c, pkt, SendClosed err)
               | None \<Rightarrow> Some (c_emit (EvWrote (p_bytes P pkt)) c, pkt, SendOk)
             }))"

text \<open>\<open>outboundService\<close>: what the endpoint's \<open>Outbound\<close> and the writes return, in order.
  The loop ends with the error that closed the connection.\<close>

fun outbound_loop :: "'p packet_api \<Rightarrow> conn \<Rightarrow> ('p result \<times> go_error option) list \<Rightarrow> conn \<times> go_error option" where
  "outbound_loop P c [] = (c, None)"
| "outbound_loop P c ((Inl err, w) # env) = (c_close c, Some err)"
| "outbound_loop P c ((Inr tcp, w) # env) =
     (case ds_Encode P (ds_Builtin None) tcp of
        (tcp, Some err) \<Rightarrow> (c_close c, Some err)
      | (tcp, None) \<Rightarrow>
          (case w of
             Some err \<Rightarrow> (c_close c, Some err)
           | None \<Rightarrow> outbound_loop P (c_emit (EvWrote (p_bytes P tcp)) c) env))"

section \<open>One datagram\<close>

lemma ds_wire_length: "ds_Valid (Some s) \<Longrightarrow> length (ds_wire s) = 5"
  using ds.wire_length by (simp add: ds_Overhead_def)

lemma ucast_u32_u8: "ucast (ucast (x :: u8) :: u32) = x"
  by (rule bit_word_eqI) (auto simp: bit_simps dest: bit_imp_le_length)

lemma ds_parse_wire: "ds_parse b = Some s \<Longrightarrow> take 5 b = ds_wire s \<and> 5 \<le> length b"
proof -
  assume p: "ds_parse b = Some s"
  then have l: "5 \<le> length b" by (auto simp: ds_parse_def split: if_splits)
  then obtain x0 x1 x2 x3 x4 r where b: "b = x0 # x1 # x2 # x3 # x4 # r"
    by (auto simp: numeral_eq_Suc Suc_le_length_iff)
  from p l show ?thesis by (auto simp: ds_parse_def ds_wire_def b ucast_u32_u8)
qed

lemma recv_fit:
  assumes P: "packet_laws P" and fit: "length d \<le> length (p_bytes P pkt)" and q: "c_queue c = []"
  shows "\<exists>pkt'. c_recv P c pkt (Inr d # env) = Some (c, pkt', None, env) \<and> p_bytes P pkt' = d"
proof -
  let ?b = "d @ drop (length d) (p_bytes P pkt)"
  have "p_bytes P (p_store P pkt ?b) = ?b" using fit by (intro packet_lawsD(1) [OF P]) simp
  then have "p_bytes P (p_SetData P (p_store P pkt ?b) (length d)) = d"
    using packet_lawsD(4) [OF P, of "length d" "p_store P pkt ?b"] by simp
  then show ?thesis using q fit by (simp add: c_recv_def go_copy_def Let_def)
qed

text \<open>A non-builtin datagram, from the header on.\<close>

lemma recv_data:
  assumes P: "packet_laws P" "reveal_law P" and q: "c_queue c = []"
    and s: "ds_Valid (Some s)" "\<not> ds_IsBuiltin (Some s)"
    and k: "\<forall>k. c_crypto c = Some k \<longrightarrow> aead_laws (cr_c k) \<and> cr_headerSize k = 5"
    and d: "d = ds_wire s @ (case c_crypto c of None \<Rightarrow> x | Some k \<Rightarrow> seal (cr_c k) (ds_wire s) x)"
    and fit: "length d \<le> length (p_bytes P (p_Sets P pkt head data))"
  shows "\<exists>pkt'. recv_loop G P head data c (Some r) pkt (Inr d # env) = Some (c, Some s, pkt', RecvOk, env)
    \<and> p_bytes P pkt' = x"
proof -
  obtain p1 where p1: "c_recv P c (p_Sets P pkt head data) (Inr d # env) = Some (c, p1, None, env)" "p_bytes P p1 = d"
    using recv_fit [OF P(1) fit q] by blast
  have w: "length (ds_wire s) = 5" by (rule ds_wire_length [OF s(1)])
  have ps: "ds_parse d = Some s" unfolding d by (rule ds.parse_wire [OF s(1)])
  define p2 where "p2 = p_SetHead P p1 (p_head P p1 + 5)"
  have dec: "ds_Decode P (Some r) p1 = (Some s, p2, None)"
    using ps p1(2) by (auto simp: ds_Decode_def ds_parse_def Let_def p2_def split: if_splits)
  have b2: "p_bytes P p2 = drop 5 d" and rv: "p_bytes P (p_AttachN P p2 5) = d"
    using packet_lawsD(3) [OF P(1), of 5 p1] P(2) p1(2) w d by (simp_all add: p2_def reveal_law_def)
  show ?thesis
  proof (cases "c_crypto c")
    case None
    with p1 dec s b2 w d show ?thesis by (simp add: recv_loop.simps [of G P head data c])
  next
    case (Some key)
    then obtain p3 where p3: "decrypt P key (p_AttachN P p2 5) = Inr p3" "p_bytes P p3 = ds_wire s @ x"
      using decrypt_ok [OF P(1), of key "p_AttachN P p2 5" "ds_wire s" x] k w d rv by auto
    have "p_bytes P (p_DetachN P p3 5) = x" using packet_lawsD(7) [OF P(1), of 5 p3] p3(2) w by simp
    with Some p1 dec s p3 show ?thesis
      by (simp add: recv_loop.simps [of G P head data c] ds_Overhead_def)
  qed
qed

lemma send_data:
  assumes P: "packet_laws P" and s: "ds_Valid (Some s)" "\<not> ds_IsBuiltin (Some s)"
    and k: "\<forall>k. c_crypto c = Some k \<longrightarrow> aead_laws (cr_c k) \<and> cr_headerSize k = 5"
  shows "\<exists>pkt'. Send P (Some None) c (Some s) pkt None = Some (c_emit (EvWrote (ds_wire s @
    (case c_crypto c of None \<Rightarrow> p_bytes P pkt | Some k \<Rightarrow> seal (cr_c k) (ds_wire s) (p_bytes P pkt)))) c, pkt', SendOk)"
proof -
  obtain p1 where p1: "ds_Encode P (Some s) pkt = (p1, None)" "p_bytes P p1 = ds_wire s @ p_bytes P pkt"
    using ds_Encode_ok [OF P s(1)] by blast
  have w: "length (ds_wire s) = 5" by (rule ds_wire_length [OF s(1)])
  show ?thesis
  proof (cases "c_crypto c")
    case None
    with p1 s show ?thesis by (simp add: Send_def)
  next
    case (Some key)
    then have "\<exists>p2. encrypt P key p1 = Some p2
        \<and> p_bytes P p2 = ds_wire s @ seal (cr_c key) (ds_wire s) (p_bytes P pkt)"
      using encrypt_ok [OF P, of key p1 "ds_wire s @ p_bytes P pkt"] k p1(2) w by simp
    with Some p1 s show ?thesis by (auto simp: Send_def)
  qed
qed

section \<open>Authenticity\<close>

text \<open>The front part of a datagram that was queued or read, all that a buffer takes.\<close>

definition arrived :: "conn \<Rightarrow> reads \<Rightarrow> bytes \<Rightarrow> bool" where
  "arrived c env b \<longleftrightarrow> (\<exists>d n. (d \<in> set (c_queue c) \<or> Inr d \<in> set env) \<and> b = take n d)"

lemma arrived_mono: "arrived c' env' b \<Longrightarrow> set (c_queue c') \<subseteq> set (c_queue c) \<Longrightarrow> set env' \<subseteq> set env \<Longrightarrow> arrived c env b"
  unfolding arrived_def by blast

lemma c_recv_ok:
  assumes P: "packet_laws P" and r: "c_recv P c pkt env = Some (c', pkt', None, env')"
  shows "c_crypto c' = c_crypto c \<and> set (c_queue c') \<subseteq> set (c_queue c) \<and> set env' \<subseteq> set env
    \<and> arrived c env (p_bytes P pkt')"
proof -
  have copy: "p_bytes P (p_SetData P (p_store P pkt (fst (go_copy (p_bytes P pkt) d))) (snd (go_copy (p_bytes P pkt) d)))
      = take (length (p_bytes P pkt)) d" for d
  proof -
    let ?g = "go_copy (p_bytes P pkt) d"
    have "p_bytes P (p_store P pkt (fst ?g)) = fst ?g" by (rule packet_lawsD(1) [OF P]) simp
    then show ?thesis using packet_lawsD(4) [OF P, of "snd ?g" "p_store P pkt (fst ?g)"]
      by (simp add: go_copy_def Let_def min_def)
  qed
  show ?thesis
  proof (cases "c_queue c")
    case (Cons q qs)
    then have "arrived c env (take (length (p_bytes P pkt)) q)" unfolding arrived_def by auto
    with Cons r copy [of q] show ?thesis
      by (auto simp: c_recv_def Let_def case_prod_unfold split: if_splits)
  next
    case Nil
    then obtain e env1 where e: "env = e # env1" using r by (auto simp: c_recv_def split: list.splits)
    then obtain d where "e = Inr d" using r Nil by (cases e) (auto simp: c_recv_def)
    then have "arrived c env (take (length (p_bytes P pkt)) d)" using e unfolding arrived_def by auto
    with r copy [of d] e Nil \<open>e = Inr d\<close> show ?thesis by (auto simp: c_recv_def Let_def case_prod_unfold)
  qed
qed

lemma ds_Decode_parse: "ds_Decode P q pkt = (Some s, pkt', None) \<Longrightarrow>
    ds_parse (p_bytes P pkt) = Some s \<and> pkt' = p_SetHead P pkt (p_head P pkt + 5)"
  by (cases s; cases "the q") (auto simp: ds_Decode_def ds_parse_def Let_def split: option.splits if_splits)

lemma inbound_crypto: "inboundBuitinPacket G P c pkt = Some (c', pkt') \<Longrightarrow> c_crypto c' = c_crypto c"
  by (auto simp: inboundBuitinPacket_def c_emit_def bind_eq_Some_conv)

lemma recv_loop_sealed:
  assumes P: "packet_laws P" "reveal_law P" and A: "aead_laws (cr_c k)" "cr_headerSize k = 5"
  shows "recv_loop G P head data c peer pkt env = Some (c', Some s, pkt', RecvOk, env') \<Longrightarrow> c_crypto c = Some k \<Longrightarrow>
    arrived c env (ds_wire s @ seal (cr_c k) (ds_wire s) (p_bytes P pkt'))"
proof (induction "length (c_queue c) + length env" arbitrary: c peer pkt env rule: less_induct)
  case less
  obtain c1 p1 e env1 where r: "c_recv P c (p_Sets P pkt head data) env = Some (c1, p1, e, env1)"
    using less.prems(1) by (cases "c_recv P c (p_Sets P pkt head data) env") (auto simp: recv_loop.simps [of G P head data c])
  have e: "e = None" using less.prems(1) r by (cases e) (auto simp: recv_loop.simps [of G P head data c])
  note ok = c_recv_ok [OF P(1) r [unfolded e]] and lt = c_recv_less [OF r]
  obtain q2 p2 e2 where d: "ds_Decode P peer p1 = (q2, p2, e2)" by (cases "ds_Decode P peer p1")
  have e2: "e2 = None" using less.prems(1) r e d by (cases e2) (auto simp: recv_loop.simps [of G P head data c])
  show ?case
  proof (cases "ds_IsBuiltin q2")
    case True
    obtain c2 p3 where i: "inboundBuitinPacket G P c1 p2 = Some (c2, p3)"
      using less.prems(1) r e d e2 True
      by (cases "inboundBuitinPacket G P c1 p2") (auto simp: recv_loop.simps [of G P head data c])
    have go: "recv_loop G P head data c2 q2 p3 env1 = Some (c', Some s, pkt', RecvOk, env')"
      using less.prems(1) r e d e2 True i by (simp add: recv_loop.simps [of G P head data c])
    have k2: "c_crypto c2 = Some k" "c_queue c2 = c_queue c1"
      using inbound_crypto [OF i] inbound_queue [OF i] ok less.prems(2) by simp_all
    have "arrived c2 env1 (ds_wire s @ seal (cr_c k) (ds_wire s) (p_bytes P pkt'))"
      by (rule less.hyps [OF _ go k2(1)]) (use lt k2(2) in simp)
    then show ?thesis by (rule arrived_mono) (use ok k2(2) in simp_all)
  next
    case False
    have k: "c_crypto c1 = Some k" using ok less.prems(2) by simp
    obtain p3 where p3: "decrypt P k (p_AttachN P p2 5) = Inr p3" "q2 = Some s" "pkt' = p_DetachN P p3 5"
      using less.prems(1) r e d e2 False k
      by (cases "decrypt P k (p_AttachN P p2 5)") (auto simp: recv_loop.simps [of G P head data c] ds_Overhead_def)
    have ps: "ds_parse (p_bytes P p1) = Some s" "p2 = p_SetHead P p1 (p_head P p1 + 5)"
      using ds_Decode_parse [of P peer p1 s p2] d e2 p3(2) by simp_all
    have w: "take 5 (p_bytes P p1) = ds_wire s" "5 \<le> length (p_bytes P p1)" using ds_parse_wire [OF ps(1)] by simp_all
    have rv: "p_bytes P (p_AttachN P p2 5) = p_bytes P p1" using P(2) w(2) ps(2) by (simp add: reveal_law_def)
    obtain h x where h: "p_bytes P p1 = h @ seal (cr_c k) h x" "length h = 5" "p_bytes P p3 = h @ x"
      using decrypt_sealed [OF P(1) A(1) p3(1)] rv A(2) by auto
    have "h = ds_wire s" using w(1) h(1,2) by simp
    moreover have "p_bytes P pkt' = x" using packet_lawsD(7) [OF P(1), of 5 p3] h(2,3) p3(3) by simp
    ultimately show ?thesis using ok h(1) by auto
  qed
qed

end
