(* ===== verification/Conn_Handshake.thy ===== *)
theory Conn_Handshake
  imports Conn_Data
begin

text \<open>
  The handshake of \<open>conn/conn.go\<close> as a step relation: any number of callers of
  \<open>handshake\<close> (through \<open>BuiltinConn\<close>, \<open>Recv\<close> and \<open>Send\<close>), the goroutine
  \<open>handshakeInboundService\<close> that the first of them starts, and the peers. Dialing, TLS and
  the key exchange have any outcome the environment chooses, an expired context among them.
\<close>

section \<open>State\<close>

text \<open>Where a caller is: before the test-and-set, in one of the calls of the winner, at the
  deferred receive from \<open>retch\<close> with its result, returned; or waiting for the notification
  and returned from that.\<close>

datatype caller =
    HStart | HDial | HTls | HKey | HFin | HDrain "go_error option" | HRet "go_error option"
  | HWait | HBack

datatype service = SvIdle | SvSelect | SvRead | SvEnd

record handshaking =
  hs_tls :: bool
  hs_conn :: conn
  hs_flag :: bool
  hs_notified :: bool
  hs_retch :: bool
  hs_caller :: "nat \<Rightarrow> caller"
  hs_service :: service

definition hs_init :: "bool \<Rightarrow> conn \<Rightarrow> handshaking" where
  "hs_init tls c = \<lparr>hs_tls = tls, hs_conn = c, hs_flag = False, hs_notified = False, hs_retch = False,
     hs_caller = (\<lambda>_. HStart), hs_service = SvIdle\<rparr>"

section \<open>The inbound service\<close>

text \<open>One datagram: whether the service goes on; \<open>None\<close> is a panic.\<close>

definition hs_inbound :: "gvisor \<Rightarrow> 'p packet_api \<Rightarrow> 'p \<Rightarrow> conn \<Rightarrow> bytes \<Rightarrow> (conn \<times> bool) option" where
  "hs_inbound G P tcp c d =
     (let tcp = p_Sets P tcp 64 0xffff;
          (b, n) = go_copy (p_bytes P tcp) d;
          tcp = p_SetData P (p_store P tcp b) n in
      case ds_Reset (ds_Builtin None) 0 ipv4_unspecified of
        None \<Rightarrow> None
      | Some peer \<Rightarrow>
          (case ds_Decode P peer tcp of
             (peer, tcp, Some err) \<Rightarrow> Some (c_close c, False)
           | (peer, tcp, None) \<Rightarrow>
               if ds_IsBuiltin peer then map_option (\<lambda>(c, _). (c, True)) (inboundBuitinPacket G P c tcp)
               else if length (c_queue c) < 8
               then Some (c\<lparr>c_queue := c_queue c @ [p_bytes P (p_AttachN P tcp ds_Overhead)]\<rparr>, True)
               else Some (c, True)))"

section \<open>Steps\<close>

definition at :: "handshaking \<Rightarrow> nat \<Rightarrow> caller \<Rightarrow> handshaking" where
  "at s i pc = s\<lparr>hs_caller := (hs_caller s)(i := pc)\<rparr>"

inductive hs_step :: "gvisor \<Rightarrow> 'p packet_api \<Rightarrow> (bytes \<Rightarrow> 'b result) \<Rightarrow> ('b \<Rightarrow> nat \<Rightarrow> aead result) \<Rightarrow>
    handshaking \<Rightarrow> handshaking \<Rightarrow> bool"
  for G P aes gcm where
  win: "hs_caller s i = HStart \<Longrightarrow> \<not> hs_flag s \<Longrightarrow>
    hs_step G P aes gcm s (at (s\<lparr>hs_flag := True, hs_service := SvSelect\<rparr>) i HDial)"
| lose: "hs_caller s i = HStart \<Longrightarrow> hs_flag s \<Longrightarrow> hs_step G P aes gcm s (at s i HWait)"
| wake: "hs_caller s i = HWait \<Longrightarrow> hs_notified s \<Longrightarrow> hs_step G P aes gcm s (at s i HBack)"
| dial_err: "hs_caller s i = HDial \<Longrightarrow> hs_step G P aes gcm s (at s i (HDrain (Some err)))"
| dial_tls: "hs_caller s i = HDial \<Longrightarrow> hs_tls s \<Longrightarrow> hs_step G P aes gcm s (at s i HTls)"
| dial_plain: "hs_caller s i = HDial \<Longrightarrow> \<not> hs_tls s \<Longrightarrow>
    hs_step G P aes gcm s (at (s\<lparr>hs_conn := (hs_conn s)\<lparr>c_builtin := True\<rparr>\<rparr>) i HFin)"
| tls_err: "hs_caller s i = HTls \<Longrightarrow> hs_step G P aes gcm s (at s i (HDrain (Some err)))"
| tls_ok: "hs_caller s i = HTls \<Longrightarrow> hs_step G P aes gcm s (at s i HKey)"
| key_err: "hs_caller s i = HKey \<Longrightarrow> hs_step G P aes gcm s (at s i (HDrain (Some err)))"
| key_bad: "hs_caller s i = HKey \<Longrightarrow> length key = 16 \<Longrightarrow> newCrypto aes gcm key ds_Overhead = Inl err \<Longrightarrow>
    hs_step G P aes gcm s (at (s\<lparr>hs_conn := (hs_conn s)\<lparr>c_crypto := None\<rparr>\<rparr>) i (HDrain (Some err)))"
| key_ok: "hs_caller s i = HKey \<Longrightarrow> length key = 16 \<Longrightarrow> newCrypto aes gcm key ds_Overhead = Inr k \<Longrightarrow>
    hs_step G P aes gcm s (at (s\<lparr>hs_conn := (hs_conn s)\<lparr>c_crypto := Some k, c_builtin := True\<rparr>\<rparr>) i HFin)"
| fin: "hs_caller s i = HFin \<Longrightarrow> hs_step G P aes gcm s (at (s\<lparr>hs_notified := True\<rparr>) i (HDrain None))"
| drained: "hs_caller s i = HDrain r \<Longrightarrow> hs_retch s \<Longrightarrow> hs_step G P aes gcm s (at s i (HRet r))"
| sv_stop: "hs_service s = SvSelect \<Longrightarrow> hs_notified s \<Longrightarrow>
    hs_step G P aes gcm s (s\<lparr>hs_service := SvEnd, hs_retch := True\<rparr>)"
| sv_next: "hs_service s = SvSelect \<Longrightarrow> \<not> hs_notified s \<Longrightarrow> hs_step G P aes gcm s (s\<lparr>hs_service := SvRead\<rparr>)"
| sv_err: "hs_service s = SvRead \<Longrightarrow>
    hs_step G P aes gcm s (s\<lparr>hs_service := SvEnd, hs_retch := True, hs_conn := c_close (hs_conn s)\<rparr>)"
| sv_read: "hs_service s = SvRead \<Longrightarrow> \<not> c_closed (hs_conn s) \<Longrightarrow> hs_inbound G P tcp (hs_conn s) d = Some (c, True) \<Longrightarrow>
    hs_step G P aes gcm s (s\<lparr>hs_service := SvSelect, hs_conn := c\<rparr>)"
| sv_decode: "hs_service s = SvRead \<Longrightarrow> \<not> c_closed (hs_conn s) \<Longrightarrow> hs_inbound G P tcp (hs_conn s) d = Some (c, False) \<Longrightarrow>
    hs_step G P aes gcm s (s\<lparr>hs_service := SvEnd, hs_retch := True, hs_conn := c\<rparr>)"
| user_close: "hs_step G P aes gcm s (s\<lparr>hs_conn := c_close (hs_conn s)\<rparr>)"

definition hs_reach :: "gvisor \<Rightarrow> 'p packet_api \<Rightarrow> (bytes \<Rightarrow> 'b result) \<Rightarrow> ('b \<Rightarrow> nat \<Rightarrow> aead result) \<Rightarrow>
    handshaking \<Rightarrow> handshaking \<Rightarrow> bool" where
  "hs_reach G P aes gcm = (hs_step G P aes gcm)\<^sup>*\<^sup>*"

section \<open>The invariant\<close>

text \<open>One caller owns the handshake; the notification comes only from it, after the
  built-in connection and, under TLS, the cipher are in place; \<open>retch\<close> is closed only
  after the notification or with the connection.\<close>

definition owner :: "caller \<Rightarrow> bool" where
  "owner pc \<longleftrightarrow> pc \<notin> {HStart, HWait, HBack}"

definition hs_ready :: "handshaking \<Rightarrow> bool" where
  "hs_ready s \<longleftrightarrow> c_builtin (hs_conn s)
     \<and> (hs_tls s \<longrightarrow> (\<exists>k. c_crypto (hs_conn s) = Some k \<and> cr_headerSize k = ds_Overhead))"

definition hs_owner_inv :: "handshaking \<Rightarrow> bool" where
  "hs_owner_inv s \<longleftrightarrow> (\<forall>i. owner (hs_caller s i) \<longrightarrow> hs_flag s)
     \<and> (\<forall>i j. owner (hs_caller s i) \<longrightarrow> owner (hs_caller s j) \<longrightarrow> i = j)"

definition hs_notify_inv :: "handshaking \<Rightarrow> bool" where
  "hs_notify_inv s \<longleftrightarrow>
     (\<forall>i. hs_notified s \<longrightarrow> owner (hs_caller s i) \<longrightarrow> hs_caller s i \<in> {HDrain None, HRet None})
     \<and> (\<forall>i. hs_caller s i \<in> {HDrain None, HRet None, HBack} \<longrightarrow> hs_notified s)
     \<and> (hs_notified s \<longrightarrow> hs_ready s \<and> hs_flag s) \<and> (\<forall>i. hs_caller s i = HFin \<longrightarrow> hs_ready s)
     \<and> (hs_retch s \<longrightarrow> hs_notified s \<or> c_closed (hs_conn s)) \<and> length (c_queue (hs_conn s)) \<le> 8"

definition hs_inv :: "handshaking \<Rightarrow> bool" where
  "hs_inv s \<longleftrightarrow> hs_owner_inv s \<and> hs_notify_inv s"

lemma c_close_fields [simp]: "c_builtin (c_close c) = c_builtin c" "c_crypto (c_close c) = c_crypto c"
    "c_queue (c_close c) = c_queue c" "c_closed (c_close c)" "c_role (c_close c) = c_role c"
  by (simp_all add: c_close_def c_emit_def Let_def)

lemma hs_inbound_ok:
  assumes "hs_inbound G P tcp c d = Some (c', go)" "length (c_queue c) \<le> 8"
  shows "c_builtin c' = c_builtin c \<and> c_crypto c' = c_crypto c \<and> length (c_queue c') \<le> 8
    \<and> c_closed c' = (c_closed c \<or> \<not> go)"
  using assms
  by (auto simp: hs_inbound_def inboundBuitinPacket_def c_emit_def Let_def bind_eq_Some_conv case_prod_unfold
      split: option.splits if_splits prod.splits)

lemma newCrypto_size: "newCrypto aes gcm key n = Inr k \<Longrightarrow> cr_headerSize k = n"
  by (auto simp: newCrypto_def split: sum.splits)

lemma at_fields [simp]: "hs_caller (at s i pc) = (hs_caller s)(i := pc)" "hs_tls (at s i pc) = hs_tls s"
    "hs_conn (at s i pc) = hs_conn s" "hs_flag (at s i pc) = hs_flag s"
    "hs_notified (at s i pc) = hs_notified s" "hs_retch (at s i pc) = hs_retch s"
    "hs_service (at s i pc) = hs_service s"
  by (simp_all add: at_def)

lemma owner_simps [simp]: "\<not> owner HStart" "\<not> owner HWait" "\<not> owner HBack" "owner HDial" "owner HTls"
    "owner HKey" "owner HFin" "owner (HDrain r)" "owner (HRet r)"
  by (simp_all add: owner_def)

lemma hs_owner_step: "hs_step G P aes gcm s s' \<Longrightarrow> hs_owner_inv s \<Longrightarrow> hs_owner_inv s'"
  by (induction rule: hs_step.induct) (auto simp: hs_owner_inv_def split: if_splits; metis owner_simps)+

lemma hs_ready_at [simp]: "hs_ready (at s i pc) = hs_ready s"
  by (simp add: hs_ready_def)

lemma hs_ready_mono: "hs_ready s \<Longrightarrow> hs_tls s' = hs_tls s \<Longrightarrow> c_builtin (hs_conn s') = c_builtin (hs_conn s) \<Longrightarrow>
    c_crypto (hs_conn s') = c_crypto (hs_conn s) \<Longrightarrow> hs_ready s'"
  by (simp add: hs_ready_def)

lemma unnotified:
  assumes "hs_inv s" "hs_caller s i = pc" "owner pc" "pc \<noteq> HDrain None" "pc \<noteq> HRet None"
  shows "\<not> hs_notified s"
  using assms unfolding hs_inv_def hs_notify_inv_def by (metis empty_iff insert_iff)

text \<open>A caller moves and nothing else that the invariant reads changes.\<close>

lemma notify_at:
  assumes inv: "hs_inv s" and own: "owner (hs_caller s i)" "owner pc" "hs_caller s i \<notin> {HDrain None, HRet None}"
    and pc: "pc \<noteq> HDrain None" "pc \<noteq> HRet None" "pc = HFin \<longrightarrow> hs_ready s"
  shows "hs_notify_inv (at s i pc)"
proof -
  have n: "\<not> hs_notified s" using unnotified [OF inv refl own(1)] own(3) by simp
  show ?thesis using inv own pc n by (auto simp: hs_inv_def hs_notify_inv_def)
qed

lemma notify_conn:
  assumes "hs_notify_inv s" "c_builtin c = c_builtin (hs_conn s)" "c_crypto c = c_crypto (hs_conn s)"
    "length (c_queue c) \<le> 8" "r \<longrightarrow> hs_retch s \<or> hs_notified s \<or> c_closed c"
    "c_closed (hs_conn s) \<longrightarrow> c_closed c"
  shows "hs_notify_inv (s\<lparr>hs_service := v, hs_retch := r, hs_conn := c\<rparr>)"
  using assms unfolding hs_notify_inv_def hs_ready_def by auto

lemma hs_notify_step: "hs_step G P aes gcm s s' \<Longrightarrow> hs_inv s \<Longrightarrow> hs_notify_inv s'"
proof (induction rule: hs_step.induct)
  case (dial_plain s i)
  let ?s = "s\<lparr>hs_conn := (hs_conn s)\<lparr>c_builtin := True\<rparr>\<rparr>"
  have n: "\<not> hs_notified s" using unnotified [OF dial_plain(3) dial_plain(1)] by simp
  have o: "j = i" if "owner (hs_caller s j)" for j
    using dial_plain that by (auto simp: hs_inv_def hs_owner_inv_def)
  have "hs_inv ?s" using dial_plain n unfolding hs_inv_def hs_owner_inv_def hs_notify_inv_def hs_ready_def by auto
  then show ?case by (rule notify_at) (use dial_plain in \<open>simp_all add: hs_ready_def\<close>)
next
  case (key_bad s i key err)
  let ?s = "s\<lparr>hs_conn := (hs_conn s)\<lparr>c_crypto := None\<rparr>\<rparr>"
  have n: "\<not> hs_notified s" using unnotified [OF key_bad(4) key_bad(1)] by simp
  have o: "hs_caller s j \<noteq> HFin" for j
    using key_bad unfolding hs_inv_def hs_owner_inv_def by (metis caller.distinct owner_simps)
  have "hs_inv ?s" using key_bad n o unfolding hs_inv_def hs_owner_inv_def hs_notify_inv_def hs_ready_def by auto
  then show ?case by (rule notify_at) (use key_bad in simp_all)
next
  case (key_ok s i key k)
  let ?s = "s\<lparr>hs_conn := (hs_conn s)\<lparr>c_crypto := Some k, c_builtin := True\<rparr>\<rparr>"
  have n: "\<not> hs_notified s" using unnotified [OF key_ok(4) key_ok(1)] by simp
  have r: "hs_ready ?s" using newCrypto_size [OF key_ok(3)] by (simp add: hs_ready_def)
  have "hs_inv ?s" using key_ok n r unfolding hs_inv_def hs_owner_inv_def hs_notify_inv_def by auto
  then show ?case by (rule notify_at) (use key_ok r in simp_all)
next
  case (fin s i)
  have "hs_ready s" using fin by (auto simp: hs_inv_def hs_notify_inv_def)
  moreover have "hs_flag s" using fin unfolding hs_inv_def hs_owner_inv_def by (metis owner_simps(7))
  moreover have "j = i" if "owner (hs_caller s j)" for j
    using fin that by (auto simp: hs_inv_def hs_owner_inv_def)
  ultimately show ?case using fin unfolding hs_inv_def hs_notify_inv_def
    by (auto simp: hs_ready_def)
next
  case (sv_read s tcp d c)
  then show ?case using hs_inbound_ok [OF sv_read(3)]
    by (intro notify_conn [of s c "hs_retch s" SvSelect, simplified]) (auto simp: hs_inv_def hs_notify_inv_def)
next
  case (sv_decode s tcp d c)
  then show ?case using hs_inbound_ok [OF sv_decode(3)]
    by (intro notify_conn) (auto simp: hs_inv_def hs_notify_inv_def)
next
  case (sv_err s)
  then show ?case by (intro notify_conn) (auto simp: hs_inv_def hs_notify_inv_def)
next
  case (user_close s)
  then show ?case unfolding hs_inv_def hs_notify_inv_def hs_ready_def by auto
next
  case (win s i)
  then show ?case unfolding hs_inv_def hs_notify_inv_def hs_owner_inv_def hs_ready_def by auto
next
  case (drained s i r)
  have "hs_notified s \<longrightarrow> r = None" using unnotified [OF drained(3) drained(1)] by (cases r) auto
  moreover have "r = None \<longrightarrow> hs_notified s" using drained unfolding hs_inv_def hs_notify_inv_def by auto
  ultimately show ?case using drained unfolding hs_inv_def hs_notify_inv_def by auto
next
  case (sv_stop s)
  then show ?case by (simp add: hs_inv_def hs_notify_inv_def hs_ready_def)
next
  case (sv_next s)
  then show ?case by (simp add: hs_inv_def hs_notify_inv_def hs_ready_def)
next
  case (lose s i)
  then show ?case unfolding hs_inv_def hs_notify_inv_def by auto
next
  case (wake s i)
  then show ?case unfolding hs_inv_def hs_notify_inv_def by auto
qed (rule notify_at; simp)+

lemma hs_step_inv: "hs_step G P aes gcm s s' \<Longrightarrow> hs_inv s \<Longrightarrow> hs_inv s'"
  using hs_owner_step hs_notify_step unfolding hs_inv_def by blast

lemma hs_init_inv: "c_queue c = [] \<Longrightarrow> hs_inv (hs_init tls c)"
  by (simp add: hs_inv_def hs_owner_inv_def hs_notify_inv_def hs_init_def)

lemma hs_reach_inv: "hs_reach G P aes gcm s s' \<Longrightarrow> hs_inv s \<Longrightarrow> hs_inv s'"
  unfolding hs_reach_def by (induction rule: rtranclp_induct) (auto intro: hs_step_inv)

section \<open>A failed handshake\<close>

text \<open>The owner \<open>i\<close> has failed: nobody else can succeed or return, and it stays at the
  deferred receive until the connection is closed.\<close>

definition hs_failed :: "nat \<Rightarrow> handshaking \<Rightarrow> bool" where
  "hs_failed i s \<longleftrightarrow> (\<exists>err. hs_caller s i = HDrain (Some err) \<or> c_closed (hs_conn s) \<and> hs_caller s i = HRet (Some err))
     \<and> (\<forall>j. j \<noteq> i \<longrightarrow> hs_caller s j \<in> {HStart, HWait})"

lemma hs_failed_drain:
  assumes inv: "hs_inv s" and f: "hs_caller s i = HDrain (Some err)"
  shows "hs_failed i s"
proof -
  have n: "\<not> hs_notified s" using unnotified [OF inv f] by simp
  have "hs_caller s j \<in> {HStart, HWait}" if "j \<noteq> i" for j
  proof -
    have "\<not> owner (hs_caller s j)" using inv f that unfolding hs_inv_def hs_owner_inv_def by (metis owner_simps(8))
    moreover have "hs_caller s j \<noteq> HBack" using inv n unfolding hs_inv_def hs_notify_inv_def by blast
    ultimately show ?thesis by (simp add: owner_def)
  qed
  with f show ?thesis unfolding hs_failed_def by blast
qed

lemma hs_failed_step:
  assumes st: "hs_step G P aes gcm s s'" and inv: "hs_inv s" and f: "hs_failed i s"
  shows "hs_failed i s'"
proof -
  obtain err where i: "hs_caller s i = HDrain (Some err) \<or> c_closed (hs_conn s) \<and> hs_caller s i = HRet (Some err)"
    and others: "\<And>j. j \<noteq> i \<Longrightarrow> hs_caller s j \<in> {HStart, HWait}"
    using f unfolding hs_failed_def by blast
  have n: "\<not> hs_notified s" using unnotified [OF inv, of i] i by auto
  have flag: "hs_flag s" using inv i unfolding hs_inv_def hs_owner_inv_def by (metis owner_simps(8,9))
  have ret: "hs_retch s \<longrightarrow> c_closed (hs_conn s)" using inv n by (simp add: hs_inv_def hs_notify_inv_def)
  have no: "hs_caller s j \<noteq> HDial" "hs_caller s j \<noteq> HTls" "hs_caller s j \<noteq> HKey" "hs_caller s j \<noteq> HFin" for j
    using others [of j] i by (cases "j = i"; auto)+
  from st show ?thesis
  proof (cases rule: hs_step.cases)
    case (lose j)
    then show ?thesis using i others unfolding hs_failed_def by auto
  next
    case (drained j r)
    then have "j = i" using others [of j] by (cases "j = i") auto
    then show ?thesis using drained i others ret unfolding hs_failed_def by auto
  next
    case (sv_read tcp d c)
    have "length (c_queue (hs_conn s)) \<le> 8" using inv by (simp add: hs_inv_def hs_notify_inv_def)
    then show ?thesis using hs_inbound_ok [OF sv_read(4)] sv_read i others unfolding hs_failed_def by auto
  next
    case (sv_decode tcp d c)
    then show ?thesis using i others hs_inbound_ok [OF sv_decode(4)] inv
      unfolding hs_failed_def by (auto simp: hs_inv_def hs_notify_inv_def)
  qed (use no n flag i others in \<open>auto simp: hs_failed_def\<close>)
qed

lemma hs_failed_reach: "hs_reach G P aes gcm s s' \<Longrightarrow> hs_inv s \<Longrightarrow> hs_failed i s \<Longrightarrow> hs_failed i s'"
  unfolding hs_reach_def
proof (induction rule: rtranclp_induct)
  case (step y z)
  have "hs_inv y" using hs_reach_inv [of G P aes gcm s y] step by (simp add: hs_reach_def)
  with step hs_failed_step show ?case by blast
qed

end
