(* ===== verification/Conn_Props.thy ===== *)
theory Conn_Props
  imports Conn_Handshake
begin

text \<open>
  The properties of a connection: what is sent is received, what is received was sealed
  under its own header, the handshake hands out only complete connections, and what happens
  to its callers when it fails.
\<close>

section \<open>The data path\<close>

text \<open>
  C8. What \<open>Send\<close> writes, \<open>Recv\<close> at the other end gives back: for every valid peer that is
  not the built-in one and every payload, the datagram is the peer's header followed by the
  payload, sealed with the header as its nonce when a cipher is set; reading it restores
  peer and payload and leaves the receiver as it was. Equal peers use equal nonces.
\<close>

theorem tunnel_roundtrip:
  assumes "packet_laws P" "reveal_law P"
    and "\<forall>k. c_crypto a = Some k \<longrightarrow> aead_laws (cr_c k) \<and> cr_headerSize k = 5"
    and "c_crypto b = c_crypto a" "c_queue b = []"
    and "ds_Valid (Some s)" "\<not> ds_IsBuiltin (Some s)"
    and "length (p_bytes P pkt) + 21 \<le> length (p_bytes P (p_Sets P buf (p_head P buf) (p_data P buf)))"
  shows "\<exists>d pkt' buf'. Send P (Some None) a (Some s) pkt None = Some (c_emit (EvWrote d) a, pkt', SendOk)
    \<and> d = ds_wire s @ (case c_crypto a of None \<Rightarrow> p_bytes P pkt | Some k \<Rightarrow> seal (cr_c k) (ds_wire s) (p_bytes P pkt))
    \<and> Recv G P (Some None) b (Some r) buf (Inr d # env) = Some (b, Some s, buf', RecvOk, env)
    \<and> p_bytes P buf' = p_bytes P pkt"
proof -
  let ?x = "p_bytes P pkt"
  define d where "d = ds_wire s @ (case c_crypto b of None \<Rightarrow> ?x | Some k \<Rightarrow> seal (cr_c k) (ds_wire s) ?x)"
  have "length d \<le> length ?x + 21"
    using assms(3,4) ds_wire_length [OF assms(6)] by (auto simp: d_def aead_laws_def split: option.splits)
  then have fit: "length d \<le> length (p_bytes P (p_Sets P buf (p_head P buf) (p_data P buf)))"
    using assms(8) by linarith
  obtain pkt' where "Send P (Some None) a (Some s) pkt None = Some (c_emit (EvWrote d) a, pkt', SendOk)"
    using send_data [OF assms(1,6,7,3), of pkt] assms(4) unfolding d_def by auto
  moreover obtain buf' where "recv_loop G P (p_head P buf) (p_data P buf) b (Some r) buf (Inr d # env)
      = Some (b, Some s, buf', RecvOk, env)" "p_bytes P buf' = ?x"
    using recv_data [OF assms(1,2,5,6,7) assms(3) [folded assms(4)] d_def fit, of G r env] by blast
  ultimately show ?thesis using assms(4) by (simp add: Recv_def d_def)
qed

definition w_key :: crypto where "w_key = \<lparr>cr_c = tagged, cr_headerSize = 5\<rparr>"

definition w_conn :: conn where
  "w_conn = (newConn Server 19986 40000)\<lparr>c_crypto := Some w_key, c_builtin := True\<rparr>"

lemma w_bytes: "p_bytes framed ([], x) = x"
  by (simp add: framed_def)

theorem tunnel_roundtrip_witness:
  "\<exists>d buf'. Recv rfc framed (Some None) w_conn NewDefaultPeer (replicate 64 0, replicate 100 0) [Inr d]
      = Some (w_conn, Some \<lparr>ds_proto = UDP, ds_dst = Addr4 8 8 8 8\<rparr>, buf', RecvOk, [])
    \<and> p_bytes framed buf' = [1, 2, 3]"
proof -
  have k: "\<forall>k. c_crypto w_conn = Some k \<longrightarrow> aead_laws (cr_c k) \<and> cr_headerSize k = 5"
    by (simp add: w_conn_def w_key_def tagged_laws)
  have v: "ds_Valid (Some \<lparr>ds_proto = UDP, ds_dst = Addr4 8 8 8 8\<rparr>)"
    "\<not> ds_IsBuiltin (Some \<lparr>ds_proto = UDP, ds_dst = Addr4 8 8 8 8\<rparr>)"
    by (simp_all add: ds_Valid_def ds_IsBuiltin_def)
  have q: "c_queue w_conn = []" by (simp add: w_conn_def newConn_def)
  have n: "NewDefaultPeer = Some \<lparr>ds_proto = 0, ds_dst = AddrZero\<rparr>" by (rule NewDefaultPeer_def)
  have r: "length (p_bytes framed ([], [1, 2, 3])) + 21 \<le> length (p_bytes framed (p_Sets framed
      (replicate 64 0, replicate 100 0) (p_head framed (replicate 64 0, replicate 100 0))
      (p_data framed (replicate 64 0, replicate 100 0))))"
    by (simp add: framed_def p_data_def)
  show ?thesis
    using tunnel_roundtrip [OF framed_laws framed_reveal k refl q v r, of rfc _ "[]"] unfolding n w_bytes by blast
qed

text \<open>
  C10. With a cipher set, \<open>Recv\<close> delivers only authentic payloads: whatever datagrams arrive,
  a payload it returns with a peer was sealed under exactly that peer's header, and the
  sealed text is (the front part of) a datagram that was read or queued.
\<close>

theorem recv_authentic:
  assumes "packet_laws P" "reveal_law P" "aead_laws (cr_c k)" "cr_headerSize k = ds_Overhead" "c_crypto c = Some k"
    and "Recv G P hs c peer pkt env = Some (c', Some s, pkt', RecvOk, env')"
  shows "\<exists>d n. (d \<in> set (c_queue c) \<or> Inr d \<in> set env)
    \<and> take n d = ds_wire s @ seal (cr_c k) (ds_wire s) (p_bytes P pkt')"
proof -
  have "recv_loop G P (p_head P pkt) (p_data P pkt) c peer pkt env = Some (c', Some s, pkt', RecvOk, env')"
    using assms(6) by (auto simp: Recv_def split: option.splits)
  from recv_loop_sealed [OF assms(1-3) _ this assms(5)] assms(4) show ?thesis
    unfolding arrived_def ds_Overhead_def by metis
qed


abbreviation w_peer :: defaultSession where
  "w_peer \<equiv> \<lparr>ds_proto = UDP, ds_dst = Addr4 8 8 8 8\<rparr>"

theorem recv_authentic_witness:
  "\<exists>c' pkt' n. Recv rfc framed (Some None) w_conn NewDefaultPeer (replicate 64 0, replicate 100 0)
       [Inr (ds_wire w_peer @ seal tagged (ds_wire w_peer) [7])] = Some (c', Some w_peer, pkt', RecvOk, [])
    \<and> take n (ds_wire w_peer @ seal tagged (ds_wire w_peer) [7]) = ds_wire w_peer @ seal tagged (ds_wire w_peer) (p_bytes framed pkt')"
proof -
  let ?d = "ds_wire w_peer @ seal tagged (ds_wire w_peer) [7]" and ?buf = "(replicate 64 0, replicate 100 0)"
  have k: "\<forall>k. c_crypto w_conn = Some k \<longrightarrow> aead_laws (cr_c k) \<and> cr_headerSize k = 5"
    by (simp add: w_conn_def w_key_def tagged_laws)
  have c: "c_crypto w_conn = Some w_key" "c_queue w_conn = []" by (simp_all add: w_conn_def newConn_def)
  have a: "aead_laws (cr_c w_key)" "cr_headerSize w_key = ds_Overhead"
    by (simp_all add: w_key_def tagged_laws ds_Overhead_def)
  have v: "ds_Valid (Some w_peer)" "\<not> ds_IsBuiltin (Some w_peer)"
    by (simp_all add: ds_Valid_def ds_IsBuiltin_def)
  have d: "?d = ds_wire w_peer @ (case c_crypto w_conn of None \<Rightarrow> [7] | Some k \<Rightarrow> seal (cr_c k) (ds_wire w_peer) [7])"
    by (simp add: c(1) w_key_def)
  have l: "length ?d \<le> length (p_bytes framed (p_Sets framed ?buf (p_head framed ?buf) (p_data framed ?buf)))"
    by (simp add: framed_def p_data_def ds_wire_def tagged_def)
  obtain pkt' where r: "Recv rfc framed (Some None) w_conn NewDefaultPeer ?buf [Inr ?d]
      = Some (w_conn, Some w_peer, pkt', RecvOk, [])"
    using recv_data [OF framed_laws framed_reveal c(2) v k d l, of rfc _ "[]"]
    unfolding Recv_def NewDefaultPeer_def option.case by blast
  have "\<exists>d n. (d \<in> set (c_queue w_conn) \<or> Inr d \<in> set [Inr ?d :: bytes result])
      \<and> take n d = ds_wire w_peer @ seal (cr_c w_key) (ds_wire w_peer) (p_bytes framed pkt')"
    by (rule recv_authentic [OF framed_laws framed_reveal a c(1) r])
  then obtain n where "take n ?d = ds_wire w_peer @ seal tagged (ds_wire w_peer) (p_bytes framed pkt')"
    unfolding c(2) by (auto simp: w_key_def)
  with r show ?thesis by blast
qed

section \<open>The handshake\<close>

text \<open>
  C11. In every run of a fresh connection with any number of callers, one caller at most runs
  the handshake, and a caller that returns without error, the one that ran it or one that
  waited, finds the built-in connection set and, when TLS is configured, a cipher with the
  peer's header size: no packet is ever sent in the clear on a connection with TLS. At most
  eight packets wait for the end of the handshake.
\<close>

theorem handshake_completes_before_return:
  assumes "hs_reach G P aes gcm (hs_init tls c) s" "c_queue c = []"
  shows "(\<forall>i j. owner (hs_caller s i) \<longrightarrow> owner (hs_caller s j) \<longrightarrow> i = j)
    \<and> (\<forall>i. hs_caller s i = HRet None \<or> hs_caller s i = HBack \<longrightarrow> c_builtin (hs_conn s)
        \<and> (hs_tls s \<longrightarrow> (\<exists>k. c_crypto (hs_conn s) = Some k \<and> cr_headerSize k = ds_Overhead)))
    \<and> length (c_queue (hs_conn s)) \<le> 8"
proof -
  have inv: "hs_inv s" by (rule hs_reach_inv [OF assms(1) hs_init_inv [OF assms(2)]])
  have "hs_ready s" if "hs_caller s i = HRet None \<or> hs_caller s i = HBack" for i
    using inv that unfolding hs_inv_def hs_notify_inv_def by blast
  with inv show ?thesis unfolding hs_inv_def hs_owner_inv_def hs_notify_inv_def hs_ready_def by blast
qed

lemma hs_reach_step: "hs_reach G P aes gcm s t \<Longrightarrow> hs_step G P aes gcm t u \<Longrightarrow> hs_reach G P aes gcm s u"
  unfolding hs_reach_def by (rule rtranclp.rtrancl_into_rtrancl)

lemma hs_reach_refl: "hs_reach G P aes gcm s s"
  by (simp add: hs_reach_def)

definition w_fresh :: handshaking where
  "w_fresh = hs_init False (newConn Client 1000 19986)"

definition w_dialing :: handshaking where
  "w_dialing = at (w_fresh\<lparr>hs_flag := True, hs_service := SvSelect\<rparr>) 0 HDial"

lemma w_dialing_reach: "hs_reach G P aes gcm w_fresh w_dialing"
  unfolding w_dialing_def
  by (rule hs_reach_step [OF hs_reach_refl win]) (simp_all add: w_fresh_def hs_init_def)

definition w_finished :: handshaking where
  "w_finished = at ((at (w_dialing\<lparr>hs_conn := (hs_conn w_dialing)\<lparr>c_builtin := True\<rparr>\<rparr>) 0 HFin)\<lparr>hs_notified := True\<rparr>) 0 (HDrain None)"

definition w_returned :: handshaking where
  "w_returned = at (w_finished\<lparr>hs_service := SvEnd, hs_retch := True\<rparr>) 0 (HRet None)"

lemma w_returned_reach: "hs_reach G P aes gcm w_fresh w_returned"
proof -
  have pc: "hs_caller w_dialing 0 = HDial" "\<not> hs_tls w_dialing" "hs_service w_dialing = SvSelect"
    by (simp_all add: w_dialing_def w_fresh_def hs_init_def)
  have "hs_reach G P aes gcm w_fresh w_finished"
    unfolding w_finished_def
    by (rule hs_reach_step [OF hs_reach_step [OF w_dialing_reach dial_plain [OF pc(1,2)]] fin]) simp
  moreover have "hs_step G P aes gcm w_finished (w_finished\<lparr>hs_service := SvEnd, hs_retch := True\<rparr>)"
    by (rule sv_stop) (simp_all add: w_finished_def pc(3))
  ultimately show ?thesis unfolding w_returned_def
    by (elim hs_reach_step [OF hs_reach_step, OF _ _ drained]) (simp_all add: w_finished_def)
qed

theorem handshake_completes_before_return_witness: "c_builtin (hs_conn w_returned)"
proof -
  have q: "c_queue (newConn Client 1000 19986) = []" by (simp add: newConn_def)
  have pc: "hs_caller w_returned 0 = HRet None" by (simp add: w_returned_def)
  from handshake_completes_before_return [OF w_returned_reach [unfolded w_fresh_def, of rfc framed Inr "\<lambda>_ _. Inr tagged"] q]
  show ?thesis using pc by blast
qed

text \<open>
  C36. A failed handshake hangs. Once the caller that runs it has failed, an expired context
  included, it returns only after the connection has been closed, which it does not do before
  it returns: it waits for the inbound service, whose read has no deadline. Every other
  caller waits for ever, even after the connection is closed: the notification never comes.
\<close>

theorem handshake_failure_hangs:
  assumes "hs_reach G P aes gcm (hs_init tls c) s" "c_queue c = []" "hs_caller s i = HDrain (Some err)"
    and "hs_reach G P aes gcm s s'"
  shows "(\<not> c_closed (hs_conn s') \<longrightarrow> (\<exists>err. hs_caller s' i = HDrain (Some err)))
    \<and> (\<forall>j. j \<noteq> i \<longrightarrow> hs_caller s' j = HStart \<or> hs_caller s' j = HWait)"
proof -
  have inv: "hs_inv s" by (rule hs_reach_inv [OF assms(1) hs_init_inv [OF assms(2)]])
  have "hs_failed i s'" by (rule hs_failed_reach [OF assms(4) inv hs_failed_drain [OF inv assms(3)]])
  then show ?thesis unfolding hs_failed_def by blast
qed

theorem handshake_failure_hangs_witness:
  "\<exists>err. hs_caller (at (at w_dialing 0 (HDrain (Some ErrDeadline))) 1 HWait) 0 = HDrain (Some err)"
proof -
  let ?s = "at w_dialing 0 (HDrain (Some ErrDeadline))" and ?gcm = "\<lambda>_ _. Inr tagged"
  have q: "c_queue (newConn Client 1000 19986) = []" by (simp add: newConn_def)
  have r: "hs_reach rfc framed Inr ?gcm (hs_init False (newConn Client 1000 19986)) ?s"
    unfolding w_fresh_def [symmetric]
    by (rule hs_reach_step [OF w_dialing_reach dial_err]) (simp add: w_dialing_def)
  have w: "hs_reach rfc framed Inr ?gcm ?s (at ?s 1 HWait)"
    by (rule hs_reach_step [OF hs_reach_refl lose]) (simp_all add: w_dialing_def w_fresh_def hs_init_def)
  have o: "\<not> c_closed (hs_conn (at ?s 1 HWait))" by (simp add: w_dialing_def w_fresh_def hs_init_def newConn_def)
  have pc: "hs_caller ?s 0 = HDrain (Some ErrDeadline)" by simp
  from handshake_failure_hangs [OF r q pc w] o show ?thesis by blast
qed

end
