(* ===== verification/Bpf_Filter.thy ===== *)
theory Bpf_Filter
  imports Net_Api
begin

text \<open>
  The raw sender of \<open>server_linux.go\<close>: the BPF program it attaches to its socket so that
  the kernel drops packets for ports the server itself uses, and the sender around it. The
  machine that runs a program is the kernel's; it is a parameter with the documented
  semantics of the five instructions as laws.
\<close>

section \<open>Instructions\<close>

datatype bpf_ins =
    LoadAbsolute nat nat
  | LoadIndirect nat nat
  | LoadMemShift nat
  | JumpNotEqual u32 u8
  | RetConstant u32

text \<open>A machine runs the rest of a program on a packet with its two registers. A load past
  the end of the packet rejects it.\<close>

type_synonym bpf_machine = "bpf_ins list \<Rightarrow> bytes \<Rightarrow> u32 \<Rightarrow> nat \<Rightarrow> u32"

definition bpf_laws :: "bpf_machine \<Rightarrow> bool" where
  "bpf_laws run \<longleftrightarrow> (\<forall>r p a x.
     (\<forall>off. run (LoadAbsolute off 1 # r) p a x = (if off < length p then run r p (ucast (p ! off)) x else 0))
   \<and> (\<forall>off. run (LoadIndirect off 2 # r) p a x =
        (if x + off + 1 < length p then run r p (ucast (get16 p (x + off))) x else 0))
   \<and> (\<forall>off. run (LoadMemShift off # r) p a x =
        (if off < length p then run r p a (4 * unat (p ! off AND 15)) else 0))
   \<and> (\<forall>v k. run (JumpNotEqual v k # r) p a x = run (drop (if a \<noteq> v then unat k else 0) r) p a x)
   \<and> (\<forall>v. run (RetConstant v # r) p a x = v))"

text \<open>An instance.\<close>

function bpf_exec :: bpf_machine where
  "bpf_exec [] p a x = 0"
| "bpf_exec (LoadAbsolute off n # r) p a x = (if off < length p then bpf_exec r p (ucast (p ! off)) x else 0)"
| "bpf_exec (LoadIndirect off n # r) p a x =
     (if x + off + 1 < length p then bpf_exec r p (ucast (get16 p (x + off))) x else 0)"
| "bpf_exec (LoadMemShift off # r) p a x = (if off < length p then bpf_exec r p a (4 * unat (p ! off AND 15)) else 0)"
| "bpf_exec (JumpNotEqual v k # r) p a x = bpf_exec (drop (if a \<noteq> v then unat k else 0) r) p a x"
| "bpf_exec (RetConstant v # r) p a x = v"
  by pat_completeness auto
termination by (relation "measure (\<lambda>(r, _). length r)") auto

lemma bpf_exec_laws: "bpf_laws bpf_exec"
  by (simp add: bpf_laws_def)

lemma bpf_lawsD:
  assumes "bpf_laws run"
  shows "run (LoadAbsolute off 1 # r) p a x = (if off < length p then run r p (ucast (p ! off)) x else 0)"
    and "run (LoadIndirect off 2 # r) p a x =
        (if x + off + 1 < length p then run r p (ucast (get16 p (x + off))) x else 0)"
    and "run (LoadMemShift off # r) p a x =
        (if off < length p then run r p a (4 * unat (p ! off AND 15)) else 0)"
    and "run (JumpNotEqual v k # r) p a x = run (drop (if a \<noteq> v then unat k else 0) r) p a x"
    and "run (RetConstant v # r) p a x = v"
  using assms unfolding bpf_laws_def by blast+

section \<open>The program\<close>

text \<open>\<open>slices.Sort\<close> and \<open>slices.Compact\<close>, then three instructions for every port.\<close>

definition bpf_ports :: "u16 list \<Rightarrow> u16 list" where
  "bpf_ports ports = remdups_adj (sort ports)"

fun port_ins :: "u16 list \<Rightarrow> bpf_ins list" where
  "port_ins [] = []"
| "port_ins (e # ports) =
     [LoadIndirect 2 2, JumpNotEqual (ucast e) 1, RetConstant 0] @ port_ins ports"

definition bpfSkipPorts :: "u8 \<Rightarrow> u16 list \<Rightarrow> bpf_ins list" where
  "bpfSkipPorts proto ports =
     (let skipIns = [LoadMemShift 0] @ port_ins (bpf_ports ports) @ [RetConstant 0xffff] in
      [LoadAbsolute 9 1, JumpNotEqual (ucast proto) (of_nat (length skipIns))] @ skipIns)"

definition bpfFilterProtoAndSkipLocalTCPPorts :: "u16 list \<Rightarrow> u16 list \<Rightarrow> bpf_ins list" where
  "bpfFilterProtoAndSkipLocalTCPPorts tcpSkipPorts udpSkipPorts =
     bpfSkipPorts 6 tcpSkipPorts @ bpfSkipPorts 17 udpSkipPorts @ [RetConstant 0]"

section \<open>The sender\<close>

text \<open>The socket with its filter. \<open>assemble\<close>, \<open>control\<close> and \<open>setsockopt\<close> are what the
  library and the kernel return.\<close>

record EthSender =
  es_open :: bool
  es_filter :: "bpf_ins list option"

definition es_close :: "EthSender \<Rightarrow> go_error option \<Rightarrow> go_error option \<Rightarrow> EthSender \<times> go_error option" where
  "es_close s cause err = (s\<lparr>es_open := False\<rparr>, if cause = None then err else cause)"

definition SkipPorts :: "EthSender \<Rightarrow> u16 list \<Rightarrow> u16 list \<Rightarrow> go_error option \<Rightarrow> go_error option \<Rightarrow> go_error option
    \<Rightarrow> EthSender \<times> go_error option" where
  "SkipPorts s tcp udp assemble control setsockopt =
     (case assemble of Some err \<Rightarrow> es_close s (Some err) None
      | None \<Rightarrow> (case control of Some err \<Rightarrow> es_close s (Some err) None
         | None \<Rightarrow> (case setsockopt of Some err \<Rightarrow> es_close s (Some err) None
            | None \<Rightarrow> (s\<lparr>es_filter := Some (bpfFilterProtoAndSkipLocalTCPPorts tcp udp)\<rparr>, None))))"

definition NewDefaultSender :: "EthSender result \<Rightarrow> u16 \<Rightarrow> go_error option \<Rightarrow> go_error option \<Rightarrow> go_error option
    \<Rightarrow> EthSender result" where
  "NewDefaultSender new port assemble control setsockopt =
     (case new of Inl err \<Rightarrow> Inl err
      | Inr s \<Rightarrow> (case SkipPorts s [22] [port] assemble control setsockopt of
           (s, Some err) \<Rightarrow> Inl err
         | (s, None) \<Rightarrow> Inr s))"

definition es_Recv :: "'p packet_api \<Rightarrow> 'p \<Rightarrow> bytes result \<Rightarrow> 'p \<times> go_error option" where
  "es_Recv P ip r =
     (case r of Inl err \<Rightarrow> (ip, Some err)
      | Inr d \<Rightarrow> (let (b, n) = go_copy (p_bytes P ip) d in (p_SetData P (p_store P ip b) n, None)))"

text \<open>\<open>Send\<close> writes the packet to the gateway, \<open>to\<close>; \<open>Close\<close> has no cause of its own.\<close>

definition es_Send :: "'p packet_api \<Rightarrow> (bytes \<Rightarrow> 'a \<Rightarrow> go_error option) \<Rightarrow> 'a \<Rightarrow> 'p \<Rightarrow> go_error option" where
  "es_Send P WriteToETH to ip = WriteToETH (p_bytes P ip) to"

definition es_Close :: "EthSender \<Rightarrow> go_error option \<Rightarrow> EthSender \<times> go_error option" where
  "es_Close s err = es_close s None err"

section \<open>What the filter accepts\<close>

text \<open>The specification: TCP and UDP packets whose destination port is not to be skipped.
  The destination port is read only when there are ports to compare it with.\<close>

definition ihl :: "bytes \<Rightarrow> nat" where "ihl p = 4 * unat (p ! 0 AND 15)"

definition port_pass :: "u16 set \<Rightarrow> nat \<Rightarrow> bytes \<Rightarrow> bool" where
  "port_pass S x p \<longleftrightarrow> S = {} \<or> x + 3 < length p \<and> get16 p (x + 2) \<notin> S"

definition filter_spec :: "u16 set \<Rightarrow> u16 set \<Rightarrow> bytes \<Rightarrow> bool" where
  "filter_spec tcp udp p \<longleftrightarrow> 9 < length p
     \<and> (p ! 9 = 6 \<and> port_pass tcp (ihl p) p \<or> p ! 9 = 17 \<and> port_pass udp (ihl p) p)"

lemma length_port_ins [simp]: "length (port_ins ports) = 3 * length ports"
  by (induction ports) simp_all

lemma set_bpf_ports [simp]: "set (bpf_ports ports) = set ports"
  by (simp add: bpf_ports_def)

lemma distinct_remdups_adj_sorted: "sorted (xs :: u16 list) \<Longrightarrow> distinct (remdups_adj xs)"
  by (induction xs rule: remdups_adj.induct) (auto simp: order.order_iff_strict)

lemma length_bpf_ports: "length (bpf_ports ports) = card (set ports)"
proof -
  have "distinct (bpf_ports ports)" unfolding bpf_ports_def
    by (rule distinct_remdups_adj_sorted) simp
  from distinct_card [OF this] show ?thesis by simp
qed

lemma bpf_ports_empty: "set ports = {} \<longleftrightarrow> bpf_ports ports = []"
  using set_bpf_ports [of ports] by (metis set_empty)

lemma ucast16_inj: "(ucast (v :: u16) :: u32) = ucast w \<longleftrightarrow> v = w"
proof -
  have "ucast (ucast x :: u32) = x" for x :: u16
    by (rule bit_word_eqI) (auto simp: bit_simps dest: bit_imp_le_length)
  then show ?thesis by metis
qed

lemma ucast8_inj: "(ucast (v :: u8) :: u32) = ucast w \<longleftrightarrow> v = w"
proof -
  have "ucast (ucast x :: u32) = x" for x :: u8
    by (rule bit_word_eqI) (auto simp: bit_simps dest: bit_imp_le_length)
  then show ?thesis by metis
qed

lemma run_ports:
  assumes B: "bpf_laws run"
  shows "run (port_ins ports @ RetConstant v # r) p a x = (if port_pass (set ports) x p then v else 0)"
proof (induction ports arbitrary: a)
  case Nil
  then show ?case by (simp add: bpf_lawsD(5) [OF B] port_pass_def)
next
  case (Cons e ports)
  show ?case
  proof (cases "x + 3 < length p")
    case True
    then show ?thesis
      by (cases "get16 p (x + 2) = e")
        (auto simp: bpf_lawsD [OF B] Cons.IH port_pass_def ucast16_inj)
  next
    case False
    then show ?thesis by (simp add: bpf_lawsD [OF B] port_pass_def)
  qed
qed

text \<open>One block, when its jump reaches over the block.\<close>

lemma run_block:
  assumes B: "bpf_laws run" and n: "card (set ports) \<le> 84"
  shows "run (bpfSkipPorts proto ports @ r) p a x =
    (if length p \<le> 9 then 0
     else if p ! 9 = proto then (if port_pass (set ports) (ihl p) p then 0xffff else 0)
     else run r p (ucast (p ! 9)) x)"
proof -
  let ?s = "[LoadMemShift 0] @ port_ins (bpf_ports ports) @ [RetConstant 0xffff]"
  have l: "length ?s = 3 * card (set ports) + 2" by (simp add: length_bpf_ports)
  have k: "unat (of_nat (length ?s) :: u8) = length ?s"
    unfolding l using n by (simp only: unat_of_nat) (simp add: take_bit_nat_eq_self)
  have blk: "bpfSkipPorts proto ports @ r = LoadAbsolute 9 1 # JumpNotEqual (ucast proto) (of_nat (length ?s)) # ?s @ r"
    by (simp only: bpfSkipPorts_def Let_def append.simps append_assoc)
  have skip: "drop (length ?s) (?s @ r) = r" by simp
  have body: "run (?s @ r) p b y = (if 0 < length p then if port_pass (set ports) (ihl p) p then 0xffff else 0 else 0)" for b y
    using run_ports [OF B, of "bpf_ports ports" "0xffff" r p] by (simp add: bpf_lawsD(3) [OF B] ihl_def)
  show ?thesis
    unfolding blk bpf_lawsD(1,4) [OF B] k
    using body skip by (auto simp: ucast8_inj)
qed

text \<open>With 85 ports the 8-bit jump distance wraps to one: a packet of another protocol lands
  behind the load of the header length, and its bytes 2 and 3, the total length, are compared
  with the ports.\<close>

lemma run_block_wrapped:
  assumes B: "bpf_laws run" and n: "card (set ports) = 85" and p: "9 < length p" "p ! 9 \<noteq> proto"
  shows "run (bpfSkipPorts proto ports @ r) p a 0 = (if get16 p 2 \<in> set ports then 0 else 0xffff)"
proof -
  let ?s = "[LoadMemShift 0] @ port_ins (bpf_ports ports) @ [RetConstant 0xffff]"
  have l: "length ?s = 257" using n by (simp add: length_bpf_ports)
  have k: "unat (of_nat (length ?s) :: u8) = 1" unfolding l by simp
  have blk: "bpfSkipPorts proto ports @ r = LoadAbsolute 9 1 # JumpNotEqual (ucast proto) (of_nat (length ?s)) # ?s @ r"
    by (simp only: bpfSkipPorts_def Let_def append.simps append_assoc)
  have "set ports \<noteq> {}" using n by auto
  then show ?thesis
    unfolding blk bpf_lawsD(1,4) [OF B] k
    using p run_ports [OF B, of "bpf_ports ports" "0xffff" r p "ucast (p ! 9)" 0]
    by (simp add: ucast8_inj port_pass_def numeral_2_eq_2)
qed

text \<open>
  C22. The attached filter accepts exactly the packets it is meant to: with at most 84 distinct
  ports for each protocol, every machine with the documented semantics returns 0xffff for a
  TCP packet whose destination port is not to be skipped for TCP, the same for UDP, and 0 for
  every other packet, whatever the header length and however short the packet. With 85 TCP
  ports it compares the length of a UDP packet with them instead, and UDP ports are not skipped.
\<close>

theorem filter_accepts_spec:
  assumes "bpf_laws run" "card (set udp) \<le> 84"
  shows "(card (set tcp) \<le> 84 \<longrightarrow> run (bpfFilterProtoAndSkipLocalTCPPorts tcp udp) p 0 0
      = (if filter_spec (set tcp) (set udp) p then 0xffff else 0))
    \<and> (card (set tcp) = 85 \<longrightarrow> 9 < length p \<longrightarrow> p ! 9 = 17 \<longrightarrow>
        run (bpfFilterProtoAndSkipLocalTCPPorts tcp udp) p 0 0 = (if get16 p 2 \<in> set tcp then 0 else 0xffff))"
  using run_block [OF assms(1), of tcp 6] run_block [OF assms(1,2), of 17] run_block_wrapped [OF assms(1), of tcp p 6]
  by (simp add: bpfFilterProtoAndSkipLocalTCPPorts_def bpf_lawsD(5) [OF assms(1)] filter_spec_def)

theorem filter_accepts_spec_witness:
  "bpf_exec (bpfFilterProtoAndSkipLocalTCPPorts [22] [53])
     ([0x45, 0, 0, 28, 0, 0, 0, 0, 64, 17, 0, 0] @ replicate 10 0 @ [0, 53] @ replicate 4 0) 0 0 = 0"
proof -
  have c: "card (set [53 :: u16]) \<le> 84" "card (set [22 :: u16]) \<le> 84" by simp_all
  let ?p = "[0x45, 0, 0, 28, 0, 0, 0, 0, 64, 17, 0, 0] @ replicate 10 0 @ [0, 53] @ replicate 4 0 :: bytes"
  have "\<not> filter_spec (set [22]) (set [53]) ?p" by code_simp
  with filter_accepts_spec [OF bpf_exec_laws c(1), of "[22]" ?p] c(2) show ?thesis by (simp only: if_False)
qed

end
