(* ===== verification/Server_Loop.thy ===== *)
theory Server_Loop
  imports Conn_Data Checksum Link_Mutx
begin

text \<open>
  The proxy server of \<open>server.go\<close>: the loop of \<open>serveConn\<close> that forwards a client's packets
  to the raw sender, the loop of \<open>recvService\<close> that forwards replies to the clients, the
  accept loop and \<open>close\<close>, over the default link manager. Each round of a loop is given what
  its calls of other components return; the records of what was sent are in order.
\<close>

section \<open>State\<close>

text \<open>\<open>sv_sent\<close>: the packets given to the raw sender. \<open>sv_back\<close>: what was given to
  connections, with the peer it was sent for.\<close>

record 'c server =
  sv_laddr :: addr
  sv_ap :: ap_state
  sv_links :: "'c linkManager"
  sv_ip4id :: u32
  sv_pcap :: bool
  sv_closed :: bool
  sv_sent :: "bytes list"
  sv_back :: "('c \<times> defaultSession \<times> bytes) list"

record sv_env =
  it_add :: add_env
  it_pcap :: "go_error option"
  it_send :: "go_error option"
  it_order :: "(portKey \<times> AddrSet) list"
  it_close :: "listener \<Rightarrow> go_error option"

text \<open>What \<open>NewServer\<close> makes: a server over the default link manager, with a time-to-live of 30 s.\<close>

definition NewServer :: "addr \<Rightarrow> bool \<Rightarrow> u32 \<Rightarrow> 'c server option" where
  "NewServer laddr pcap ip4id = do {
     (ap, t) \<leftarrow> NewLinkManager (30 * 10 ^ 9) laddr;
     Some \<lparr>sv_laddr = laddr, sv_ap = (ap, {}), sv_links = t, sv_ip4id = ip4id, sv_pcap = pcap,
       sv_closed = False, sv_sent = [], sv_back = []\<rparr>
   }"

definition sv_close :: "'c server \<Rightarrow> sv_env \<Rightarrow> 'c server" where
  "sv_close s env =
     (if sv_closed s then s
      else s\<lparr>sv_closed := True, sv_ap := fst (lm_Close (sv_ap s) (it_order env) (it_close env))\<rparr>)"

datatype flow = Next | Stop

section \<open>From a client\<close>

definition sv_link :: "'c server \<Rightarrow> add_env \<Rightarrow> Uplink \<Rightarrow> 'c \<Rightarrow> ('c server \<times> u16 result) option" where
  "sv_link s env up conn =
     (let (t, r) = lm_Uplink (sv_links s) up in
      case r of
        Some localPort \<Rightarrow> Some (s\<lparr>sv_links := t\<rparr>, Inr localPort)
      | None \<Rightarrow> do {
          (ap, t, r) \<leftarrow> lm_Add (sv_ap s) env t up conn;
          Some (s\<lparr>sv_ap := ap, sv_links := t\<rparr>, r)
        })"

text \<open>The part of the loop body after a successful \<open>Recv\<close>; \<open>client\<close> is the address of the
  connection's remote end.\<close>

definition serve_packet ::
  "gvisor \<Rightarrow> 'p packet_api \<Rightarrow> 'c server \<Rightarrow> addr \<Rightarrow> 'c \<Rightarrow> defaultSession \<Rightarrow> 'p \<Rightarrow> sv_env \<Rightarrow> ('c server \<times> flow) option" where
  "serve_packet G P s client conn peer pkt env =
     (let proto = ds_proto peer in
      if \<not> (proto = TCP \<or> proto = UDP) then Some (s, Next)
      else do {
        sp \<leftarrow> g_SourcePort G proto (p_bytes P pkt);
        dp \<leftarrow> g_DestinationPort G proto (p_bytes P pkt);
        let up = \<lparr>up_process = AddrPort client sp, up_proto = proto, up_server = AddrPort (ds_dst peer) dp\<rparr>;
        (s, r) \<leftarrow> sv_link s (it_add env) up conn;
        case r of
          Inl err \<Rightarrow> Some (s, Next)
        | Inr localPort \<Rightarrow> do {
            let down = \<lparr>dn_server = up_server up, dn_proto = up_proto up, dn_local = AddrPort (sv_laddr s) localPort\<rparr>;
            (id, ip) \<leftarrow> ck_Server G P (sv_ip4id s) pkt down;
            let s = s\<lparr>sv_ip4id := id\<rparr>;
            if sv_pcap s \<and> it_pcap env \<noteq> None then Some (sv_close s env, Stop)
            else if it_send env \<noteq> None then Some (sv_close s env, Stop)
            else Some (s\<lparr>sv_sent := sv_sent s @ [p_bytes P ip]\<rparr>, Next)
          }
      })"

text \<open>\<open>temp\<close> is \<open>errorx.Temporary\<close>. The loop ends by closing the connection; a list that ends
  first is a loop that waits.\<close>

datatype served = Waiting | Closed

fun serveConn :: "(go_error \<Rightarrow> bool) \<Rightarrow> gvisor \<Rightarrow> 'p packet_api \<Rightarrow> 'c server \<Rightarrow> addr \<Rightarrow> 'c
    \<Rightarrow> ((defaultSession \<times> 'p) result \<times> sv_env) list \<Rightarrow> ('c server \<times> served) option" where
  "serveConn temp G P s client conn [] = Some (s, Waiting)"
| "serveConn temp G P s client conn ((Inl err, env) # r) =
     (if temp err then serveConn temp G P s client conn r else Some (s, Closed))"
| "serveConn temp G P s client conn ((Inr (peer, pkt), env) # r) =
     (case serve_packet G P s client conn peer pkt env of
        None \<Rightarrow> None
      | Some (s, Next) \<Rightarrow> serveConn temp G P s client conn r
      | Some (s, Stop) \<Rightarrow> Some (s, Closed))"

section \<open>From the network\<close>

definition recv_packet :: "gvisor \<Rightarrow> 'p packet_api \<Rightarrow> 'c server \<Rightarrow> 'p \<Rightarrow> sv_env \<Rightarrow> ('c server \<times> flow) option" where
  "recv_packet G P s ip env = do {
     (ip, r) \<leftarrow> link_StripIP G P ip;
     case r of
       Inl err \<Rightarrow> Some (s, Next)
     | Inr link \<Rightarrow>
         (case lm_Downlink (sv_links s) link of
            None \<Rightarrow> Some (s, Next)
          | Some (conn, port) \<Rightarrow>
              if sv_pcap s \<and> it_pcap env \<noteq> None then Some (sv_close s env, Stop)
              else
                (let peer = \<lparr>ds_proto = dn_proto link, ds_dst = ap_addr (dn_server link)\<rparr> in
                 if ds_proto peer = TCP \<or> ds_proto peer = UDP then do {
                   b \<leftarrow> g_SetDestinationPort G (ds_proto peer) (p_bytes P ip) port;
                   Some (s\<lparr>sv_back := sv_back s @ [(conn, peer, b)]\<rparr>, Next)
                 }
                 else Some (s, Stop)))
   }"

fun recvService :: "(go_error \<Rightarrow> bool) \<Rightarrow> gvisor \<Rightarrow> 'p packet_api \<Rightarrow> 'c server \<Rightarrow> ('p result \<times> sv_env) list
    \<Rightarrow> ('c server \<times> flow) option" where
  "recvService temp G P s [] = Some (s, Next)"
| "recvService temp G P s ((Inl err, env) # r) =
     (if temp err then recvService temp G P s r else Some (sv_close s env, Stop))"
| "recvService temp G P s ((Inr ip, env) # r) =
     (case recv_packet G P s ip env of
        None \<Rightarrow> None
      | Some (s, Next) \<Rightarrow> recvService temp G P s r
      | Some (s, Stop) \<Rightarrow> Some (s, Stop))"

text \<open>\<open>acceptService\<close>: the connections that get a \<open>serveConn\<close> of their own.\<close>

fun acceptService :: "(go_error \<Rightarrow> bool) \<Rightarrow> 'c server \<Rightarrow> ('c result \<times> sv_env) list \<Rightarrow> 'c server \<times> 'c list \<times> flow" where
  "acceptService temp s [] = (s, [], Next)"
| "acceptService temp s ((Inl err, env) # r) =
     (if temp err then acceptService temp s r else (sv_close s env, [], Stop))"
| "acceptService temp s ((Inr conn, env) # r) =
     (let (s, cs, f) = acceptService temp s r in (s, conn # cs, f))"

section \<open>One packet in each direction\<close>

text \<open>The uplink that a payload of a client names.\<close>

definition payload_up :: "addr \<Rightarrow> defaultSession \<Rightarrow> bytes \<Rightarrow> Uplink" where
  "payload_up client peer b = \<lparr>up_process = AddrPort client (get16 b 0), up_proto = ds_proto peer,
     up_server = AddrPort (ds_dst peer) (get16 b 2)\<rparr>"

text \<open>A packet from the server to the remote: addresses, checksum and transport segment.\<close>

definition forwarded :: "addr \<Rightarrow> u16 \<Rightarrow> defaultSession \<Rightarrow> bytes \<Rightarrow> bytes \<Rightarrow> bool" where
  "forwarded laddr port peer b ip \<longleftrightarrow> v4_wf ip \<and> hdr_sum_ok ip \<and> ucast (ip ! 9) = ds_proto peer
     \<and> window (12, 4) ip = addr_slice laddr \<and> window (16, 4) ip = addr_slice (ds_dst peer)
     \<and> v4_seg ip = server_seg (ds_proto peer) (addr_slice laddr) port b"

lemma server_seg_length: "length (server_seg pr src port b) = length b"
  by (simp add: server_seg_def)

lemma serve_forwards:
  assumes G: "gvisor_laws G" and P: "packet_laws P"
    and pr: "ds_proto peer = TCP \<or> ds_proto peer = UDP"
    and a: "addr_is4 (sv_laddr s)" "addr_is4 (ds_dst peer)"
    and len: "min_hdr (ds_proto peer) \<le> length (p_bytes P pkt)" "length (p_bytes P pkt) + 20 < 65536"
    and env: "it_pcap env = None" "it_send env = None"
    and link: "sv_link s (it_add env) (payload_up client peer (p_bytes P pkt)) conn = Some (s1, Inr port)"
    and s1: "sv_laddr s1 = sv_laddr s" "sv_ip4id s1 = sv_ip4id s" "sv_pcap s1 = sv_pcap s" "sv_sent s1 = sv_sent s"
  shows "\<exists>ip. serve_packet G P s client conn peer pkt env
      = Some (s1\<lparr>sv_ip4id := sv_ip4id s + 1, sv_sent := sv_sent s @ [ip]\<rparr>, Next)
    \<and> forwarded (sv_laddr s) port peer (p_bytes P pkt) ip"
proof -
  let ?b = "p_bytes P pkt" and ?pr = "ds_proto peer"
  define down where "down = \<lparr>dn_server = AddrPort (ds_dst peer) (get16 ?b 2), dn_proto = ?pr, dn_local = AddrPort (sv_laddr s) port\<rparr>"
  have d: "addr_is4 (ap_addr (dn_local down))" "addr_is4 (ap_addr (dn_server down))" "dn_proto down = ?pr"
    using a by (simp_all add: down_def)
  have p4: "4 \<le> length ?b" using len(1) by (simp add: min_hdr_def split: if_splits)
  note ports = transport_lawsD(1,2) [OF G pr p4]
  obtain ip h where ip: "ck_Server G P (sv_ip4id s) pkt down = Some (sv_ip4id s + 1, ip)"
    and b: "p_bytes P ip = h @ server_seg ?pr (addr_slice (sv_laddr s)) port ?b" "length h = 20"
      "v4_wf (p_bytes P ip)" "v4_hl (p_bytes P ip) = 20" "v4_total (p_bytes P ip) = length (p_bytes P ip)"
      "hdr_sum_ok (p_bytes P ip)" "ucast (p_bytes P ip ! 9) = ?pr"
      "window (12, 4) (p_bytes P ip) = addr_slice (sv_laddr s)" "window (16, 4) (p_bytes P ip) = addr_slice (ds_dst peer)"
    using ck_Server_ok [OF G P d(1,2), of pkt "sv_ip4id s"] pr len d(3) by (auto simp: down_def)
  have seg: "v4_seg (p_bytes P ip) = server_seg ?pr (addr_slice (sv_laddr s)) port ?b"
    unfolding v4_seg_def window_def using b(1,2,4,5) by simp
  show ?thesis
  proof (intro exI conjI)
    show "serve_packet G P s client conn peer pkt env
      = Some (s1\<lparr>sv_ip4id := sv_ip4id s + 1, sv_sent := sv_sent s @ [p_bytes P ip]\<rparr>, Next)"
      using pr ports link ip env s1 by (auto simp: serve_packet_def payload_up_def Let_def down_def)
    show "forwarded (sv_laddr s) port peer ?b (p_bytes P ip)"
      using b seg by (simp add: forwarded_def)
  qed
qed

text \<open>A reply of the remote to the allocated port.\<close>

definition reply_to :: "addr \<Rightarrow> u16 \<Rightarrow> Uplink \<Rightarrow> bytes \<Rightarrow> bool" where
  "reply_to laddr port up b \<longleftrightarrow> v4_wf b \<and> ucast (b ! 9) = up_proto up
     \<and> min_hdr (up_proto up) \<le> v4_total b - v4_hl b \<and> v4_total b = length b
     \<and> v4_addr b 12 = ap_addr (up_server up) \<and> get16 (v4_seg b) 0 = ap_port (up_server up)
     \<and> v4_addr b 16 = laddr \<and> get16 (v4_seg b) 2 = port"

lemma recv_returns:
  assumes G: "gvisor_laws G" "update_laws G" and P: "packet_laws P"
    and pr: "up_proto up = TCP \<or> up_proto up = UDP"
    and b: "reply_to (lm_addr (sv_links s)) port up (p_bytes P ip)"
    and d: "lm_Downlink (sv_links s) (down_key (lm_addr (sv_links s)) up port) = Some (conn, cport)"
    and env: "it_pcap env = None"
  shows "recv_packet G P s ip env = Some (s\<lparr>sv_back := sv_back s @
      [(conn, \<lparr>ds_proto = up_proto up, ds_dst = ap_addr (up_server up)\<rparr>, set16 (v4_seg (p_bytes P ip)) 2 cport)]\<rparr>, Next)"
proof -
  let ?b = "p_bytes P ip"
  have wf: "v4_wf ?b" and p: "ucast (?b ! 9) = up_proto up" and len: "min_hdr (up_proto up) \<le> v4_total ?b - v4_hl ?b"
    and tot: "v4_total ?b = length ?b" using b unfolding reply_to_def by blast+
  have l4: "4 \<le> v4_total ?b - v4_hl ?b" using len by (simp add: min_hdr_def split: if_splits)
  have pr': "ucast (?b ! 9) = TCP \<or> ucast (?b ! 9) = (UDP :: proto)" using p pr by simp
  have key: "\<lparr>dn_server = s_src (v4_tuple ?b), dn_proto = s_proto (v4_tuple ?b), dn_local = s_dst (v4_tuple ?b)\<rparr>
      = down_key (lm_addr (sv_links s)) up port"
    using b p by (cases "up_server up") (simp add: v4_tuple_def down_key_def reply_to_def)
  have "p_bytes P (p_SetHead P ip (p_head P ip + v4_hl ?b)) = drop (v4_hl ?b) ?b"
    using packet_lawsD(3) [OF P] v4_wfD(5) [OF wf] by simp
  also have "\<dots> = v4_seg ?b" using tot v4_wfD(5) [OF wf] by (simp add: v4_seg_def window_def)
  finally have seg: "p_bytes P (p_SetHead P ip (p_head P ip + v4_hl ?b)) = v4_seg ?b" .
  have "g_SetDestinationPort G (up_proto up) (v4_seg ?b) cport = Some (set16 (v4_seg ?b) 2 cport)"
    using update_lawD [OF G(2) pr, of "v4_seg ?b"] len v4_wfD(6) [OF wf] by simp
  then show ?thesis
    using link_StripIP_v4 [OF G(1) wf pr' l4] key d env pr seg
    by (simp add: recv_packet_def Let_def down_key_def)
qed

end
