(* ===== verification/Client_Loop.thy ===== *)
theory Client_Loop
  imports Server_Loop Tcp_Mss
begin

text \<open>
  The client: the uplink and downlink loops of \<open>client.go\<close> and the default capturer of
  \<open>client_windows.go\<close>. Each round is given what its calls return; the records of what was
  handed on are in order.
\<close>

section \<open>The loops\<close>

text \<open>\<open>cl_sent\<close>: what the connection was given to send, with the peer; \<open>cl_injected\<close>: the
  packets handed to the capturer.\<close>

record client =
  cl_laddr :: addr
  cl_pcap :: bool
  cl_closed :: bool
  cl_sent :: "(defaultSession \<times> bytes) list"
  cl_injected :: "bytes list"

record cl_env =
  ce_pcap :: "go_error option"
  ce_out :: "go_error option"

text \<open>\<open>close\<close> cancels the context and closes the capturer and the connection, once.\<close>

definition cl_close :: "client \<Rightarrow> client" where
  "cl_close c = c\<lparr>cl_closed := True\<rparr>"

definition cl_Close :: "client \<Rightarrow> client" where
  "cl_Close c = cl_close c"

text \<open>A captured packet: the peer is its protocol and destination, the transport segment with
  the client's part of the checksum goes to the connection.\<close>

definition uplink_round :: "gvisor \<Rightarrow> 'p packet_api \<Rightarrow> client \<Rightarrow> 'p \<Rightarrow> cl_env \<Rightarrow> (client \<times> flow) option" where
  "uplink_round G P c ip env =
     (if cl_pcap c \<and> ce_pcap env \<noteq> None then Some (cl_close c, Stop)
      else do {
        proto \<leftarrow> g_v4_proto G (p_bytes P ip);
        da \<leftarrow> g_v4_dst G (p_bytes P ip);
        dst \<leftarrow> addr_from4 da;
        pkt \<leftarrow> ck_Client G P ip;
        if ce_out env \<noteq> None then Some (cl_close c, Stop)
        else Some (c\<lparr>cl_sent := cl_sent c @ [(\<lparr>ds_proto = proto, ds_dst = dst\<rparr>, p_bytes P pkt)]\<rparr>, Next)
      })"

fun uplinkService :: "(go_error \<Rightarrow> bool) \<Rightarrow> gvisor \<Rightarrow> 'p packet_api \<Rightarrow> client \<Rightarrow> ('p result \<times> cl_env) list
    \<Rightarrow> (client \<times> flow) option" where
  "uplinkService temp G P c [] = Some (c, Next)"
| "uplinkService temp G P c ((Inl err, env) # r) =
     (if temp err then uplinkService temp G P c r else Some (cl_close c, Stop))"
| "uplinkService temp G P c ((Inr ip, env) # r) =
     (case uplink_round G P c ip env of
        None \<Rightarrow> None
      | Some (c, Next) \<Rightarrow> uplinkService temp G P c r
      | Some (c, Stop) \<Rightarrow> Some (c, Stop))"

text \<open>A received payload: an IPv4 header from the peer to the client in front of it.\<close>

definition downlink_header :: "gvisor \<Rightarrow> addr \<Rightarrow> defaultSession \<Rightarrow> bytes \<Rightarrow> bytes option" where
  "downlink_header G laddr peer b = do {
     src \<leftarrow> addr_as4 (ds_dst peer);
     dst \<leftarrow> addr_as4 laddr;
     b \<leftarrow> g_v4_Encode G b \<lparr>f_tos = 0, f_total = of_nat (length b), f_id = 0, f_ttl = 64,
       f_proto = ucast (ds_proto peer), f_src = src, f_dst = dst\<rparr>;
     rechecksum G b
   }"

definition downlink_round :: "gvisor \<Rightarrow> 'p packet_api \<Rightarrow> client \<Rightarrow> defaultSession \<Rightarrow> 'p \<Rightarrow> cl_env \<Rightarrow> (client \<times> flow) option" where
  "downlink_round G P c peer pkt env = do {
     let pkt = p_AttachN P pkt 20;
     b \<leftarrow> downlink_header G (cl_laddr c) peer (p_bytes P pkt);
     let pkt = p_store P pkt b;
     if cl_pcap c \<and> ce_pcap env \<noteq> None then Some (cl_close c, Stop)
     else if ce_out env \<noteq> None then Some (cl_close c, Stop)
     else Some (c\<lparr>cl_injected := cl_injected c @ [p_bytes P pkt]\<rparr>, Next)
   }"

fun downlinkServic :: "(go_error \<Rightarrow> bool) \<Rightarrow> gvisor \<Rightarrow> 'p packet_api \<Rightarrow> client
    \<Rightarrow> ((defaultSession \<times> 'p) result \<times> cl_env) list \<Rightarrow> (client \<times> flow) option" where
  "downlinkServic temp G P c [] = Some (c, Next)"
| "downlinkServic temp G P c ((Inl err, env) # r) =
     (if temp err then downlinkServic temp G P c r else Some (cl_close c, Stop))"
| "downlinkServic temp G P c ((Inr (peer, pkt), env) # r) =
     (case downlink_round G P c peer pkt env of
        None \<Rightarrow> None
      | Some (c, Next) \<Rightarrow> downlinkServic temp G P c r
      | Some (c, Stop) \<Rightarrow> Some (c, Stop))"

section \<open>The capturer\<close>

text \<open>\<open>cp_passed\<close>: what was sent on unchanged. The driver and the map from ports to process
  names are the environment of a round.\<close>

record capture =
  cp_process :: "string option"
  cp_overhead :: int
  cp_closed :: bool
  cp_passed :: "bytes list"
  cp_injected :: "bytes list"

record cap_env =
  cv_recv :: "bytes result"
  cv_name :: "string result"
  cv_send :: "go_error option"
  cv_pcap :: "go_error option"

datatype 'p cap_res = CapBlocked | CapHangs | CapOk 'p | CapErr go_error | CapClosed go_error

definition cp_close :: "capture \<Rightarrow> capture" where
  "cp_close c = c\<lparr>cp_closed := True\<rparr>"

definition cp_Enable :: "capture \<Rightarrow> string \<Rightarrow> capture" where
  "cp_Enable c process = c\<lparr>cp_process := Some process\<rparr>"

text \<open>The MSS option of a TCP packet. A TCP header ends within 60 bytes, so 61 iterations are
  enough for every walk that ends; one that needs more never does.\<close>

definition cp_mss :: "gvisor \<Rightarrow> int \<Rightarrow> proto \<Rightarrow> bytes \<Rightarrow> bytes option option" where
  "cp_mss G overhead proto b =
     (if proto = TCP then
        (case g_v4_Payload G b of
           None \<Rightarrow> None
         | Some w \<Rightarrow>
             (case UpdateTcpMssOption G 61 (window w b) (- overhead) of
                MssFuel \<Rightarrow> Some None
              | MssPanic \<Rightarrow> None
              | MssDone seg _ \<Rightarrow> Some (Some (set_window w seg b))))
      else Some (Some b))"

definition addr_multicast :: "addr \<Rightarrow> bool" where
  "addr_multicast a = (case a of AddrZero \<Rightarrow> False | Addr4 x _ _ _ \<Rightarrow> x AND 0xf0 = 0xe0
     | Addr6 w _ \<Rightarrow> drop_bit 120 w = 0xff)"

text \<open>Whether a packet is to be passed on: \<open>Inl\<close> is the error that closes the capturer,
  no value the nil pointer of a process that was never set.\<close>

definition cp_pass :: "(go_error \<Rightarrow> bool) \<Rightarrow> capture \<Rightarrow> Session \<Rightarrow> string result \<Rightarrow> bool result option" where
  "cp_pass temp c s name =
     (if addr_multicast (ap_addr (s_dst s)) then Some (Inr True)
      else (case name of
          Inl err \<Rightarrow> Some (if temp err then Inr True else Inl err)
        | Inr n \<Rightarrow> map_option (\<lambda>p. Inr (n \<noteq> p)) (cp_process c)))"

fun Capture :: "(go_error \<Rightarrow> bool) \<Rightarrow> gvisor \<Rightarrow> 'p packet_api \<Rightarrow> nat \<Rightarrow> nat \<Rightarrow> capture \<Rightarrow> 'p \<Rightarrow> cap_env list
    \<Rightarrow> (capture \<times> 'p cap_res \<times> cap_env list) option" where
  "Capture temp G P head data c ip [] = Some (c, CapBlocked, [])"
| "Capture temp G P head data c ip (e # r) =
     (let ip = p_Sets P ip head data in
      case cv_recv e of
        Inl err \<Rightarrow> Some (cp_close c, CapClosed err, r)
      | Inr d \<Rightarrow>
          (let (b, n) = go_copy (p_bytes P ip) d in
           if n = 0 then Capture temp G P head data c ip r
           else
             (let ip = p_SetData P (p_store P ip b) n in
              case FromIP G (p_bytes P ip) of
                None \<Rightarrow> None
              | Some (Inl err) \<Rightarrow> Some (c, CapErr err, r)
              | Some (Inr s) \<Rightarrow>
                  (case cp_pass temp c s (cv_name e) of
                     None \<Rightarrow> None
                   | Some (Inl err) \<Rightarrow> Some (cp_close c, CapClosed err, r)
                   | Some (Inr True) \<Rightarrow>
                       (case cv_send e of
                          Some err \<Rightarrow> Some (cp_close c, CapClosed err, r)
                        | None \<Rightarrow> Capture temp G P head data (c\<lparr>cp_passed := cp_passed c @ [p_bytes P ip]\<rparr>) ip r)
                   | Some (Inr False) \<Rightarrow>
                       (case cp_mss G (cp_overhead c) (s_proto s) (p_bytes P ip) of
                          None \<Rightarrow> None
                        | Some None \<Rightarrow> Some (c, CapHangs, r)
                        | Some (Some b) \<Rightarrow>
                            (case cv_pcap e of
                               Some err \<Rightarrow> Some (c, CapErr err, r)
                             | None \<Rightarrow> Some (c, CapOk (p_store P ip b), r)))))))"

definition Inject :: "gvisor \<Rightarrow> 'p packet_api \<Rightarrow> capture \<Rightarrow> 'p \<Rightarrow> go_error option \<Rightarrow> go_error option
    \<Rightarrow> (capture \<times> go_error option option) option" where
  "Inject G P c ip pcap send = do {
     proto \<leftarrow> g_v4_proto G (p_bytes P ip);
     m \<leftarrow> cp_mss G (cp_overhead c) proto (p_bytes P ip);
     case m of
       None \<Rightarrow> Some (c, None)
     | Some b \<Rightarrow>
         if pcap \<noteq> None then Some (c, Some pcap)
         else Some (if send = None then c\<lparr>cp_injected := cp_injected c @ [b]\<rparr> else c, Some send)
   }"

section \<open>One packet in each direction\<close>

lemma window_addr: "k + 4 \<le> length b \<Longrightarrow> window (k, 4) b = addr_slice (v4_addr b k)"
  unfolding window_def v4_addr_def by (intro nth_equalityI) (auto simp: less_Suc_eq nth_Cons' numeral_eq_Suc)

lemma uplink_sends:
  assumes G: "gvisor_laws G" and P: "packet_laws P"
    and b: "v4_wf (p_bytes P ip)" "v4_total (p_bytes P ip) = length (p_bytes P ip)"
    and pr: "pr = TCP \<or> pr = UDP" "ucast (p_bytes P ip ! 9) = pr"
    and len: "min_hdr pr \<le> length (v4_seg (p_bytes P ip))"
    and env: "ce_pcap env = None" "ce_out env = None"
  shows "uplink_round G P c ip env = Some (c\<lparr>cl_sent := cl_sent c @
    [(\<lparr>ds_proto = pr, ds_dst = v4_addr (p_bytes P ip) 16\<rparr>,
      client_seg pr (addr_slice (v4_addr (p_bytes P ip) 16)) (v4_seg (p_bytes P ip)))]\<rparr>, Next)"
proof -
  let ?b = "p_bytes P ip"
  have l: "20 \<le> length ?b" using v4_wfD [OF b(1)] by simp
  have w: "window (16, 4) ?b = addr_slice (v4_addr ?b 16)" using window_addr [of 16] l by simp
  have a: "addr_from4 (window (16, 4) ?b) = Some (v4_addr ?b 16)"
    unfolding w by (simp add: v4_addr_def)
  obtain pkt where "ck_Client G P ip = Some pkt" "p_bytes P pkt = client_seg pr (window (16, 4) ?b) (v4_seg ?b)"
    using ck_Client_ok [OF G P b pr len] by blast
  then show ?thesis
    using v4_lawsD(2,4) [OF G l] a env pr(2) unfolding w by (simp add: uplink_round_def)
qed

lemma downlink_injects:
  assumes G: "gvisor_laws G" and P: "packet_laws P"
    and pr: "ds_proto peer = TCP \<or> ds_proto peer = UDP" and a: "addr_is4 (cl_laddr c)" "addr_is4 (ds_dst peer)"
    and len: "min_hdr (ds_proto peer) \<le> length (p_bytes P pkt)" "length (p_bytes P pkt) + 20 < 65536"
    and env: "ce_pcap env = None" "ce_out env = None"
  shows "\<exists>ip. downlink_round G P c peer pkt env = Some (c\<lparr>cl_injected := cl_injected c @ [ip]\<rparr>, Next)
    \<and> v4_wf ip \<and> hdr_sum_ok ip \<and> seg_sum_ok (ds_proto peer) (addr_slice (ds_dst peer)) (addr_slice (cl_laddr c)) (v4_seg ip)
    \<and> window (12, 4) ip = addr_slice (ds_dst peer) \<and> window (16, 4) ip = addr_slice (cl_laddr c)
    \<and> set16 (v4_seg ip) (sum_off (ds_proto peer)) 0 = set16 (p_bytes P pkt) (sum_off (ds_proto peer)) 0"
proof -
  let ?b = "p_bytes P pkt" and ?pr = "ds_proto peer"
  obtain xs where xs: "length xs = 20" "p_bytes P (p_AttachN P pkt 20) = xs @ ?b"
    using packet_lawsD(6) [OF P, of 20 pkt] by blast
  define f where "f = \<lparr>f_tos = 0, f_total = of_nat (length (xs @ ?b)), f_id = 0, f_ttl = 64,
    f_proto = ucast ?pr, f_src = addr_slice (ds_dst peer), f_dst = addr_slice (cl_laddr c)\<rparr>"
  have sl: "length (addr_slice x) = 4" if "addr_is4 x" for x using that by (cases x) auto
  have fl: "length (f_src f) = 4" "length (f_dst f) = 4" using a sl by (simp_all add: f_def)
  note F = v4_header_fields [OF fl]
  let ?h = "v4_header f @ ?b"
  have "unat (of_nat (length (xs @ ?b)) :: u16) = length (xs @ ?b)"
    unfolding unat_of_nat using len(2) xs(1) by simp
  then have "unat (f_total f) = length (xs @ ?b)" by (simp only: f_def v4_fields.simps)
  then have tot: "v4_total ?h = length ?h" using xs(1) F(1,4) by (simp add: v4_total_def)
  have wf: "v4_wf ?h" using F(1,2,5) tot by (simp add: v4_wf_def)
  have p9: "ucast (?h ! 9) = ?pr" using pr F(3) by (auto simp: f_def)
  have seg: "v4_seg ?h = ?b" using F(1,2) tot by (simp add: v4_seg_def window_def)
  obtain b' where b': "rechecksum G ?h = Some b'" "length b' = length ?h" "v4_wf b'" "hdr_sum_ok b'"
    "seg_sum_ok ?pr (window (12, 4) b') (window (16, 4) b') (v4_seg b')"
    "window (12, 4) b' = window (12, 4) ?h" "window (16, 4) b' = window (16, 4) ?h"
    "set16 (v4_seg b') (sum_off ?pr) 0 = set16 (v4_seg ?h) (sum_off ?pr) 0"
    using rechecksum_ok [OF G wf pr p9] len(1) seg by auto
  have hd: "downlink_header G (cl_laddr c) peer (xs @ ?b) = Some b'"
    using a fl xs(1) v4_lawsD(9) [OF G, of "xs @ ?b" f] b'(1) by (simp add: downlink_header_def addr_as4_is4 f_def)
  have "p_bytes P (p_store P (p_AttachN P pkt 20) b') = b'"
    using packet_lawsD(1) [OF P] b'(2) F(1) xs by simp
  then have "downlink_round G P c peer pkt env = Some (c\<lparr>cl_injected := cl_injected c @ [b']\<rparr>, Next)"
    using hd xs(2) env by (simp add: downlink_round_def)
  then show ?thesis using b' F(6,7) seg by (auto simp: f_def)
qed

end
