(* ===== verification/Server_Props.thy ===== *)
theory Server_Props
  imports Server_Loop Packet_Props Conn_Props
begin

text \<open>
  The properties of the proxy server: a client's packet goes out with valid checksums over a
  link of its own and the replies come back to it; what happens to a link that another
  connection uses too; and what a short datagram does.
\<close>

section \<open>Forwarding\<close>

lemma sv_link_new:
  assumes "lm_inv (sv_ap s) (sv_links s)" "add_env_ok (sv_ap s) e (sv_links s) up"
    and "up_proto up = TCP \<or> up_proto up = UDP" "uplinkMap (sv_links s) up = None" "ap_valid (up_process up)"
  shows "\<exists>ap t r. sv_link s e up conn = Some (s\<lparr>sv_ap := ap, sv_links := t\<rparr>, r) \<and> lm_inv ap t \<and> lm_addr t = lm_addr (sv_links s)
    \<and> (case r of Inr p \<Rightarrow> routed t up p conn | Inl err \<Rightarrow> uplinkMap t up = None)"
proof -
  obtain ap t r where a: "lm_Add (sv_ap s) e (sv_links s) up conn = Some (ap, t, r)" "lm_inv ap t"
    "lm_addr t = lm_addr (sv_links s)"
    "case r of Inr p \<Rightarrow> uplinkMap t up = Some (NewPort p) \<and> routed t up p conn
           \<and> (\<forall>x j. x \<noteq> down_key (lm_addr (sv_links s)) up p \<longrightarrow> lm_Downlink t x = Some j \<longrightarrow> lm_Downlink (sv_links s) x = Some j)
       | Inl e \<Rightarrow> uplinkMap t up = None"
    using lm_Add_ok [OF assms, of conn] by (elim exE conjE) (rule that; assumption)
  have "sv_link s e up conn = Some (s\<lparr>sv_ap := ap, sv_links := t\<rparr>, r)"
    using assms(4) a(1) by (simp add: sv_link_def lm_Uplink_def)
  moreover have "case r of Inr p \<Rightarrow> routed t up p conn | Inl err \<Rightarrow> uplinkMap t up = None"
    using a(4) by (cases r) simp_all
  ultimately show ?thesis using a(2,3) by blast
qed

text \<open>Replies to the port of a link go to the connection of its route, under the peer of the
  packet that the uplink comes from.\<close>

lemma replies_return:
  assumes "gvisor_laws G" "update_laws G" "packet_laws P"
    and "ds_proto peer = TCP \<or> ds_proto peer = UDP" "up = payload_up client peer b" "lm_addr (sv_links s) = laddr"
    and "lm_Downlink (sv_links s) (down_key laddr up port) = Some (conn, cport)"
    and "reply_to laddr port up (p_bytes P reply)" "it_pcap env = None"
  shows "\<exists>s'. recv_packet G P s reply env = Some (s', Next)
    \<and> sv_back s' = sv_back s @ [(conn, peer, set16 (v4_seg (p_bytes P reply)) 2 cport)]"
proof -
  have u: "up_proto up = ds_proto peer" "\<lparr>ds_proto = up_proto up, ds_dst = ap_addr (up_server up)\<rparr> = peer"
    unfolding assms(5) by (simp_all add: payload_up_def)
  from recv_returns [OF assms(1-3), of up s port reply conn cport env] assms(4,6-9) u show ?thesis by simp
qed

text \<open>A link that cannot be made.\<close>

lemma sv_link_refused:
  assumes "sv_link s a up conn = Some (s', Inl err)" "uplinkMap (sv_links s) up = None"
    and "up_proto up = TCP \<or> up_proto up = UDP" "ap_valid (up_server up)"
  shows "getport_scan (fst (ae_port a)) (up_proto up) (up_server up) = 0 \<and> \<not> listen_grants (snd (ae_port a))"
proof -
  obtain ap t where "lm_Add (sv_ap s) a (sv_links s) up conn = Some (ap, t, Inl err)"
    using assms(1,2) by (auto simp: sv_link_def lm_Uplink_def bind_eq_Some_conv)
  from lm_Add_granted [OF this assms(4,3)] show ?thesis .
qed

text \<open>
  C7. The server forwards both ways. For a packet of a client that has no link yet, a round of
  \<open>serveConn\<close> never panics and keeps the invariant of the links; unless a new port is needed
  (\<open>getport_scan\<close> finds none to share) and the system refuses it (\<open>listen_grants\<close> fails), it
  sends one well-formed packet from a port of its own whose header checksum is valid, and whose
  transport checksum is valid when the client computed its part. Every reply of the remote to
  that port then goes to exactly this connection, named by the same peer
  and addressed to the port of the client's process.
\<close>

theorem server_forwards_both_ways:
  assumes "gvisor_laws G" "update_laws G" "packet_laws P"
    and "lm_inv (sv_ap s) (sv_links s)" "lm_addr (sv_links s) = sv_laddr s"
    and "ds_proto peer = TCP \<or> ds_proto peer = UDP"
    and "addr_is4 (sv_laddr s)" "addr_is4 (ds_dst peer)" "addr_valid client"
    and "min_hdr (ds_proto peer) \<le> length (p_bytes P pkt)" "length (p_bytes P pkt) + 20 < 65536"
    and "up = payload_up client peer (p_bytes P pkt)" "uplinkMap (sv_links s) up = None"
    and "add_env_ok (sv_ap s) (it_add env) (sv_links s) up" "it_pcap env = None" "it_send env = None"
  shows "\<exists>s'. serve_packet G P s client conn peer pkt env = Some (s', Next) \<and> lm_inv (sv_ap s') (sv_links s')
    \<and> (getport_scan (fst (ae_port (it_add env))) (up_proto up) (up_server up) = 0
          \<and> \<not> listen_grants (snd (ae_port (it_add env))) \<and> sv_sent s' = sv_sent s \<and> uplinkMap (sv_links s') up = None
      \<or> (\<exists>port ip. sv_sent s' = sv_sent s @ [ip] \<and> forwarded (sv_laddr s) port peer (p_bytes P pkt) ip
          \<and> (\<forall>seg. p_bytes P pkt = client_seg (ds_proto peer) (addr_slice (ds_dst peer)) seg \<longrightarrow>
               seg_sum_ok (ds_proto peer) (addr_slice (sv_laddr s)) (addr_slice (ds_dst peer)) (v4_seg ip))
          \<and> (\<forall>reply env'. reply_to (sv_laddr s) port up (p_bytes P reply) \<longrightarrow> it_pcap env' = None \<longrightarrow>
               (\<exists>s''. recv_packet G P s' reply env' = Some (s'', Next)
                 \<and> sv_back s'' = sv_back s' @ [(conn, peer, set16 (v4_seg (p_bytes P reply)) 2 (get16 (p_bytes P pkt) 0))]))))"
proof -
  let ?b = "p_bytes P pkt"
  have u: "up_proto up = ds_proto peer" "ap_valid (up_process up)" "ap_addr (up_server up) = ds_dst peer"
    "ap_port (up_process up) = get16 ?b 0"
    using assms(9) unfolding assms(12) by (simp_all add: payload_up_def ap_valid_def)
  obtain ap t r where l: "sv_link s (it_add env) up conn = Some (s\<lparr>sv_ap := ap, sv_links := t\<rparr>, r)" "lm_inv ap t"
    "lm_addr t = sv_laddr s" "case r of Inr p \<Rightarrow> routed t up p conn | Inl err \<Rightarrow> uplinkMap t up = None"
    using sv_link_new [OF assms(4,14) _ assms(13) u(2), of conn] assms(5,6) u(1) by auto
  let ?s1 = "s\<lparr>sv_ap := ap, sv_links := t\<rparr>"
  show ?thesis
  proof (cases r)
    case (Inl err)
    have "4 \<le> length ?b" using assms(10) by (simp add: min_hdr_def split: if_splits)
    note ports = transport_lawsD(1,2) [OF assms(1,6) this]
    have "serve_packet G P s client conn peer pkt env = Some (?s1, Next)"
      using assms(6) ports l(1) Inl by (auto simp: serve_packet_def assms(12) payload_up_def Let_def)
    moreover have "ap_valid (up_server up)" using u(3) assms(8) by (cases "ds_dst peer") (simp_all add: ap_valid_def)
    from sv_link_refused [OF l(1) [unfolded Inl] assms(13) _ this] u(1) assms(6)
    have "getport_scan (fst (ae_port (it_add env))) (up_proto up) (up_server up) = 0 \<and> \<not> listen_grants (snd (ae_port (it_add env)))"
      by simp
    ultimately show ?thesis using l Inl by auto
  next
    case (Inr port)
    obtain ip where ip: "serve_packet G P s client conn peer pkt env
        = Some (?s1\<lparr>sv_ip4id := sv_ip4id s + 1, sv_sent := sv_sent s @ [ip]\<rparr>, Next)"
      and f: "forwarded (sv_laddr s) port peer ?b ip"
      using serve_forwards [OF assms(1,3,6-8,10,11,15,16), of client conn ?s1 port] l(1) Inr assms(12) by auto
    let ?s' = "?s1\<lparr>sv_ip4id := sv_ip4id s + 1, sv_sent := sv_sent s @ [ip]\<rparr>"
    have d: "lm_Downlink (sv_links ?s') (down_key (lm_addr (sv_links ?s')) up port) = Some (conn, get16 ?b 0)"
      using l(4) Inr u(4) by (simp add: routed_def)
    have la: "lm_addr (sv_links ?s') = sv_laddr s" "lm_inv (sv_ap ?s') (sv_links ?s')" using l(2,3) by simp_all
    note ret = replies_return [OF assms(1-3,6,12) la(1) d [unfolded la(1)]]
    have sum: "seg_sum_ok (ds_proto peer) (addr_slice (sv_laddr s)) (addr_slice (ds_dst peer)) (v4_seg ip)"
      if "?b = client_seg (ds_proto peer) (addr_slice (ds_dst peer)) seg" for seg
    proof -
      have "length ?b = length seg" unfolding that by (simp add: client_seg_def)
      then show ?thesis using server_seg_ok [OF assms(6), of seg] assms(10) f that by (simp add: forwarded_def)
    qed
    have "sv_sent ?s' = sv_sent s @ [ip]" by simp
    with ip f ret sum la(2) show ?thesis by blast
  qed
qed

definition w_server :: "string server" where
  "w_server = \<lparr>sv_laddr = w_addr, sv_ap = w_ap1, sv_links = w_lm1, sv_ip4id = 0, sv_pcap = False,
     sv_closed = False, sv_sent = [], sv_back = []\<rparr>"

definition w_it :: sv_env where
  "w_it = \<lparr>it_add = w_env, it_pcap = None, it_send = None, it_order = [], it_close = w_close\<rparr>"

text \<open>A TCP segment from port 4001 or 4000 to port 80.\<close>

definition w_seg :: "u8 \<Rightarrow> bytes" where
  "w_seg n = [15, n, 0, 80, 0, 0, 0, 1, 0, 0, 0, 0, 0x50, 2, 255, 255, 0, 0, 0, 0]"

definition w_client :: addr where "w_client = Addr4 192 168 0 7"

definition w_to :: "u8 \<Rightarrow> defaultSession" where "w_to n = \<lparr>ds_proto = TCP, ds_dst = Addr4 8 8 8 n\<rparr>"

lemma w_payload_up: "payload_up w_client (w_to n) (w_seg 161) = w_up 4001 n"
    "payload_up w_client (w_to n) (w_seg 160) = w_up 4000 n"
  by (simp_all add: payload_up_def w_client_def w_to_def w_seg_def w_up_def w_remote_def get16_def be16_def)

lemma w_forward_facts:
  "addr_is4 (sv_laddr w_server)" "addr_is4 (ds_dst (w_to n))" "addr_valid w_client"
  "ds_proto (w_to n) = TCP \<or> ds_proto (w_to n) = UDP" "lm_addr (sv_links w_server) = sv_laddr w_server"
  "min_hdr (ds_proto (w_to n)) \<le> length (p_bytes framed ([], w_seg k))" "length (p_bytes framed ([], w_seg k)) + 20 < 65536"
  "p_bytes framed ([], w_seg k) = w_seg k" "it_pcap w_it = None" "it_send w_it = None"
  by (simp_all add: w_server_def w_addr_def w_to_def w_client_def w_lm1_def min_hdr_def framed_def w_seg_def w_it_def)

theorem server_forwards_both_ways_witness:
  "\<exists>s' port ip. serve_packet rfc framed w_server w_client ''conn2'' (w_to 9) ([], w_seg 161) w_it = Some (s', Next)
    \<and> lm_inv (sv_ap s') (sv_links s') \<and> sv_sent s' = [ip] \<and> forwarded w_addr port (w_to 9) (w_seg 161) ip"
proof -
  have g: "listen_grants (snd (ae_port (it_add w_it)))" "sv_sent w_server = []" "sv_laddr w_server = w_addr"
    by (simp_all add: listen_grants_def w_it_def w_env_def w_listen_def w_filter_def setFilterAll_def w_server_def)
  note F = w_forward_facts
  have inv: "lm_inv (sv_ap w_server) (sv_links w_server)" by (simp add: w_server_def w_lm1_inv)
  have u: "w_up 4001 9 = payload_up w_client (w_to 9) (p_bytes framed ([], w_seg 161))"
    by (simp add: w_forward_facts(8) w_payload_up)
  have n: "uplinkMap (sv_links w_server) (w_up 4001 9) = None"
    "add_env_ok (sv_ap w_server) (it_add w_it) (sv_links w_server) (w_up 4001 9)"
    using w_env_ok by (simp_all add: w_server_def w_lm1_up w_it_def)
  from server_forwards_both_ways [OF rfc_laws rfc_update_laws framed_laws inv w_forward_facts(5) F(4) F(1-3) F(6,7) u n F(9,10), where conn = "''conn2''"]
  show ?thesis using g F(8) by (simp, elim exE conjE) (intro exI conjI; assumption)
qed

section \<open>Links in use\<close>

text \<open>
  C34. A link in use is reused, whoever uses it: a packet whose five-tuple has a link leaves
  from the link's port with valid checksums, and the replies go to the connection that added
  the link and to its process port. The connection the packet came on plays no part: a second
  client behind the same address with the same process port, or the same client on a new
  connection, never gets a reply.
\<close>

theorem server_link_kept_by_first:
  assumes "gvisor_laws G" "update_laws G" "packet_laws P"
    and "lm_inv (sv_ap s) (sv_links s)" "lm_addr (sv_links s) = sv_laddr s"
    and "ds_proto peer = TCP \<or> ds_proto peer = UDP"
    and "addr_is4 (sv_laddr s)" "addr_is4 (ds_dst peer)"
    and "min_hdr (ds_proto peer) \<le> length (p_bytes P pkt)" "length (p_bytes P pkt) + 20 < 65536"
    and "up = payload_up client peer (p_bytes P pkt)"
    and "uplinkMap (sv_links s) up = Some d" "port_uses d < 2 ^ 48 - 1"
    and "lm_Downlink (sv_links s) (down_key (sv_laddr s) up (port_num d)) = Some (first, cport)"
    and "it_pcap env = None" "it_send env = None"
  shows "\<exists>s' ip. serve_packet G P s client conn peer pkt env = Some (s', Next) \<and> lm_inv (sv_ap s') (sv_links s')
    \<and> sv_sent s' = sv_sent s @ [ip] \<and> forwarded (sv_laddr s) (port_num d) peer (p_bytes P pkt) ip
    \<and> (\<forall>reply env'. reply_to (sv_laddr s) (port_num d) up (p_bytes P reply) \<longrightarrow> it_pcap env' = None \<longrightarrow>
         (\<exists>s''. recv_packet G P s' reply env' = Some (s'', Next)
           \<and> sv_back s'' = sv_back s' @ [(first, peer, set16 (v4_seg (p_bytes P reply)) 2 cport)]))"
proof -
  let ?b = "p_bytes P pkt" and ?t = "fst (lm_Uplink (sv_links s) up)"
  have u: "up_proto up = ds_proto peer" "ap_addr (up_server up) = ds_dst peer"
    unfolding assms(11) by (simp_all add: payload_up_def)
  have t: "lm_inv (sv_ap s) ?t" "snd (lm_Uplink (sv_links s) up) = Some (port_num d)"
    using lm_Uplink_ok [OF assms(4), of up] assms(12,13) by simp_all
  have same: "lm_addr ?t = sv_laddr s" "lm_Downlink ?t = lm_Downlink (sv_links s)"
    using assms(5,12) by (auto simp: lm_Uplink_def lm_Downlink_def Let_def case_prod_unfold fun_eq_iff)
  have l: "sv_link s (it_add env) up conn = Some (s\<lparr>sv_links := ?t\<rparr>, Inr (port_num d))"
    using t(2) by (simp add: sv_link_def case_prod_unfold)
  let ?s1 = "s\<lparr>sv_links := ?t\<rparr>"
  obtain ip where ip: "serve_packet G P s client conn peer pkt env
      = Some (?s1\<lparr>sv_ip4id := sv_ip4id s + 1, sv_sent := sv_sent s @ [ip]\<rparr>, Next)"
    and f: "forwarded (sv_laddr s) (port_num d) peer ?b ip"
    using serve_forwards [OF assms(1,3,6-10,15,16), of client conn ?s1 "port_num d"] l assms(11) by auto
  let ?s' = "?s1\<lparr>sv_ip4id := sv_ip4id s + 1, sv_sent := sv_sent s @ [ip]\<rparr>"
  have d: "lm_Downlink (sv_links ?s') (down_key (lm_addr (sv_links ?s')) up (port_num d)) = Some (first, cport)"
    using assms(14) same by simp
  have la: "lm_addr (sv_links ?s') = sv_laddr s" using same(1) by simp
  note ret = replies_return [OF assms(1-3,6,11) la d [unfolded la]]
  have "lm_inv (sv_ap ?s') (sv_links ?s')" "sv_sent ?s' = sv_sent s @ [ip]" using t(1) by simp_all
  with ip f ret show ?thesis by blast
qed

theorem server_link_kept_by_first_witness:
  "\<exists>s' ip. serve_packet rfc framed w_server w_client ''conn2'' (w_to 8) ([], w_seg 160) w_it = Some (s', Next)
    \<and> sv_sent s' = [ip]"
proof -
  note F = w_forward_facts
  have inv: "lm_inv (sv_ap w_server) (sv_links w_server)" by (simp add: w_server_def w_lm1_inv)
  have u: "w_up 4000 8 = payload_up w_client (w_to 8) (p_bytes framed ([], w_seg 160))"
    by (simp add: w_forward_facts(8) w_payload_up)
  have p: "port_num (NewPort 5000) = 5000" "port_uses (NewPort 5000) = 0"
    by (simp_all add: port_num_NewPort port_uses_NewPort)
  have n: "uplinkMap (sv_links w_server) (w_up 4000 8) = Some (NewPort 5000)" "port_uses (NewPort 5000) < 2 ^ 48 - 1"
    "lm_Downlink (sv_links w_server) (down_key (sv_laddr w_server) (w_up 4000 8) (port_num (NewPort 5000))) = Some (''conn'', 4000)"
    by (simp_all add: w_server_def w_lm1_up p lm_Downlink_def) (simp add: w_lm1_def)
  have e: "sv_sent w_server = []" by (simp add: w_server_def)
  from server_link_kept_by_first [OF rfc_laws rfc_update_laws framed_laws inv w_forward_facts(5) F(4) F(1,2) F(6,7) u n F(9,10)]
  show ?thesis unfolding e append_Nil by blast
qed

section \<open>Short datagrams\<close>

text \<open>
  C39. A datagram that is too short breaks the server. On a connection without a cipher, a
  datagram of a valid peer header and fewer than four more bytes is delivered, and reading
  the ports of the payload panics, which ends the process. A datagram shorter than the header
  is an error that is not temporary, so the round of \<open>serveConn\<close> closes the connection.
\<close>

theorem server_short_datagram:
  assumes "short_laws G" "packet_laws P" "reveal_law P" "c_crypto c = None" "c_queue c = []"
    and "ds_Valid (Some peer)" "\<not> ds_IsBuiltin (Some peer)" "length x < 4"
    and "5 + length x \<le> length (p_bytes P (p_Sets P buf (p_head P buf) (p_data P buf)))"
  shows "(\<exists>buf'. Recv G P (Some None) c (Some r) buf (Inr (ds_wire peer @ x) # env) = Some (c, Some peer, buf', RecvOk, env)
      \<and> p_bytes P buf' = x \<and> serve_packet G P s client conn peer buf' senv = None)
    \<and> (\<forall>d. length d < 5 \<longrightarrow> (\<exists>buf'. Recv G P (Some None) c (Some r) buf (Inr d # env) = Some (c, Some r, buf', RecvErr ErrShortPacket, env))
      \<and> (\<not> temp ErrShortPacket \<longrightarrow> serveConn temp G P s client conn ((Inl ErrShortPacket, senv) # rest) = Some (s, Closed)))"
proof (intro conjI allI impI)
  have w: "length (ds_wire peer) = 5" by (rule ds_wire_length [OF assms(6)])
  have k: "\<forall>k. c_crypto c = Some k \<longrightarrow> aead_laws (cr_c k) \<and> cr_headerSize k = 5" using assms(4) by simp
  have d: "ds_wire peer @ x = ds_wire peer @ (case c_crypto c of None \<Rightarrow> x | Some k \<Rightarrow> seal (cr_c k) (ds_wire peer) x)"
    using assms(4) by simp
  have fit: "length (ds_wire peer @ x) \<le> length (p_bytes P (p_Sets P buf (p_head P buf) (p_data P buf)))"
    using assms(9) w by simp
  obtain buf' where b: "recv_loop G P (p_head P buf) (p_data P buf) c (Some r) buf (Inr (ds_wire peer @ x) # env)
      = Some (c, Some peer, buf', RecvOk, env)" "p_bytes P buf' = x"
    using recv_data [OF assms(2,3,5-7) k d fit, of G r env] by blast
  have "g_SourcePort G (ds_proto peer) x = None \<or> g_DestinationPort G (ds_proto peer) x = None"
    using assms(1,8) by (simp add: short_laws_def)
  moreover have "ds_proto peer = TCP \<or> ds_proto peer = UDP" using assms(6) by (simp add: ds_Valid_def)
  ultimately have "serve_packet G P s client conn peer buf' senv = None"
    using b(2) by (auto simp: serve_packet_def Let_def bind_eq_None_conv)
  with b show "\<exists>buf'. Recv G P (Some None) c (Some r) buf (Inr (ds_wire peer @ x) # env) = Some (c, Some peer, buf', RecvOk, env)
      \<and> p_bytes P buf' = x \<and> serve_packet G P s client conn peer buf' senv = None" by (simp add: Recv_def)
next
  fix d :: bytes assume d: "length d < 5"
  then have "length d \<le> length (p_bytes P (p_Sets P buf (p_head P buf) (p_data P buf)))" using assms(9) by linarith
  from recv_fit [OF assms(2) this assms(5), of env] d
  show "\<exists>buf'. Recv G P (Some None) c (Some r) buf (Inr d # env) = Some (c, Some r, buf', RecvErr ErrShortPacket, env)"
    by (auto simp: Recv_def recv_loop.simps [of G P _ _ c] ds_Decode_def)
qed simp

theorem server_short_datagram_witness:
  "\<exists>buf'. p_bytes framed buf' = [] \<and> serve_packet rfc framed w_server w_client ''conn'' (w_to 8) buf' w_it = None"
proof -
  let ?buf = "(replicate 64 0, replicate 100 0)" and ?c = "newConn Server 19986 40000"
  have c: "c_crypto ?c = None" "c_queue ?c = []" by (simp_all add: newConn_def)
  have v: "ds_Valid (Some (w_to 8))" "\<not> ds_IsBuiltin (Some (w_to 8))"
    by (simp_all add: w_to_def ds_Valid_def ds_IsBuiltin_def)
  have l: "length ([] :: bytes) < 4" "5 + length ([] :: bytes) \<le> length (p_bytes framed (p_Sets framed ?buf (p_head framed ?buf) (p_data framed ?buf)))"
    by (simp_all add: framed_def p_data_def)
  from server_short_datagram [OF rfc_short_laws framed_laws framed_reveal c v l, of w_peer "[]" w_server w_client "''conn''" w_it
      "\<lambda>_. False" "[]"]
  show ?thesis by blast
qed

end
