(* ===== verification/Proxy_Props.thy ===== *)
theory Proxy_Props
  imports Client_Loop Server_Props
begin

text \<open>
  The properties that span the program: a packet of an application, captured at the client,
  on its way through tunnel and server to the remote, and the reply on its way back. Also
  which packets the client's capturer takes.
\<close>

section \<open>The way out\<close>

lemma sv_link_frame: "sv_link s e up conn = Some (s1, r) \<Longrightarrow>
    sv_laddr s1 = sv_laddr s \<and> sv_ip4id s1 = sv_ip4id s \<and> sv_pcap s1 = sv_pcap s \<and> sv_sent s1 = sv_sent s"
  by (auto simp: sv_link_def Let_def case_prod_unfold bind_eq_Some_conv split: option.splits)

text \<open>Client and server together replace source port and checksum of a segment, nothing else.\<close>

lemma client_seg_ports: "8 \<le> length seg \<Longrightarrow> get16 (client_seg pr dst seg) 0 = get16 seg 0
    \<and> get16 (client_seg pr dst seg) 2 = get16 seg 2"
  by (auto simp: client_seg_def sum_off_def get16_set16_other)

lemma server_client_seg:
  assumes "min_hdr pr \<le> length seg"
  shows "set16 (set16 (server_seg pr src port (client_seg pr dst seg)) 0 (get16 seg 0)) (sum_off pr) v = set16 seg (sum_off pr) v"
proof -
  note so = sum_off_cases(1) [of pr] sum_off_cases(3,4) [OF assms]
  have "server_seg pr src port (client_seg pr dst seg) = set16 (set16 seg (sum_off pr) w) 0 port" if
    "w = NOT (oc_add (oc_sum src port) (NOT (get16 (client_seg pr dst seg) (sum_off pr))))" for w
    unfolding that by (simp add: server_seg_def client_seg_def)
  then obtain w where w: "server_seg pr src port (client_seg pr dst seg) = set16 (set16 seg (sum_off pr) w) 0 port"
    by blast
  have "set16 (set16 (set16 seg (sum_off pr) w) 0 port) 0 (get16 seg 0) = set16 (set16 seg 0 (get16 seg 0)) (sum_off pr) w"
    using so set16_swap [of 0 "sum_off pr" seg w "get16 seg 0"] by simp
  also have "\<dots> = set16 seg (sum_off pr) w" using so by (simp add: set16_get16)
  finally show ?thesis unfolding w by simp
qed

text \<open>The tunnel between two connections with one cipher or none.\<close>

lemma tunnel:
  assumes P: "packet_laws P" "reveal_law P"
    and k: "\<forall>k. c_crypto a = Some k \<longrightarrow> aead_laws (cr_c k) \<and> cr_headerSize k = 5"
    and b: "c_crypto b = c_crypto a" "c_queue b = []"
    and s: "ds_Valid (Some peer)" "\<not> ds_IsBuiltin (Some peer)"
    and fit: "length (p_bytes P pkt) + 21 \<le> length (p_bytes P (p_Sets P buf (p_head P buf) (p_data P buf)))"
  shows "\<exists>d pkt' buf'. Send P (Some None) a (Some peer) pkt None = Some (c_emit (EvWrote d) a, pkt', SendOk)
    \<and> Recv G P (Some None) b (Some r) buf (Inr d # env) = Some (b, Some peer, buf', RecvOk, env)
    \<and> p_bytes P buf' = p_bytes P pkt"
proof -
  let ?x = "p_bytes P pkt"
  define d where "d = ds_wire peer @ (case c_crypto b of None \<Rightarrow> ?x | Some k \<Rightarrow> seal (cr_c k) (ds_wire peer) ?x)"
  have "length d \<le> length ?x + 21"
    using k b(1) ds_wire_length [OF s(1)] by (auto simp: d_def aead_laws_def split: option.splits)
  with fit have f: "length d \<le> length (p_bytes P (p_Sets P buf (p_head P buf) (p_data P buf)))" by linarith
  obtain pkt' where "Send P (Some None) a (Some peer) pkt None = Some (c_emit (EvWrote d) a, pkt', SendOk)"
    using send_data [OF P(1) s k, of pkt] b(1) unfolding d_def by auto
  moreover obtain buf' where "recv_loop G P (p_head P buf) (p_data P buf) b (Some r) buf (Inr d # env)
      = Some (b, Some peer, buf', RecvOk, env)" "p_bytes P buf' = ?x"
    using recv_data [OF P b(2) s k [folded b(1)] d_def f, of G r env] by blast
  ultimately show ?thesis by (auto simp: Recv_def)
qed

text \<open>What leaves the server for the captured packet \<open>b\<close>.\<close>

definition request_out :: "proto \<Rightarrow> addr \<Rightarrow> u16 \<Rightarrow> bytes \<Rightarrow> bytes \<Rightarrow> bool" where
  "request_out pr laddr port b out \<longleftrightarrow> v4_wf out \<and> hdr_sum_ok out \<and> ucast (out ! 9) = pr
     \<and> window (12, 4) out = addr_slice laddr \<and> window (16, 4) out = window (16, 4) b
     \<and> get16 (v4_seg out) 0 = port \<and> seg_sum_ok pr (window (12, 4) out) (window (16, 4) out) (v4_seg out)
     \<and> set16 (set16 (v4_seg out) 0 (get16 (v4_seg b) 0)) (sum_off pr) 0 = set16 (v4_seg b) (sum_off pr) 0"

lemma request_post:
  assumes pr: "pr = TCP \<or> pr = UDP" and m: "min_hdr pr \<le> length (v4_seg b)"
    and f: "forwarded laddr port peer (client_seg pr (addr_slice (v4_addr b 16)) (v4_seg b)) out"
    and lb: "16 + 4 \<le> length b" and p: "ds_proto peer = pr" "ds_dst peer = v4_addr b 16"
  shows "request_out pr laddr port b out"
proof -
  let ?x = "client_seg pr (addr_slice (v4_addr b 16)) (v4_seg b)"
  have l8: "8 \<le> length ?x" using sum_off_cases(4) [OF m] by (simp add: client_seg_def)
  have seg: "v4_seg out = server_seg pr (addr_slice laddr) port ?x" using f p by (simp add: forwarded_def)
  have "get16 (v4_seg out) 0 = port" unfolding seg server_seg_def using l8 by (intro get16_set16) simp
  moreover have "seg_sum_ok pr (addr_slice laddr) (addr_slice (v4_addr b 16)) (v4_seg out)"
    unfolding seg by (rule server_seg_ok [OF pr m])
  moreover have "set16 (set16 (v4_seg out) 0 (get16 (v4_seg b) 0)) (sum_off pr) 0 = set16 (v4_seg b) (sum_off pr) 0"
    unfolding seg by (rule server_client_seg [OF m])
  ultimately show ?thesis using f p window_addr [OF lb] by (simp add: forwarded_def request_out_def)
qed

text \<open>
  C1. A request goes through. A well-formed IPv4 packet of TCP or UDP that the client captures
  is handed to its connection, crosses the tunnel, in the clear or sealed, and when the server
  finds or allocates a link it leaves the server as a well-formed packet with two valid
  checksums from the server's address and the link's port to the same remote; apart from
  source port and checksum its segment is the application's.
\<close>

theorem proxied_request:
  assumes "gvisor_laws G" "packet_laws P" "reveal_law P"
    and "\<forall>k. c_crypto a = Some k \<longrightarrow> aead_laws (cr_c k) \<and> cr_headerSize k = 5"
    and "c_crypto b = c_crypto a" "c_queue b = []"
    and "v4_wf (p_bytes P ip)" "v4_total (p_bytes P ip) = length (p_bytes P ip)"
    and "pr = TCP \<or> pr = UDP" "ucast (p_bytes P ip ! 9) = pr" "min_hdr pr \<le> length (v4_seg (p_bytes P ip))"
    and "peer = \<lparr>ds_proto = pr, ds_dst = v4_addr (p_bytes P ip) 16\<rparr>" "\<not> ds_IsBuiltin (Some peer)"
    and "length (v4_seg (p_bytes P ip)) + 21 \<le> length (p_bytes P (p_Sets P buf (p_head P buf) (p_data P buf)))"
    and "addr_is4 (sv_laddr s)" "length (p_bytes P ip) < 65516"
    and "ce_pcap cenv = None" "ce_out cenv = None" "it_pcap env = None" "it_send env = None"
    and "sv_link s (it_add env) (payload_up client peer (v4_seg (p_bytes P ip))) conn = Some (s1, Inr port)"
  shows "\<exists>x. uplink_round G P c ip cenv = Some (c\<lparr>cl_sent := cl_sent c @ [(peer, x)]\<rparr>, Next)
    \<and> (\<forall>pkt. p_bytes P pkt = x \<longrightarrow> (\<exists>d pkt' buf' out.
        Send P (Some None) a (Some peer) pkt None = Some (c_emit (EvWrote d) a, pkt', SendOk)
      \<and> Recv G P (Some None) b (Some r) buf (Inr d # reads) = Some (b, Some peer, buf', RecvOk, reads)
      \<and> serve_packet G P s client conn peer buf' env = Some (s1\<lparr>sv_ip4id := sv_ip4id s + 1, sv_sent := sv_sent s @ [out]\<rparr>, Next)
      \<and> request_out pr (sv_laddr s) port (p_bytes P ip) out))"
proof -
  let ?b = "p_bytes P ip" and ?seg = "v4_seg (p_bytes P ip)" and ?dst = "addr_slice (v4_addr (p_bytes P ip) 16)"
  define x where "x = client_seg pr ?dst ?seg"
  have up: "uplink_round G P c ip cenv = Some (c\<lparr>cl_sent := cl_sent c @ [(peer, x)]\<rparr>, Next)"
    using uplink_sends [OF assms(1,2,7-11,17,18)] unfolding x_def assms(12) .
  have lx: "length x = length ?seg" by (simp add: x_def client_seg_def)
  have l8: "8 \<le> length ?seg" using assms(11) by (rule sum_off_cases(4))
  have pu: "payload_up client peer x = payload_up client peer ?seg"
    using client_seg_ports [OF l8] by (simp add: payload_up_def x_def)
  have p: "ds_proto peer = pr" "ds_dst peer = v4_addr ?b 16" "addr_is4 (ds_dst peer)" "ds_Valid (Some peer)"
    using assms(9) by (auto simp: assms(12) v4_addr_def ds_Valid_def)
  have lb: "length ?seg \<le> length ?b" "16 + 4 \<le> length ?b"
    using v4_wfD [OF assms(7)] assms(8) by auto
  have go: "\<exists>d pkt' buf' out.
        Send P (Some None) a (Some peer) pkt None = Some (c_emit (EvWrote d) a, pkt', SendOk)
      \<and> Recv G P (Some None) b (Some r) buf (Inr d # reads) = Some (b, Some peer, buf', RecvOk, reads)
      \<and> serve_packet G P s client conn peer buf' env = Some (s1\<lparr>sv_ip4id := sv_ip4id s + 1, sv_sent := sv_sent s @ [out]\<rparr>, Next)
      \<and> request_out pr (sv_laddr s) port ?b out" if px: "p_bytes P pkt = x" for pkt
  proof -
    have fit: "length (p_bytes P pkt) + 21 \<le> length (p_bytes P (p_Sets P buf (p_head P buf) (p_data P buf)))"
      using assms(14) lx px by simp
    obtain d pkt' buf' where t: "Send P (Some None) a (Some peer) pkt None = Some (c_emit (EvWrote d) a, pkt', SendOk)"
      "Recv G P (Some None) b (Some r) buf (Inr d # reads) = Some (b, Some peer, buf', RecvOk, reads)"
      "p_bytes P buf' = x"
      using tunnel [OF assms(2-6) p(4) assms(13) fit, of G r reads] unfolding px
      by (elim exE conjE) (rule that; assumption)
    note fr = sv_link_frame [OF assms(21)]
    have "\<exists>out. serve_packet G P s client conn peer buf' env
        = Some (s1\<lparr>sv_ip4id := sv_ip4id s + 1, sv_sent := sv_sent s @ [out]\<rparr>, Next)
      \<and> forwarded (sv_laddr s) port peer (p_bytes P buf') out"
      by (rule serve_forwards [OF assms(1,2) _ assms(15) p(3) _ _ assms(19,20)])
        (use fr assms(9,11,16,21) p lx lb t(3) pu in simp_all)
    then obtain out where "serve_packet G P s client conn peer buf' env
        = Some (s1\<lparr>sv_ip4id := sv_ip4id s + 1, sv_sent := sv_sent s @ [out]\<rparr>, Next)"
      "request_out pr (sv_laddr s) port ?b out"
      using request_post [OF assms(9,11) _ lb(2) p(1,2)] unfolding t(3) x_def by blast
    with t(1,2) show ?thesis by blast
  qed
  show ?thesis by (rule exI [of _ x], rule conjI, rule up, rule allI, rule impI, rule go)
qed

lemma w_conn_keys: "\<forall>k. c_crypto w_conn = Some k \<longrightarrow> aead_laws (cr_c k) \<and> cr_headerSize k = 5"
    "c_queue w_conn = []"
  by (simp_all add: w_conn_def w_key_def tagged_laws newConn_def)

lemma w_tcp_up: "payload_up w_client \<lparr>ds_proto = TCP, ds_dst = Addr4 8 8 8 8\<rparr> w_tcp = w_up 4000 8"
  by (simp add: payload_up_def w_client_def w_tcp_def w_up_def w_remote_def get16_def be16_def)

lemma w_server_link: "sv_link w_server e (w_up 4000 8) conn
    = Some (w_server\<lparr>sv_links := fst (lm_Uplink w_lm1 (w_up 4000 8))\<rparr>, Inr 5000)"
proof -
  have "snd (lm_Uplink w_lm1 (w_up 4000 8)) = Some 5000"
    using lm_Uplink_ok [OF w_lm1_inv, of "w_up 4000 8"] by (simp add: w_lm1_up port_num_NewPort port_uses_NewPort)
  then show ?thesis by (simp add: sv_link_def case_prod_unfold w_server_def)
qed

definition w_cl :: client where
  "w_cl = \<lparr>cl_laddr = Addr4 192 168 0 7, cl_pcap = False, cl_closed = False, cl_sent = [], cl_injected = []\<rparr>"

definition w_ce :: cl_env where "w_ce = \<lparr>ce_pcap = None, ce_out = None\<rparr>"

definition w_buf :: "bytes \<times> bytes" where "w_buf = (replicate 64 0, replicate 100 0)"

lemma w_buf_len: "length (p_bytes framed (p_Sets framed w_buf (p_head framed w_buf) (p_data framed w_buf))) = 100"
  by (simp add: framed_def p_data_def w_buf_def)

theorem proxied_request_witness:
  "\<exists>d buf' s' out. Recv rfc framed (Some None) w_conn NewDefaultPeer w_buf [Inr d]
      = Some (w_conn, Some \<lparr>ds_proto = TCP, ds_dst = Addr4 8 8 8 8\<rparr>, buf', RecvOk, [])
    \<and> serve_packet rfc framed w_server w_client ''conn'' \<lparr>ds_proto = TCP, ds_dst = Addr4 8 8 8 8\<rparr> buf' w_it = Some (s', Next)
    \<and> request_out TCP w_addr 5000 w_ip out"
proof -
  let ?peer = "\<lparr>ds_proto = TCP, ds_dst = Addr4 8 8 8 8\<rparr>" and ?ip = "([], w_ip)"
  have b: "p_bytes framed ?ip = w_ip" by (simp add: framed_def)
  have a: "v4_addr w_ip 16 = Addr4 8 8 8 8" by (simp add: v4_addr_def w_ip_def)
  have nb: "\<not> ds_IsBuiltin (Some ?peer)" by (simp add: ds_IsBuiltin_def)
  have la: "addr_is4 (sv_laddr w_server)" "sv_laddr w_server = w_addr" by (simp_all add: w_server_def w_addr_def)
  have n: "NewDefaultPeer = Some \<lparr>ds_proto = 0, ds_dst = AddrZero\<rparr>" by (rule NewDefaultPeer_def)
  have up: "sv_link w_server (it_add w_it) (payload_up w_client ?peer (v4_seg (p_bytes framed ?ip))) ''conn''
      = Some (w_server\<lparr>sv_links := fst (lm_Uplink w_lm1 (w_up 4000 8))\<rparr>, Inr 5000)"
    unfolding b w_ip_wf(5) w_tcp_up by (rule w_server_link)
  have "\<exists>x. uplink_round rfc framed w_cl ?ip w_ce = Some (w_cl\<lparr>cl_sent := cl_sent w_cl @ [(?peer, x)]\<rparr>, Next)
    \<and> (\<forall>pkt. p_bytes framed pkt = x \<longrightarrow> (\<exists>d pkt' buf' out.
        Send framed (Some None) w_conn (Some ?peer) pkt None = Some (c_emit (EvWrote d) w_conn, pkt', SendOk)
      \<and> Recv rfc framed (Some None) w_conn NewDefaultPeer w_buf (Inr d # []) = Some (w_conn, Some ?peer, buf', RecvOk, [])
      \<and> serve_packet rfc framed w_server w_client ''conn'' ?peer buf' w_it
        = Some (w_server\<lparr>sv_links := fst (lm_Uplink w_lm1 (w_up 4000 8)), sv_ip4id := sv_ip4id w_server + 1,
            sv_sent := sv_sent w_server @ [out]\<rparr>, Next)
      \<and> request_out TCP (sv_laddr w_server) 5000 (p_bytes framed ?ip) out))"
    unfolding n
    by (rule proxied_request [OF rfc_laws framed_laws framed_reveal w_conn_keys(1) refl w_conn_keys(2) _ _ _ _ _ _ nb _ la(1) _ _ _ _ _ up])
      (use w_ip_wf a w_buf_len b in \<open>simp_all add: w_ce_def w_it_def min_hdr_def\<close>)
  then obtain x where "\<forall>pkt. p_bytes framed pkt = x \<longrightarrow> (\<exists>d pkt' buf' out.
        Send framed (Some None) w_conn (Some ?peer) pkt None = Some (c_emit (EvWrote d) w_conn, pkt', SendOk)
      \<and> Recv rfc framed (Some None) w_conn NewDefaultPeer w_buf (Inr d # []) = Some (w_conn, Some ?peer, buf', RecvOk, [])
      \<and> serve_packet rfc framed w_server w_client ''conn'' ?peer buf' w_it
        = Some (w_server\<lparr>sv_links := fst (lm_Uplink w_lm1 (w_up 4000 8)), sv_ip4id := sv_ip4id w_server + 1,
            sv_sent := sv_sent w_server @ [out]\<rparr>, Next)
      \<and> request_out TCP (sv_laddr w_server) 5000 (p_bytes framed ?ip) out)"
    by (elim exE conjE)
  from this [rule_format, of "([], x)"] show ?thesis unfolding b la(2) w_bytes by blast
qed

section \<open>The way back\<close>

text \<open>What the client injects for the reply \<open>b\<close>.\<close>

definition reply_in :: "proto \<Rightarrow> addr \<Rightarrow> u16 \<Rightarrow> bytes \<Rightarrow> bytes \<Rightarrow> bool" where
  "reply_in pr laddr cport b out \<longleftrightarrow> v4_wf out \<and> hdr_sum_ok out
     \<and> window (12, 4) out = window (12, 4) b \<and> window (16, 4) out = addr_slice laddr
     \<and> seg_sum_ok pr (window (12, 4) out) (window (16, 4) out) (v4_seg out)
     \<and> set16 (v4_seg out) (sum_off pr) 0 = set16 (set16 (v4_seg b) 2 cport) (sum_off pr) 0"

lemma v4_wf_lengths: "v4_wf b \<Longrightarrow> length (v4_seg b) \<le> length b" "v4_wf b \<Longrightarrow> 12 + 4 \<le> length b"
  using v4_wfD [of b] by (auto simp: v4_wf_def)

text \<open>
  C2. A reply comes back. A well-formed packet of the remote to a link's port is given to the
  link's connection, crosses the tunnel, and is injected at the client as a well-formed packet
  with two valid checksums from the remote to the client; apart from the destination port,
  which becomes the process's, and the checksum its segment is the remote's.
\<close>

theorem proxied_reply:
  assumes "gvisor_laws G" "update_laws G" "packet_laws P" "reveal_law P"
    and "\<forall>k. c_crypto a = Some k \<longrightarrow> aead_laws (cr_c k) \<and> cr_headerSize k = 5"
    and "c_crypto b = c_crypto a" "c_queue b = []"
    and "up_proto up = TCP \<or> up_proto up = UDP"
    and "reply_to (lm_addr (sv_links s)) port up (p_bytes P ip)"
    and "lm_Downlink (sv_links s) (down_key (lm_addr (sv_links s)) up port) = Some (conn, cport)"
    and "peer = \<lparr>ds_proto = up_proto up, ds_dst = ap_addr (up_server up)\<rparr>" "\<not> ds_IsBuiltin (Some peer)"
    and "length (v4_seg (p_bytes P ip)) + 21 \<le> length (p_bytes P (p_Sets P buf (p_head P buf) (p_data P buf)))"
    and "addr_is4 (cl_laddr c)" "length (p_bytes P ip) < 65516"
    and "it_pcap env = None" "ce_pcap cenv = None" "ce_out cenv = None"
  shows "\<exists>y. recv_packet G P s ip env = Some (s\<lparr>sv_back := sv_back s @ [(conn, peer, y)]\<rparr>, Next)
    \<and> (\<forall>pkt. p_bytes P pkt = y \<longrightarrow> (\<exists>d pkt' buf' out.
        Send P (Some None) a (Some peer) pkt None = Some (c_emit (EvWrote d) a, pkt', SendOk)
      \<and> Recv G P (Some None) b (Some r) buf (Inr d # reads) = Some (b, Some peer, buf', RecvOk, reads)
      \<and> downlink_round G P c peer buf' cenv = Some (c\<lparr>cl_injected := cl_injected c @ [out]\<rparr>, Next)
      \<and> reply_in (up_proto up) (cl_laddr c) cport (p_bytes P ip) out))"
proof -
  let ?b = "p_bytes P ip" and ?pr = "up_proto up"
  define y where "y = set16 (v4_seg ?b) 2 cport"
  have rt: "v4_wf ?b" "min_hdr ?pr \<le> v4_total ?b - v4_hl ?b" "v4_addr ?b 12 = ap_addr (up_server up)"
    using assms(9) unfolding reply_to_def by blast+
  have back1: "recv_packet G P s ip env = Some (s\<lparr>sv_back := sv_back s @ [(conn, peer, y)]\<rparr>, Next)"
    using recv_returns [OF assms(1-3,8-10,16)] unfolding y_def assms(11) .
  have ly: "length y = length (v4_seg ?b)" "min_hdr ?pr \<le> length y"
    using rt(2) v4_wfD(6) [OF rt(1)] by (simp_all add: y_def)
  have p: "ds_proto peer = ?pr" "addr_is4 (ds_dst peer)" "ds_dst peer = v4_addr ?b 12" "ds_Valid (Some peer)"
    using assms(8) rt(3) by (auto simp: assms(11) v4_addr_def ds_Valid_def simp flip: rt(3))
  note lb = v4_wf_lengths [OF rt(1)]
  note w = window_addr [OF lb(2)]
  have go: "\<exists>d pkt' buf' out.
        Send P (Some None) a (Some peer) pkt None = Some (c_emit (EvWrote d) a, pkt', SendOk)
      \<and> Recv G P (Some None) b (Some r) buf (Inr d # reads) = Some (b, Some peer, buf', RecvOk, reads)
      \<and> downlink_round G P c peer buf' cenv = Some (c\<lparr>cl_injected := cl_injected c @ [out]\<rparr>, Next)
      \<and> reply_in ?pr (cl_laddr c) cport ?b out" if px: "p_bytes P pkt = y" for pkt
  proof -
    have fit: "length (p_bytes P pkt) + 21 \<le> length (p_bytes P (p_Sets P buf (p_head P buf) (p_data P buf)))"
      using assms(13) ly px by simp
    obtain d pkt' buf' where t: "Send P (Some None) a (Some peer) pkt None = Some (c_emit (EvWrote d) a, pkt', SendOk)"
      "Recv G P (Some None) b (Some r) buf (Inr d # reads) = Some (b, Some peer, buf', RecvOk, reads)"
      "p_bytes P buf' = y"
      using tunnel [OF assms(3-7) p(4) assms(12) fit, of G r reads] unfolding px
      by (elim exE conjE) (rule that; assumption)
    have "\<exists>out. downlink_round G P c peer buf' cenv = Some (c\<lparr>cl_injected := cl_injected c @ [out]\<rparr>, Next)
      \<and> v4_wf out \<and> hdr_sum_ok out
      \<and> seg_sum_ok (ds_proto peer) (addr_slice (ds_dst peer)) (addr_slice (cl_laddr c)) (v4_seg out)
      \<and> window (12, 4) out = addr_slice (ds_dst peer) \<and> window (16, 4) out = addr_slice (cl_laddr c)
      \<and> set16 (v4_seg out) (sum_off (ds_proto peer)) 0 = set16 (p_bytes P buf') (sum_off (ds_proto peer)) 0"
      by (rule downlink_injects [OF assms(1,3) _ assms(14) p(2) _ _ assms(17,18)])
        (use p assms(8,15) ly lb t(3) in simp_all)
    then obtain out where "downlink_round G P c peer buf' cenv = Some (c\<lparr>cl_injected := cl_injected c @ [out]\<rparr>, Next)"
      "reply_in ?pr (cl_laddr c) cport ?b out"
      unfolding t(3) p(1,3) reply_in_def w y_def by auto
    with t(1,2) show ?thesis by blast
  qed
  show ?thesis by (rule exI [of _ y], rule conjI, rule back1, rule allI, rule impI, rule go)
qed

text \<open>A segment of the remote to port 5000.\<close>

definition w_reply :: bytes where
  "w_reply = [0x45, 0, 0, 40, 0, 0, 0, 0, 64, 6, 0, 0, 8, 8, 8, 8, 10, 0, 0, 1]
     @ [0, 80, 19, 136, 0, 0, 0, 1, 0, 0, 0, 0, 0x50, 18, 255, 255, 0, 0, 0, 0]"

lemma w_reply_to: "reply_to w_addr 5000 (w_up 4000 8) w_reply" "length (v4_seg w_reply) = 20" "length w_reply = 40"
proof -
  have hl: "v4_hl w_reply = 20" by (simp add: v4_hl_def w_reply_def)
  have t: "v4_total w_reply = 40" by (simp add: v4_total_def get16_def w_reply_def be16_def)
  show l: "length w_reply = 40" by (simp add: w_reply_def)
  have wf: "v4_wf w_reply" using hl t l by (simp add: v4_wf_def) (simp add: w_reply_def)
  have seg: "v4_seg w_reply = [0, 80, 19, 136, 0, 0, 0, 1, 0, 0, 0, 0, 0x50, 18, 255, 255, 0, 0, 0, 0]"
    using hl t by (simp add: v4_seg_def window_def w_reply_def)
  then show "length (v4_seg w_reply) = 20" by simp
  show "reply_to w_addr 5000 (w_up 4000 8) w_reply"
    unfolding reply_to_def using wf hl t l seg
    by (simp add: w_up_def w_remote_def w_addr_def min_hdr_def get16_def be16_def v4_addr_def) (simp add: w_reply_def)
qed

theorem proxied_reply_witness:
  "\<exists>c' buf' out. downlink_round rfc framed w_cl \<lparr>ds_proto = TCP, ds_dst = Addr4 8 8 8 8\<rparr> buf' w_ce = Some (c', Next)
    \<and> reply_in TCP (cl_laddr w_cl) 4000 w_reply out"
proof -
  let ?peer = "\<lparr>ds_proto = TCP, ds_dst = Addr4 8 8 8 8\<rparr>" and ?ip = "([], w_reply)"
  have b: "p_bytes framed ?ip = w_reply" by (simp add: framed_def)
  have nb: "\<not> ds_IsBuiltin (Some ?peer)" by (simp add: ds_IsBuiltin_def)
  have up: "up_proto (w_up 4000 8) = TCP" "?peer = \<lparr>ds_proto = up_proto (w_up 4000 8), ds_dst = ap_addr (up_server (w_up 4000 8))\<rparr>"
    by (simp_all add: w_up_def w_remote_def)
  have s: "lm_addr (sv_links w_server) = w_addr"
    "lm_Downlink (sv_links w_server) (down_key (lm_addr (sv_links w_server)) (w_up 4000 8) 5000) = Some (''conn'', 4000)"
    by (simp_all add: w_server_def w_lm1_def lm_Downlink_def)
  have rt: "reply_to (lm_addr (sv_links w_server)) 5000 (w_up 4000 8) (p_bytes framed ?ip)"
    unfolding s b by (rule w_reply_to(1))
  have "\<exists>y. recv_packet rfc framed w_server ?ip w_it = Some (w_server\<lparr>sv_back := sv_back w_server @ [(''conn'', ?peer, y)]\<rparr>, Next)
    \<and> (\<forall>pkt. p_bytes framed pkt = y \<longrightarrow> (\<exists>d pkt' buf' out.
        Send framed (Some None) w_conn (Some ?peer) pkt None = Some (c_emit (EvWrote d) w_conn, pkt', SendOk)
      \<and> Recv rfc framed (Some None) w_conn (Some \<lparr>ds_proto = 0, ds_dst = AddrZero\<rparr>) w_buf (Inr d # []) = Some (w_conn, Some ?peer, buf', RecvOk, [])
      \<and> downlink_round rfc framed w_cl ?peer buf' w_ce = Some (w_cl\<lparr>cl_injected := cl_injected w_cl @ [out]\<rparr>, Next)
      \<and> reply_in (up_proto (w_up 4000 8)) (cl_laddr w_cl) 4000 (p_bytes framed ?ip) out))"
    by (rule proxied_reply [OF rfc_laws rfc_update_laws framed_laws framed_reveal w_conn_keys(1) refl w_conn_keys(2) _ rt s(2) up(2) nb])
      (use up(1) w_reply_to w_buf_len b in \<open>simp_all add: w_ce_def w_it_def w_cl_def\<close>)
  then obtain y where "\<forall>pkt. p_bytes framed pkt = y \<longrightarrow> (\<exists>d pkt' buf' out.
        Send framed (Some None) w_conn (Some ?peer) pkt None = Some (c_emit (EvWrote d) w_conn, pkt', SendOk)
      \<and> Recv rfc framed (Some None) w_conn (Some \<lparr>ds_proto = 0, ds_dst = AddrZero\<rparr>) w_buf (Inr d # []) = Some (w_conn, Some ?peer, buf', RecvOk, [])
      \<and> downlink_round rfc framed w_cl ?peer buf' w_ce = Some (w_cl\<lparr>cl_injected := cl_injected w_cl @ [out]\<rparr>, Next)
      \<and> reply_in (up_proto (w_up 4000 8)) (cl_laddr w_cl) 4000 (p_bytes framed ?ip) out)"
    by (elim exE conjE)
  from this [rule_format, of "([], y)"] show ?thesis unfolding b up(1) w_bytes by blast
qed

section \<open>The capturer\<close>

lemma v4_parts: "v4_wf b \<Longrightarrow> set_window (v4_hl b, v4_total b - v4_hl b) seg b
    = take (v4_hl b) b @ seg @ drop (v4_hl b + length seg) b"
  by (simp add: set_window_def)

text \<open>What the capturer makes of a packet of TCP: its segment with the MSS option updated, unless
  the walk over the options never ends.\<close>

lemma cp_mss_TCP:
  assumes G: "gvisor_laws G" and b: "v4_wf b" "20 \<le> length (v4_seg b)"
    and n: "g_DataOffset G (v4_seg b) = Some n" "n \<le> length (v4_seg b)"
  shows "if opts_progress (v4_seg b) n \<or> overhead = 0
     then \<exists>seg. cp_mss G overhead TCP b = Some (Some (take (v4_hl b) b @ seg @ drop (v4_total b) b))
       \<and> length seg = length (v4_seg b) \<and> mss_spec (v4_seg b) n (- overhead) seg
     else cp_mss G overhead TCP b = Some None"
proof -
  have w: "g_v4_Payload G b = Some (v4_hl b, v4_total b - v4_hl b)" by (rule v4_lawsD(7) [OF G b(1)])
  have l: "length (v4_seg b) = v4_total b - v4_hl b" "v4_hl b \<le> v4_total b"
    using b(1) by (auto simp: v4_wf_def v4_seg_def window_def)
  show ?thesis
  proof (cases "opts_progress (v4_seg b) n \<or> overhead = 0")
    case True
    then obtain seg e where u: "UpdateTcpMssOption G 61 (v4_seg b) (- overhead) = MssDone seg e"
      "length seg = length (v4_seg b)" "mss_spec (v4_seg b) n (- overhead) seg"
      using UpdateTcpMssOption_total [OF G n b(2), of "- overhead"] by auto
    have "cp_mss G overhead TCP b = Some (Some (take (v4_hl b) b @ seg @ drop (v4_total b) b))"
      using w u(1,2) l v4_parts [OF b(1), of seg] by (simp add: cp_mss_def flip: v4_seg_def)
    with True u(2,3) show ?thesis by auto
  next
    case False
    then have "UpdateTcpMssOption G 61 (v4_seg b) (- overhead) = MssFuel"
      using UpdateTcpMssOption_total [OF G n b(2), of "- overhead"] by simp
    with False w show ?thesis by (simp add: cp_mss_def flip: v4_seg_def)
  qed
qed

text \<open>One round on a readable packet.\<close>

lemma capture_round:
  assumes "packet_laws P" "cv_recv e = Inr d" "d \<noteq> []" "length d \<le> length (p_bytes P (p_Sets P ip head data))"
    and "FromIP G d = Some (Inr s)"
  obtains ip' where "p_bytes P ip' = d" "Capture temp G P head data c ip (e # r) =
      (case cp_pass temp c s (cv_name e) of
         None \<Rightarrow> None
       | Some (Inl err) \<Rightarrow> Some (cp_close c, CapClosed err, r)
       | Some (Inr True) \<Rightarrow>
           (case cv_send e of
              Some err \<Rightarrow> Some (cp_close c, CapClosed err, r)
            | None \<Rightarrow> Capture temp G P head data (c\<lparr>cp_passed := cp_passed c @ [d]\<rparr>) ip' r)
       | Some (Inr False) \<Rightarrow>
           (case cp_mss G (cp_overhead c) (s_proto s) d of
              None \<Rightarrow> None
            | Some None \<Rightarrow> Some (c, CapHangs, r)
            | Some (Some b) \<Rightarrow>
                (case cv_pcap e of
                   Some err \<Rightarrow> Some (c, CapErr err, r)
                 | None \<Rightarrow> Some (c, CapOk (p_store P ip' b), r))))"
proof -
  let ?ip = "p_Sets P ip head data"
  define ip' where "ip' = p_SetData P (p_store P ?ip (d @ drop (length d) (p_bytes P ?ip))) (length d)"
  have st: "p_bytes P (p_store P ?ip (d @ drop (length d) (p_bytes P ?ip))) = d @ drop (length d) (p_bytes P ?ip)"
    using assms(4) by (intro packet_lawsD(1) [OF assms(1)]) simp
  have b: "p_bytes P ip' = d"
    using packet_lawsD(4) [OF assms(1), of "length d" "p_store P ?ip (d @ drop (length d) (p_bytes P ?ip))"] st
    by (simp add: ip'_def)
  show thesis
    by (rule that [OF b], insert assms(2-5) b)
      (simp add: go_copy_def Let_def flip: ip'_def, simp add: b split: option.split sum.split bool.split)
qed

text \<open>A packet that is let pass, one of the enabled process, and a TCP segment of the latter.\<close>

lemma capture_passed:
  assumes "packet_laws P" "cp_process c = Some p" "cv_recv e = Inr d" "d \<noteq> []"
    and "length d \<le> length (p_bytes P (p_Sets P ip head data))" "FromIP G d = Some (Inr s)"
    and sel: "addr_multicast (ap_addr (s_dst s)) \<or> (\<exists>n. cv_name e = Inr n \<and> n \<noteq> p) \<or> (\<exists>err. cv_name e = Inl err \<and> temp err)"
    and snd: "cv_send e = None"
  shows "\<exists>ip'. p_bytes P ip' = d
    \<and> Capture temp G P head data c ip (e # r) = Capture temp G P head data (c\<lparr>cp_passed := cp_passed c @ [d]\<rparr>) ip' r"
proof -
  have pass: "cp_pass temp c s (cv_name e) = Some (Inr True)" using sel assms(2) by (auto simp: cp_pass_def)
  show ?thesis
    by (rule capture_round [OF assms(1,3-6), of temp c r]) (intro exI conjI, assumption, simp add: pass snd del: Capture.simps)
qed

lemma capture_taken:
  assumes "packet_laws P" "cp_process c = Some p" "cv_recv e = Inr d" "d \<noteq> []"
    and "length d \<le> length (p_bytes P (p_Sets P ip head data))" "FromIP G d = Some (Inr s)"
    and sel: "\<not> addr_multicast (ap_addr (s_dst s)) \<and> cv_name e = Inr p \<and> cv_pcap e = None"
  shows "\<exists>ip'. p_bytes P ip' = d \<and> Capture temp G P head data c ip (e # r) =
      (case cp_mss G (cp_overhead c) (s_proto s) d of
         None \<Rightarrow> None | Some None \<Rightarrow> Some (c, CapHangs, r) | Some (Some b) \<Rightarrow> Some (c, CapOk (p_store P ip' b), r))"
proof -
  have pass: "cp_pass temp c s (cv_name e) = Some (Inr False)" using sel assms(2) by (simp add: cp_pass_def)
  have pcap: "cv_pcap e = None" using sel by simp
  show ?thesis
    by (rule capture_round [OF assms(1,3-6), of temp c r]) (intro exI conjI, assumption, simp add: pass pcap del: Capture.simps split: option.split)
qed

lemma capture_taken_TCP:
  assumes "gvisor_laws G" "packet_laws P" "cp_process c = Some p" "cv_recv e = Inr d" "d \<noteq> []"
    and "length d \<le> length (p_bytes P (p_Sets P ip head data))" "FromIP G d = Some (Inr s)"
    and sel: "\<not> addr_multicast (ap_addr (s_dst s)) \<and> cv_name e = Inr p \<and> cv_pcap e = None" "s_proto s = TCP"
    and d: "v4_wf d" "20 \<le> length (v4_seg d)" "g_DataOffset G (v4_seg d) = Some n" "n \<le> length (v4_seg d)"
  shows "if opts_progress (v4_seg d) n \<or> cp_overhead c = 0
    then \<exists>ip' seg. Capture temp G P head data c ip (e # r) = Some (c, CapOk ip', r)
        \<and> p_bytes P ip' = take (v4_hl d) d @ seg @ drop (v4_total d) d
        \<and> length seg = length (v4_seg d) \<and> mss_spec (v4_seg d) n (- cp_overhead c) seg
    else Capture temp G P head data c ip (e # r) = Some (c, CapHangs, r)"
proof -
  obtain ip' where ip: "p_bytes P ip' = d" and run: "Capture temp G P head data c ip (e # r) =
      (case cp_mss G (cp_overhead c) (s_proto s) d of
         None \<Rightarrow> None | Some None \<Rightarrow> Some (c, CapHangs, r) | Some (Some b) \<Rightarrow> Some (c, CapOk (p_store P ip' b), r))"
    using capture_taken [OF assms(2-7) sel(1), of temp r] by blast
  have st: "p_bytes P (p_store P ip' b) = b" if "length b = length d" for b
    using packet_lawsD(1) [OF assms(2), of b ip'] ip that by simp
  have "length (take (v4_hl d) d @ seg @ drop (v4_total d) d) = length d" if "length seg = length (v4_seg d)" for seg
    using that d(1) by (auto simp: v4_wf_def v4_seg_def window_def min_def)
  with run sel(2) cp_mss_TCP [OF assms(1) d, of "cp_overhead c"] st show ?thesis
    by (fastforce split: if_splits)
qed

text \<open>
  C23. The capturer takes exactly the packets of the enabled process. A readable packet that
  goes to a multicast address, belongs to another process or to one whose name is not known
  for the moment is sent on unchanged, and the capturer goes on with the next. One of the
  enabled process is returned and not sent on: unchanged when it is not TCP, and for TCP
  unchanged but for the MSS option, which is lowered by the overhead of the tunnel when the
  result is positive, and the checksum, which stays valid if it was. Only an unknown option of
  length zero in front of the MSS option keeps the capturer from returning.
\<close>

theorem capture_selects_process:
  assumes "gvisor_laws G" "packet_laws P" "cp_process c = Some p"
    and "cv_recv e = Inr d" "d \<noteq> []" "length d \<le> length (p_bytes P (p_Sets P ip head data))"
    and "FromIP G d = Some (Inr s)"
  shows "((addr_multicast (ap_addr (s_dst s)) \<or> (\<exists>n. cv_name e = Inr n \<and> n \<noteq> p) \<or> (\<exists>err. cv_name e = Inl err \<and> temp err)) \<and>
      cv_send e = None \<longrightarrow>
      (\<exists>ip'. p_bytes P ip' = d
        \<and> Capture temp G P head data c ip (e # r) = Capture temp G P head data (c\<lparr>cp_passed := cp_passed c @ [d]\<rparr>) ip' r))
    \<and> (\<not> addr_multicast (ap_addr (s_dst s)) \<and> cv_name e = Inr p \<and> cv_pcap e = None \<longrightarrow>
      (s_proto s \<noteq> TCP \<longrightarrow> (\<exists>ip'. p_bytes P ip' = d \<and> Capture temp G P head data c ip (e # r) = Some (c, CapOk ip', r)))
      \<and> (\<forall>n. s_proto s = TCP \<longrightarrow> v4_wf d \<longrightarrow> 20 \<le> length (v4_seg d) \<longrightarrow> g_DataOffset G (v4_seg d) = Some n \<longrightarrow>
           n \<le> length (v4_seg d) \<longrightarrow>
           (if opts_progress (v4_seg d) n \<or> cp_overhead c = 0
            then \<exists>ip' seg. Capture temp G P head data c ip (e # r) = Some (c, CapOk ip', r)
                \<and> p_bytes P ip' = take (v4_hl d) d @ seg @ drop (v4_total d) d
                \<and> length seg = length (v4_seg d) \<and> mss_spec (v4_seg d) n (- cp_overhead c) seg
            else Capture temp G P head data c ip (e # r) = Some (c, CapHangs, r))))"
proof (intro conjI impI allI)
  assume "(addr_multicast (ap_addr (s_dst s)) \<or> (\<exists>n. cv_name e = Inr n \<and> n \<noteq> p) \<or> (\<exists>err. cv_name e = Inl err \<and> temp err)) \<and> cv_send e = None"
  then show "\<exists>ip'. p_bytes P ip' = d
      \<and> Capture temp G P head data c ip (e # r) = Capture temp G P head data (c\<lparr>cp_passed := cp_passed c @ [d]\<rparr>) ip' r"
    by (elim conjE) (rule capture_passed [OF assms(2-7)])
next
  assume sel: "\<not> addr_multicast (ap_addr (s_dst s)) \<and> cv_name e = Inr p \<and> cv_pcap e = None" "s_proto s \<noteq> TCP"
  then have "cp_mss G (cp_overhead c) (s_proto s) d = Some (Some d)" by (simp add: cp_mss_def)
  with capture_taken [OF assms(2-7) sel(1), of temp r] packet_lawsD(1) [OF assms(2)]
  show "\<exists>ip'. p_bytes P ip' = d \<and> Capture temp G P head data c ip (e # r) = Some (c, CapOk ip', r)"
    by (metis (no_types, lifting) option.simps(5))
qed (rule capture_taken_TCP [OF assms])

definition w_cap :: capture where
  "w_cap = \<lparr>cp_process = Some ''app'', cp_overhead = 60, cp_closed = False, cp_passed = [], cp_injected = []\<rparr>"

definition w_ev :: "string \<Rightarrow> cap_env" where
  "w_ev n = \<lparr>cv_recv = Inr w_ip, cv_name = Inr n, cv_send = None, cv_pcap = None\<rparr>"

lemma w_ip_FromIP: "FromIP rfc w_ip = Some (Inr (v4_tuple w_ip))"
proof -
  have p: "ucast (w_ip ! 9) = TCP \<or> ucast (w_ip ! 9) = (UDP :: proto)" using w_ip_wf by simp
  show ?thesis using fromIP_v4 [OF rfc_laws w_ip_wf(1) p] w_ip_wf by (simp add: FromIP_def)
qed

text \<open>A SYN of another process, which goes on, and then one of the enabled process, whose MSS
  of 1460 becomes 1400.\<close>

theorem capture_selects_process_witness:
  "\<exists>ip' ip'' seg. Capture (\<lambda>_. False) rfc framed 64 100 w_cap ([], []) [w_ev ''other'']
      = Capture (\<lambda>_. False) rfc framed 64 100 (w_cap\<lparr>cp_passed := [w_ip]\<rparr>) ip' []
    \<and> Capture (\<lambda>_. False) rfc framed 64 100 w_cap ([], []) [w_ev ''app''] = Some (w_cap, CapOk ip'', [])
    \<and> p_bytes framed ip'' = take 20 w_ip @ seg \<and> get16 seg 22 = 1400"
proof -
  have c: "cp_process w_cap = Some ''app''" "cv_recv (w_ev n) = Inr w_ip" "w_ip \<noteq> []"
    "length w_ip \<le> length (p_bytes framed (p_Sets framed ([], []) 64 100))" "cp_passed w_cap = []"
    "cv_name (w_ev n) = Inr n" "cv_send (w_ev n) = None" "cv_pcap (w_ev n) = None" "cp_overhead w_cap = 60" for n
    by (simp_all add: w_cap_def w_ev_def w_ip_def w_tcp_def framed_def)
  have t: "v4_tuple w_ip = \<lparr>s_src = AddrPort (Addr4 192 168 0 7) 4000, s_proto = TCP, s_dst = AddrPort (Addr4 8 8 8 8) 80\<rparr>"
    using w_ip_wf(5,6) by (simp add: v4_tuple_def v4_addr_def get16_def be16_def) (simp add: w_ip_def w_tcp_def)
  have s: "s_proto (v4_tuple w_ip) = TCP" "\<not> addr_multicast (ap_addr (s_dst (v4_tuple w_ip)))"
    by (simp_all add: t addr_multicast_def)
  obtain ip' where ip': "Capture (\<lambda>_. False) rfc framed 64 100 w_cap ([], []) [w_ev ''other'']
      = Capture (\<lambda>_. False) rfc framed 64 100 (w_cap\<lparr>cp_passed := [w_ip]\<rparr>) ip' []"
    using conjunct1 [OF capture_selects_process [OF rfc_laws framed_laws c(1) c(2) [of "''other''"] c(3,4) w_ip_FromIP, where temp = "\<lambda>_. False" and r = "[]"]] c(5-7) by auto
  obtain ip'' seg where q: "Capture (\<lambda>_. False) rfc framed 64 100 w_cap ([], []) [w_ev ''app''] = Some (w_cap, CapOk ip'', [])"
    "p_bytes framed ip'' = take 20 w_ip @ seg @ drop 44 w_ip" "mss_spec w_tcp 24 (-60) seg"
    using conjunct2 [OF capture_selects_process [OF rfc_laws framed_laws c(1) c(2) [of "''app''"] c(3,4) w_ip_FromIP, where temp = "\<lambda>_. False" and r = "[]"], rule_format] s c(6,8,9) w_ip_wf w_tcp_progress w_tcp_mss(1) by auto
  have "mss_at w_tcp 24 20" using opt_walk.here w_tcp_mss by (auto simp: mss_at_def)
  with q(3) w_tcp_mss(2) have "get16 seg 22 = 1400" by (auto simp: mss_spec_def mss_changed_def)
  with q ip' w_ip_wf(3,4) show ?thesis by (intro exI conjI) auto
qed

end
