(* ===== verification/Gonet_Deadline.thy ===== *)
theory Gonet_Deadline
  imports Go_Prelude
begin

text \<open>
  The deadlines of a connection in \<open>ustack/gonet/gonet.go\<close>: \<open>deadlineTimer\<close> with its two
  cancel channels, and the timers of the standard library that close them. A timer that has
  fired runs its function some time later, so setting a deadline can come in between; closing
  a closed channel is a panic (\<open>None\<close>).
\<close>

section \<open>State\<close>

text \<open>A timer: armed, fired but its function not yet run, or over (stopped or run).\<close>

datatype timer_state = Armed | Fired | Over

record timer =
  tm_ch :: nat
  tm_due :: int
  tm_state :: timer_state

text \<open>A side of the connection: the cancel channel and the timer variable.\<close>

record side =
  sd_ch :: nat
  sd_timer :: "nat option"

record deadlineTimer =
  dt_read :: side
  dt_write :: side
  dt_timers :: "nat \<rightharpoonup> timer"
  dt_ntimers :: nat
  dt_nchans :: nat
  dt_closed :: "nat set"

definition dt_init :: deadlineTimer where
  "dt_init = \<lparr>dt_read = \<lparr>sd_ch = 0, sd_timer = None\<rparr>, dt_write = \<lparr>sd_ch = 1, sd_timer = None\<rparr>,
     dt_timers = Map.empty, dt_ntimers = 0, dt_nchans = 2, dt_closed = {}\<rparr>"

section \<open>Setting a deadline\<close>

text \<open>\<open>Timer.Stop\<close>: true when it stopped an armed timer.\<close>

definition tm_Stop :: "deadlineTimer \<Rightarrow> nat \<Rightarrow> deadlineTimer \<times> bool" where
  "tm_Stop d k =
     (case dt_timers d k of
        Some tm \<Rightarrow>
          if tm_state tm = Armed
          then (d\<lparr>dt_timers := (dt_timers d)(k \<mapsto> tm\<lparr>tm_state := Over\<rparr>)\<rparr>, True)
          else (d, False)
      | None \<Rightarrow> (d, False))"

definition make_chan :: "deadlineTimer \<Rightarrow> side \<Rightarrow> deadlineTimer \<times> side" where
  "make_chan d s = (d\<lparr>dt_nchans := dt_nchans d + 1\<rparr>, s\<lparr>sd_ch := dt_nchans d\<rparr>)"

definition close_chan :: "deadlineTimer \<Rightarrow> nat \<Rightarrow> deadlineTimer option" where
  "close_chan d ch = (if ch \<in> dt_closed d then None else Some (d\<lparr>dt_closed := insert ch (dt_closed d)\<rparr>))"

text \<open>\<open>setDeadline\<close>, in its three parts; the deadline \<open>None\<close> is the zero time.\<close>

definition sd_stop :: "deadlineTimer \<Rightarrow> side \<Rightarrow> deadlineTimer \<times> side" where
  "sd_stop d s =
     (case sd_timer s of
        None \<Rightarrow> (d, s)
      | Some k \<Rightarrow> (let (d, stopped) = tm_Stop d k in if stopped then (d, s) else make_chan d s))"

definition sd_renew :: "deadlineTimer \<Rightarrow> side \<Rightarrow> deadlineTimer \<times> side" where
  "sd_renew d s = (if sd_ch s \<in> dt_closed d then make_chan d s else (d, s))"

definition sd_arm :: "deadlineTimer \<Rightarrow> side \<Rightarrow> int option \<Rightarrow> int \<Rightarrow> (deadlineTimer \<times> side) option" where
  "sd_arm d s t now =
     (case t of
        None \<Rightarrow> Some (d, s\<lparr>sd_timer := None\<rparr>)
      | Some t \<Rightarrow>
          if t - now \<le> 0 then map_option (\<lambda>d. (d, s)) (close_chan d (sd_ch s))
          else Some (d\<lparr>dt_timers := (dt_timers d)(dt_ntimers d \<mapsto> \<lparr>tm_ch = sd_ch s, tm_due = t, tm_state = Armed\<rparr>),
                       dt_ntimers := dt_ntimers d + 1\<rparr>,
                     s\<lparr>sd_timer := Some (dt_ntimers d)\<rparr>))"

definition setDeadline :: "deadlineTimer \<Rightarrow> side \<Rightarrow> int option \<Rightarrow> int \<Rightarrow> (deadlineTimer \<times> side) option" where
  "setDeadline d s t now =
     (let (d, s) = sd_stop d s; (d, s) = sd_renew d s in sd_arm d s t now)"

definition SetReadDeadline :: "deadlineTimer \<Rightarrow> int option \<Rightarrow> int \<Rightarrow> deadlineTimer option" where
  "SetReadDeadline d t now =
     map_option (\<lambda>(d, s). d\<lparr>dt_read := s\<rparr>) (setDeadline d (dt_read d) t now)"

definition SetWriteDeadline :: "deadlineTimer \<Rightarrow> int option \<Rightarrow> int \<Rightarrow> deadlineTimer option" where
  "SetWriteDeadline d t now =
     map_option (\<lambda>(d, s). d\<lparr>dt_write := s\<rparr>) (setDeadline d (dt_write d) t now)"

definition SetDeadline :: "deadlineTimer \<Rightarrow> int option \<Rightarrow> int \<Rightarrow> int \<Rightarrow> deadlineTimer option" where
  "SetDeadline d t now now' = do { d \<leftarrow> SetReadDeadline d t now; SetWriteDeadline d t now' }"

definition readCancel :: "deadlineTimer \<Rightarrow> nat" where "readCancel d = sd_ch (dt_read d)"
definition writeCancel :: "deadlineTimer \<Rightarrow> nat" where "writeCancel d = sd_ch (dt_write d)"

section \<open>Runs\<close>

definition tm_run :: "deadlineTimer \<Rightarrow> nat \<Rightarrow> deadlineTimer option" where
  "tm_run d k =
     (case dt_timers d k of
        Some tm \<Rightarrow> close_chan (d\<lparr>dt_timers := (dt_timers d)(k \<mapsto> tm\<lparr>tm_state := Over\<rparr>)\<rparr>) (tm_ch tm)
      | None \<Rightarrow> None)"

inductive dt_step :: "deadlineTimer \<Rightarrow> deadlineTimer \<Rightarrow> bool" where
  set_read: "SetReadDeadline d t now = Some d' \<Longrightarrow> dt_step d d'"
| set_write: "SetWriteDeadline d t now = Some d' \<Longrightarrow> dt_step d d'"
| fire: "dt_timers d k = Some tm \<Longrightarrow> tm_state tm = Armed \<Longrightarrow>
    dt_step d (d\<lparr>dt_timers := (dt_timers d)(k \<mapsto> tm\<lparr>tm_state := Fired\<rparr>)\<rparr>)"
| run: "dt_timers d k = Some tm \<Longrightarrow> tm_state tm = Fired \<Longrightarrow> tm_run d k = Some d' \<Longrightarrow> dt_step d d'"

definition dt_reach :: "deadlineTimer \<Rightarrow> bool" where
  "dt_reach d \<longleftrightarrow> dt_step\<^sup>*\<^sup>* dt_init d"

section \<open>The invariant\<close>

text \<open>Every channel that is still to be closed by a timer is open, and no two such timers
  share one; a timer that is not over and aims at the channel of a side is that side's timer.\<close>

definition live :: "deadlineTimer \<Rightarrow> nat \<Rightarrow> nat \<Rightarrow> bool" where
  "live d k ch \<longleftrightarrow> (\<exists>tm. dt_timers d k = Some tm \<and> tm_state tm \<noteq> Over \<and> tm_ch tm = ch)"

definition side_ok :: "deadlineTimer \<Rightarrow> side \<Rightarrow> bool" where
  "side_ok d s \<longleftrightarrow> sd_ch s < dt_nchans d \<and> (\<forall>k. live d k (sd_ch s) \<longrightarrow> sd_timer s = Some k)"

definition chans_ok :: "deadlineTimer \<Rightarrow> bool" where
  "chans_ok d \<longleftrightarrow> (\<forall>ch \<in> dt_closed d. ch < dt_nchans d) \<and> (\<forall>k ch. live d k ch \<longrightarrow> ch < dt_nchans d \<and> ch \<notin> dt_closed d)
     \<and> (\<forall>k l ch. live d k ch \<longrightarrow> live d l ch \<longrightarrow> k = l) \<and> (\<forall>k \<in> dom (dt_timers d). k < dt_ntimers d)"

text \<open>A side \<open>s\<close> that is being set and the other side \<open>q\<close>.\<close>

definition two_sides :: "deadlineTimer \<Rightarrow> side \<Rightarrow> side \<Rightarrow> bool" where
  "two_sides d s q \<longleftrightarrow> chans_ok d \<and> side_ok d s \<and> side_ok d q \<and> sd_ch s \<noteq> sd_ch q"

definition dt_inv :: "deadlineTimer \<Rightarrow> bool" where
  "dt_inv d \<longleftrightarrow> two_sides d (dt_read d) (dt_write d)"

lemma two_sides_sym: "two_sides d s q \<Longrightarrow> two_sides d q s"
  by (auto simp: two_sides_def)

text \<open>No timer is going to close the side's channel.\<close>

definition quiet :: "deadlineTimer \<Rightarrow> nat \<Rightarrow> bool" where
  "quiet d ch \<longleftrightarrow> (\<forall>k. \<not> live d k ch)"

lemma make_chan_ok:
  assumes "two_sides d s q" "make_chan d s = (d', s')"
  shows "two_sides d' s' q \<and> quiet d' (sd_ch s') \<and> sd_ch s' \<notin> dt_closed d'"
proof -
  have d': "d' = d\<lparr>dt_nchans := dt_nchans d + 1\<rparr>" "s' = s\<lparr>sd_ch := dt_nchans d\<rparr>"
    using assms(2) by (simp_all add: make_chan_def)
  have l: "live d' k ch = live d k ch" for k ch by (simp add: live_def d'(1))
  have old: "ch < dt_nchans d" if "live d k ch" for k ch
    using assms(1) that by (auto simp: two_sides_def chans_ok_def)
  have cl: "ch < dt_nchans d" if "ch \<in> dt_closed d" for ch
    using assms(1) that by (auto simp: two_sides_def chans_ok_def)
  have fresh: "\<not> live d k (dt_nchans d)" "dt_nchans d \<notin> dt_closed d" for k
    using old [of k "dt_nchans d"] cl [of "dt_nchans d"] by auto
  have "chans_ok d'"
    using assms(1) l unfolding two_sides_def chans_ok_def d' by (auto simp: less_Suc_eq)
  moreover have "side_ok d' s'" using fresh l by (simp add: side_ok_def d')
  moreover have "side_ok d' q" "sd_ch s' \<noteq> sd_ch q"
    using assms(1) l unfolding two_sides_def side_ok_def d' by auto
  ultimately show ?thesis using fresh l by (simp add: two_sides_def quiet_def d')
qed

lemma tm_Stop_live: "tm_Stop d k = (d', st) \<Longrightarrow> live d' l ch \<longrightarrow> live d l ch"
  by (auto simp: tm_Stop_def live_def split: option.splits if_splits)

lemma two_sides_less:
  assumes "two_sides d s q" "\<And>l ch. live d' l ch \<Longrightarrow> live d l ch" "dt_nchans d' = dt_nchans d"
    "dt_closed d' = dt_closed d" "dom (dt_timers d') \<subseteq> dom (dt_timers d)" "dt_ntimers d' = dt_ntimers d"
  shows "two_sides d' s q"
proof -
  have "chans_ok d'" using assms unfolding two_sides_def chans_ok_def by (metis subsetD)
  moreover have "side_ok d' s" "side_ok d' q" using assms unfolding two_sides_def side_ok_def by metis+
  ultimately show ?thesis using assms(1) by (simp add: two_sides_def)
qed

lemma sd_stop_ok:
  assumes "two_sides d s q" "sd_stop d s = (d', s')"
  shows "two_sides d' s' q \<and> quiet d' (sd_ch s')"
proof (cases "sd_timer s")
  case None
  then have "quiet d (sd_ch s)" using assms(1) by (auto simp: two_sides_def side_ok_def quiet_def)
  with None assms show ?thesis by (simp add: sd_stop_def)
next
  case (Some k)
  obtain d1 st where st: "tm_Stop d k = (d1, st)" by (cases "tm_Stop d k")
  have f: "dt_nchans d1 = dt_nchans d" "dt_closed d1 = dt_closed d" "dom (dt_timers d1) \<subseteq> dom (dt_timers d)"
    "dt_ntimers d1 = dt_ntimers d"
    using st by (auto simp: tm_Stop_def split: option.splits if_splits)
  have two: "two_sides d1 s q"
    by (rule two_sides_less [OF assms(1) _ f]) (use tm_Stop_live [OF st] in blast)
  show ?thesis
  proof (cases st)
    case True
    have "\<not> live d1 k ch" for ch using st True by (auto simp: tm_Stop_def live_def split: option.splits if_splits)
    then have "quiet d1 (sd_ch s)" using two Some by (auto simp: two_sides_def side_ok_def quiet_def)
    with True Some st two assms(2) show ?thesis by (simp add: sd_stop_def)
  next
    case False
    with Some st assms(2) have "make_chan d1 s = (d', s')" by (simp add: sd_stop_def)
    from make_chan_ok [OF two this] show ?thesis by simp
  qed
qed

lemma sd_renew_ok:
  assumes "two_sides d s q" "quiet d (sd_ch s)" "sd_renew d s = (d', s')"
  shows "two_sides d' s' q \<and> quiet d' (sd_ch s') \<and> sd_ch s' \<notin> dt_closed d'"
  using assms make_chan_ok [OF assms(1), of d' s'] by (auto simp: sd_renew_def split: if_splits)

lemma close_chan_ok:
  assumes "two_sides d s q" "quiet d ch" "ch < dt_nchans d" "ch \<notin> dt_closed d"
  shows "\<exists>d'. close_chan d ch = Some d' \<and> two_sides d' s q \<and> dt_closed d' = insert ch (dt_closed d)"
proof -
  let ?d = "d\<lparr>dt_closed := insert ch (dt_closed d)\<rparr>"
  have l: "live ?d k c = live d k c" for k c by (simp add: live_def)
  have "chans_ok ?d" using assms l unfolding two_sides_def chans_ok_def quiet_def by auto
  moreover have "side_ok ?d s" "side_ok ?d q" using assms(1) l by (simp_all add: two_sides_def side_ok_def)
  ultimately show ?thesis using assms(1,4) by (simp add: close_chan_def two_sides_def)
qed

text \<open>What a side means after its deadline was set.\<close>

definition deadline_set :: "deadlineTimer \<Rightarrow> side \<Rightarrow> int option \<Rightarrow> int \<Rightarrow> bool" where
  "deadline_set d s t now \<longleftrightarrow>
     (case t of None \<Rightarrow> sd_ch s \<notin> dt_closed d \<and> quiet d (sd_ch s)
      | Some t \<Rightarrow> if t \<le> now then sd_ch s \<in> dt_closed d
          else sd_ch s \<notin> dt_closed d \<and> (\<exists>k. sd_timer s = Some k
            \<and> dt_timers d k = Some \<lparr>tm_ch = sd_ch s, tm_due = t, tm_state = Armed\<rparr>))"

lemma sd_arm_ok:
  assumes two: "two_sides d s q" and qu: "quiet d (sd_ch s)" and op: "sd_ch s \<notin> dt_closed d"
  shows "\<exists>d' s'. sd_arm d s t now = Some (d', s') \<and> two_sides d' s' q \<and> deadline_set d' s' t now"
proof (cases t)
  case None
  have "two_sides d (s\<lparr>sd_timer := None\<rparr>) q" using two qu by (simp add: two_sides_def side_ok_def quiet_def)
  with None qu op show ?thesis by (simp add: sd_arm_def deadline_set_def)
next
  case (Some u)
  have ch: "sd_ch s < dt_nchans d" using two by (simp add: two_sides_def side_ok_def)
  show ?thesis
  proof (cases "u \<le> now")
    case True
    obtain d' where "close_chan d (sd_ch s) = Some d'" "two_sides d' s q" "dt_closed d' = insert (sd_ch s) (dt_closed d)"
      using close_chan_ok [OF two qu ch op] by blast
    with Some True show ?thesis by (simp add: sd_arm_def deadline_set_def)
  next
    case False
    let ?n = "dt_ntimers d" and ?tm = "\<lparr>tm_ch = sd_ch s, tm_due = u, tm_state = Armed\<rparr>"
    let ?d = "d\<lparr>dt_timers := (dt_timers d)(?n \<mapsto> ?tm), dt_ntimers := ?n + 1\<rparr>" and ?s = "s\<lparr>sd_timer := Some ?n\<rparr>"
    have nn: "dt_timers d ?n = None"
      using two unfolding two_sides_def chans_ok_def by (metis domIff less_irrefl)
    have l: "live ?d k c \<longleftrightarrow> live d k c \<or> (k = ?n \<and> c = sd_ch s)" for k c
      using nn by (auto simp: live_def)
    have ok: "\<forall>k ch. live d k ch \<longrightarrow> ch < dt_nchans d \<and> ch \<notin> dt_closed d" "\<forall>k l ch. live d k ch \<longrightarrow> live d l ch \<longrightarrow> k = l"
      "\<forall>ch \<in> dt_closed d. ch < dt_nchans d" "\<forall>k \<in> dom (dt_timers d). k < dt_ntimers d"
      using two by (simp_all add: two_sides_def chans_ok_def)
    have "\<forall>k \<in> dom (dt_timers ?d). k < dt_ntimers ?d" using ok(4) by (auto simp: less_Suc_eq)
    moreover have "\<forall>k m c. live ?d k c \<longrightarrow> live ?d m c \<longrightarrow> k = m"
      using ok(2) qu unfolding l quiet_def by blast
    moreover have "\<forall>k c. live ?d k c \<longrightarrow> c < dt_nchans ?d \<and> c \<notin> dt_closed ?d"
      using ok(1) ch op unfolding l by auto
    ultimately have "chans_ok ?d" using ok(3) unfolding chans_ok_def by simp
    moreover have "side_ok ?d ?s" using qu ch unfolding side_ok_def quiet_def l by simp
    moreover have "side_ok ?d q" "sd_ch s \<noteq> sd_ch q" using two unfolding two_sides_def side_ok_def l by auto
    ultimately have "two_sides ?d ?s q" by (simp add: two_sides_def)
    with Some False op show ?thesis by (simp add: sd_arm_def deadline_set_def)
  qed
qed

lemma setDeadline_ok:
  assumes "two_sides d s q"
  shows "\<exists>d' s'. setDeadline d s t now = Some (d', s') \<and> two_sides d' s' q \<and> deadline_set d' s' t now"
proof -
  obtain d1 s1 where 1: "sd_stop d s = (d1, s1)" by (cases "sd_stop d s")
  obtain d2 s2 where 2: "sd_renew d1 s1 = (d2, s2)" by (cases "sd_renew d1 s1")
  have a: "two_sides d1 s1 q" "quiet d1 (sd_ch s1)" using sd_stop_ok [OF assms 1] by simp_all
  have "two_sides d2 s2 q" "quiet d2 (sd_ch s2)" "sd_ch s2 \<notin> dt_closed d2" using sd_renew_ok [OF a 2] by simp_all
  from sd_arm_ok [OF this] 1 2 show ?thesis by (simp add: setDeadline_def)
qed

lemma two_sides_frame: "two_sides (d\<lparr>dt_read := x\<rparr>) s q = two_sides d s q"
    "two_sides (d\<lparr>dt_write := x\<rparr>) s q = two_sides d s q"
  by (simp_all add: two_sides_def chans_ok_def side_ok_def live_def)

lemma deadline_set_frame: "deadline_set (d\<lparr>dt_read := x\<rparr>) s t now = deadline_set d s t now"
    "deadline_set (d\<lparr>dt_write := x\<rparr>) s t now = deadline_set d s t now"
  by (simp_all add: deadline_set_def quiet_def live_def split: option.split)

lemma setDeadline_sides: "setDeadline d s t now = Some (d', s') \<Longrightarrow> dt_read d' = dt_read d \<and> dt_write d' = dt_write d"
  by (auto simp: setDeadline_def sd_stop_def tm_Stop_def sd_renew_def sd_arm_def make_chan_def close_chan_def Let_def
      split: option.splits if_splits)

lemma SetReadDeadline_ok:
  assumes "dt_inv d"
  shows "\<exists>d'. SetReadDeadline d t now = Some d' \<and> dt_inv d' \<and> deadline_set d' (dt_read d') t now"
proof -
  obtain d' s' where s: "setDeadline d (dt_read d) t now = Some (d', s')" "two_sides d' s' (dt_write d)"
    "deadline_set d' s' t now"
    using setDeadline_ok [OF assms [unfolded dt_inv_def], of t now] by blast
  with setDeadline_sides [OF s(1)] show ?thesis
    by (simp add: SetReadDeadline_def dt_inv_def two_sides_frame deadline_set_frame)
qed

lemma SetWriteDeadline_ok:
  assumes "dt_inv d"
  shows "\<exists>d'. SetWriteDeadline d t now = Some d' \<and> dt_inv d' \<and> deadline_set d' (dt_write d') t now"
proof -
  obtain d' s' where s: "setDeadline d (dt_write d) t now = Some (d', s')" "two_sides d' s' (dt_read d)"
    "deadline_set d' s' t now"
    using setDeadline_ok [OF two_sides_sym [OF assms [unfolded dt_inv_def]], of t now] by blast
  with setDeadline_sides [OF s(1)] show ?thesis
    by (simp add: SetWriteDeadline_def dt_inv_def two_sides_frame deadline_set_frame two_sides_sym)
qed

lemma tm_run_ok:
  assumes inv: "dt_inv d" and k: "dt_timers d k = Some tm" "tm_state tm = Fired"
  shows "\<exists>d'. tm_run d k = Some d' \<and> dt_inv d' \<and> tm_ch tm \<in> dt_closed d'"
proof -
  let ?d = "d\<lparr>dt_timers := (dt_timers d)(k \<mapsto> tm\<lparr>tm_state := Over\<rparr>)\<rparr>" and ?ch = "tm_ch tm"
  have two: "two_sides d (dt_read d) (dt_write d)" using inv by (simp add: dt_inv_def)
  have lk: "live d k ?ch" using k by (simp add: live_def)
  have l: "live ?d j c \<longrightarrow> live d j c \<and> j \<noteq> k" for j c by (simp add: live_def)
  have two': "two_sides ?d (dt_read d) (dt_write d)"
    by (rule two_sides_less [OF two]) (use l k in \<open>auto simp: dom_def\<close>)
  have "chans_ok d" using two by (simp add: two_sides_def)
  then have ch: "?ch < dt_nchans d" "?ch \<notin> dt_closed d" and un: "\<forall>j. live d j ?ch \<longrightarrow> j = k"
    using lk unfolding chans_ok_def by blast+
  have "quiet ?d ?ch" using l un unfolding quiet_def by blast
  from close_chan_ok [OF two' this] ch obtain d' where c: "close_chan ?d ?ch = Some d'"
    "two_sides d' (dt_read d) (dt_write d)" "dt_closed d' = insert ?ch (dt_closed d)" by auto
  have "dt_read d' = dt_read d" "dt_write d' = dt_write d" using c(1) by (auto simp: close_chan_def split: if_splits)
  with c k(1) show ?thesis by (simp add: tm_run_def dt_inv_def)
qed

lemma dt_step_inv: "dt_step d d' \<Longrightarrow> dt_inv d \<Longrightarrow> dt_inv d'"
proof (induction rule: dt_step.induct)
  case (set_read d t now d')
  then show ?case using SetReadDeadline_ok [of d t now] by auto
next
  case (set_write d t now d')
  then show ?case using SetWriteDeadline_ok [of d t now] by auto
next
  case (fire d k tm)
  let ?d = "d\<lparr>dt_timers := (dt_timers d)(k \<mapsto> tm\<lparr>tm_state := Fired\<rparr>)\<rparr>"
  have "two_sides ?d (dt_read d) (dt_write d)"
    by (rule two_sides_less [OF fire(3) [unfolded dt_inv_def]])
      (use fire(1,2) in \<open>auto simp: live_def split: if_splits\<close>)
  then show ?case by (simp add: dt_inv_def)
next
  case (run d k tm d')
  then show ?case using tm_run_ok [of d k tm] by auto
qed

lemma dt_reach_inv: "dt_reach d \<Longrightarrow> dt_inv d"
  unfolding dt_reach_def
proof (induction rule: rtranclp_induct)
  case base
  show ?case by (simp add: dt_inv_def dt_init_def two_sides_def chans_ok_def side_ok_def live_def)
qed (rule dt_step_inv)

text \<open>
  C21. Deadlines are sound. In every reachable state, with timers that fired and have not run
  yet, setting either deadline succeeds and no channel is ever closed twice. Afterwards the
  side's cancel channel is closed exactly when the deadline is not in the future; without a
  deadline no timer is left that would close it; with one in the future an armed timer of
  that time is the one that will. Reads and writes are cancelled by different channels.
\<close>

theorem deadline_sound:
  assumes "dt_reach d"
  shows "(\<forall>t now. \<exists>d'. SetReadDeadline d t now = Some d' \<and> deadline_set d' (dt_read d') t now)
    \<and> (\<forall>t now. \<exists>d'. SetWriteDeadline d t now = Some d' \<and> deadline_set d' (dt_write d') t now)
    \<and> (\<forall>t now now'. SetDeadline d t now now' \<noteq> None)
    \<and> (\<forall>k tm. dt_timers d k = Some tm \<longrightarrow> tm_state tm = Fired \<longrightarrow> (\<exists>d'. tm_run d k = Some d' \<and> tm_ch tm \<in> dt_closed d'))
    \<and> readCancel d \<noteq> writeCancel d"
proof (intro conjI allI impI)
  note inv = dt_reach_inv [OF assms]
  show "\<exists>d'. SetReadDeadline d t now = Some d' \<and> deadline_set d' (dt_read d') t now" for t now
    using SetReadDeadline_ok [OF inv] by blast
  show "\<exists>d'. SetWriteDeadline d t now = Some d' \<and> deadline_set d' (dt_write d') t now" for t now
    using SetWriteDeadline_ok [OF inv] by blast
  show "SetDeadline d t now now' \<noteq> None" for t now now'
  proof -
    obtain d1 where "SetReadDeadline d t now = Some d1" "dt_inv d1" using SetReadDeadline_ok [OF inv] by blast
    with SetWriteDeadline_ok [of d1 t now'] show ?thesis by (auto simp: SetDeadline_def)
  qed
  show "\<exists>d'. tm_run d k = Some d' \<and> tm_ch tm \<in> dt_closed d'"
    if "dt_timers d k = Some tm" "tm_state tm = Fired" for k tm
    using tm_run_ok [OF inv that] by blast
  show "readCancel d \<noteq> writeCancel d" using inv by (simp add: dt_inv_def two_sides_def readCancel_def writeCancel_def)
qed

theorem deadline_sound_witness:
  "\<exists>d'. SetReadDeadline dt_init (Some 5) 9 = Some d' \<and> sd_ch (dt_read d') \<in> dt_closed d'"
proof -
  have "dt_reach dt_init" by (simp add: dt_reach_def)
  from deadline_sound [OF this] have "\<exists>d'. SetReadDeadline dt_init (Some 5) 9 = Some d' \<and> deadline_set d' (dt_read d') (Some 5) 9"
    by blast
  then show ?thesis by (auto simp: deadline_set_def)
qed

end
