(* ===== verification/Gonet_Conn.thy ===== *)
theory Gonet_Conn
  imports Gonet_Deadline
begin

text \<open>
  The blocking operations of \<open>ustack/gonet/gonet.go\<close> over gVisor's endpoints: accepting,
  reading, writing, dialing and waiting for acknowledgements. The endpoint is the environment:
  an operation is given what each of its calls returns and which of its select cases becomes
  ready; when it is given no more of them it is still blocked.
\<close>

section \<open>The environment\<close>

datatype ep_error = WouldBlock | ConnectStarted | ClosedForReceive | ConnectionReset | EpError nat

datatype wake = WNotify | WCancel | WDeadline | WCtx go_error

datatype op_error = OpCanceled | OpCtx go_error | OpDeadline | OpEOF | OpReset | OpError ep_error

section \<open>Accepting\<close>

datatype 'e accepted = AcBlocked | AcOk 'e | AcErr op_error

definition accept_end :: "ep_error + 'e \<Rightarrow> 'e accepted" where
  "accept_end r = (case r of Inl err \<Rightarrow> AcErr (OpError err) | Inr n \<Rightarrow> AcOk n)"

fun accept_loop :: "((ep_error + 'e) \<times> wake) list \<Rightarrow> 'e accepted" where
  "accept_loop [] = AcBlocked"
| "accept_loop ((r, w) # env) =
     (if r \<noteq> Inl WouldBlock then accept_end r
      else (case w of WCancel \<Rightarrow> AcErr OpCanceled | WCtx err \<Rightarrow> AcErr (OpCtx err) | _ \<Rightarrow> accept_loop env))"

text \<open>The endpoint's \<open>Accept\<close> takes the remote to wait for, none for \<open>Accept\<close>.\<close>

definition tl_AcceptBy :: "('a \<Rightarrow> ep_error + 'e) \<Rightarrow> ('a \<Rightarrow> ((ep_error + 'e) \<times> wake) list) \<Rightarrow> 'a \<Rightarrow> 'e accepted" where
  "tl_AcceptBy first env src =
     (if first src \<noteq> Inl WouldBlock then accept_end (first src) else accept_loop (env src))"

definition tl_Accept :: "('a option \<Rightarrow> ep_error + 'e) \<Rightarrow> ('a option \<Rightarrow> ((ep_error + 'e) \<times> wake) list) \<Rightarrow> 'e accepted" where
  "tl_Accept first env =
     (if first None \<noteq> Inl WouldBlock then accept_end (first None) else accept_loop (env None))"

section \<open>Reading\<close>

text \<open>A read returns the bytes it put into the buffer and their sender.\<close>

datatype 'a read_out = RdBlocked | RdOk bytes 'a | RdErr op_error

definition read_end :: "ep_error + bytes \<times> 'a \<Rightarrow> 'a read_out" where
  "read_end r =
     (case r of
        Inl ClosedForReceive \<Rightarrow> RdErr OpEOF
      | Inl ConnectionReset \<Rightarrow> RdErr OpReset
      | Inl err \<Rightarrow> RdErr (OpError err)
      | Inr (b, addr) \<Rightarrow> RdOk b addr)"

fun read_loop :: "((ep_error + bytes \<times> 'a) \<times> wake) list \<Rightarrow> 'a read_out" where
  "read_loop [] = RdBlocked"
| "read_loop ((r, w) # env) =
     (if r \<noteq> Inl WouldBlock then read_end r
      else (case w of WDeadline \<Rightarrow> RdErr OpDeadline | WCtx err \<Rightarrow> RdErr (OpCtx err) | _ \<Rightarrow> read_loop env))"

definition commonRead :: "bool \<Rightarrow> go_error option \<Rightarrow> ep_error + bytes \<times> 'a \<Rightarrow> ((ep_error + bytes \<times> 'a) \<times> wake) list
    \<Rightarrow> 'a read_out" where
  "commonRead deadline ctx first env =
     (if deadline then RdErr OpDeadline
      else case ctx of Some err \<Rightarrow> RdErr (OpCtx err)
      | None \<Rightarrow> if first \<noteq> Inl WouldBlock then read_end first else read_loop env)"

text \<open>\<open>TCPConn.Read\<close> tells the endpoint how much was copied out; \<open>ReadFrom\<close> keeps the sender.\<close>

definition tc_Read :: "deadlineTimer \<Rightarrow> ep_error + bytes \<times> 'a \<Rightarrow> ((ep_error + bytes \<times> 'a) \<times> wake) list
    \<Rightarrow> 'a read_out \<times> nat option" where
  "tc_Read d first env =
     (let r = commonRead (readCancel d \<in> dt_closed d) None first env in
      (r, case r of RdOk b _ \<Rightarrow> if length b \<noteq> 0 then Some (length b) else None | _ \<Rightarrow> None))"

definition uc_ReadFrom :: "deadlineTimer \<Rightarrow> ep_error + bytes \<times> 'a \<Rightarrow> ((ep_error + bytes \<times> 'a) \<times> wake) list
    \<Rightarrow> 'a read_out" where
  "uc_ReadFrom d first env = commonRead (readCancel d \<in> dt_closed d) None first env"

section \<open>Writing\<close>

text \<open>One call of the endpoint's \<open>Write\<close>: how many bytes of the reader it is willing to take,
  its error, and what happens at the select when the code waits. The result lists the bytes
  the endpoint took; \<open>registered\<close> says whether the notification channel exists.\<close>

record ep_write =
  ew_take :: nat
  ew_err :: "ep_error option"
  ew_wake :: wake

datatype write_out = WrBlocked nat | WrOk nat | WrErr nat op_error

fun tcp_write_loop :: "bytes \<Rightarrow> nat \<Rightarrow> bool \<Rightarrow> bytes \<Rightarrow> ep_write list \<Rightarrow> write_out \<times> bytes" where
  "tcp_write_loop b nbytes registered acc env =
     (if nbytes = length b then (WrOk nbytes, acc)
      else case env of
        [] \<Rightarrow> (WrBlocked nbytes, acc)
      | e # env \<Rightarrow>
          (let n = min (ew_take e) (length b - nbytes);
               acc = acc @ take n (drop nbytes b);
               nbytes = nbytes + n in
           case ew_err e of
             None \<Rightarrow> tcp_write_loop b nbytes registered acc env
           | Some WouldBlock \<Rightarrow>
               if \<not> registered then tcp_write_loop b nbytes True acc env
               else if ew_wake e = WDeadline then (WrErr nbytes OpDeadline, acc)
               else tcp_write_loop b nbytes registered acc env
           | Some err \<Rightarrow> (WrErr nbytes (OpError err), acc)))"

declare tcp_write_loop.simps [simp del]

definition tc_Write :: "deadlineTimer \<Rightarrow> bytes \<Rightarrow> ep_write list \<Rightarrow> write_out \<times> bytes" where
  "tc_Write d b env =
     (if writeCancel d \<in> dt_closed d then (WrErr 0 OpDeadline, [])
      else tcp_write_loop b 0 False [] env)"

text \<open>A datagram is written in one piece; the loop only repeats the call.\<close>

fun udp_write_loop :: "(nat \<times> ep_error option) \<Rightarrow> (wake \<times> nat \<times> ep_error option) list \<Rightarrow> write_out" where
  "udp_write_loop (n, err) [] = WrBlocked n"
| "udp_write_loop (n, err) ((w, r) # env) =
     (if w = WDeadline then WrErr n OpDeadline
      else if snd r \<noteq> Some WouldBlock
      then (case snd r of None \<Rightarrow> WrOk (fst r) | Some e \<Rightarrow> WrErr (fst r) (OpError e))
      else udp_write_loop r env)"

definition uc_WriteTo :: "deadlineTimer \<Rightarrow> nat \<times> ep_error option \<Rightarrow> (wake \<times> nat \<times> ep_error option) list \<Rightarrow> write_out" where
  "uc_WriteTo d first env =
     (if writeCancel d \<in> dt_closed d then WrErr 0 OpDeadline
      else if snd first = Some WouldBlock then udp_write_loop first env
      else (case snd first of None \<Rightarrow> WrOk (fst first) | Some e \<Rightarrow> WrErr (fst first) (OpError e)))"

section \<open>Dialing and listening\<close>

text \<open>The endpoint made by the call: none, open or closed.\<close>

datatype ep_state = NoEp | EpOpen | EpClosed

datatype dial_out = DialBlocked | DialOk | DialErr

record dial_env =
  de_new :: "ep_error option"
  de_ctx :: bool
  de_bind :: "ep_error option"
  de_connect :: "ep_error option"
  de_wake :: "wake option"
  de_last :: "ep_error option"

definition dial_end :: "ep_error option \<Rightarrow> dial_out \<times> ep_state" where
  "dial_end err = (if err \<noteq> None then (DialErr, EpClosed) else (DialOk, EpOpen))"

definition DialTCPWithBind :: "bool \<Rightarrow> dial_env \<Rightarrow> dial_out \<times> ep_state" where
  "DialTCPWithBind local_set e =
     (if de_new e \<noteq> None then (DialErr, NoEp)
      else if de_ctx e then (DialErr, EpOpen)
      else if local_set \<and> de_bind e \<noteq> None then (DialErr, EpOpen)
      else if de_connect e = Some ConnectStarted then
        (case de_wake e of
           None \<Rightarrow> (DialBlocked, EpOpen)
         | Some (WCtx err) \<Rightarrow> (DialErr, EpClosed)
         | Some _ \<Rightarrow> dial_end (de_last e))
      else dial_end (de_connect e))"

definition ListenTCP :: "ep_error option \<Rightarrow> ep_error option \<Rightarrow> ep_error option \<Rightarrow> dial_out \<times> ep_state" where
  "ListenTCP new bnd listen =
     (if new \<noteq> None then (DialErr, NoEp)
      else if bnd \<noteq> None then (DialErr, EpClosed)
      else if listen \<noteq> None then (DialErr, EpClosed)
      else (DialOk, EpOpen))"

definition DialUDP :: "bool \<Rightarrow> bool \<Rightarrow> ep_error option \<Rightarrow> ep_error option \<Rightarrow> ep_error option \<Rightarrow> dial_out \<times> ep_state" where
  "DialUDP has_laddr has_raddr new bnd connect =
     (if new \<noteq> None then (DialErr, NoEp)
      else if has_laddr \<and> bnd \<noteq> None then (DialErr, EpClosed)
      else if has_raddr \<and> connect \<noteq> None then (DialErr, EpClosed)
      else (DialOk, EpOpen))"

section \<open>Waiting for acknowledgements\<close>

text \<open>One reading of the endpoint's state under its lock, and whether the context ends the
  wait that follows. The sequence numbers are 32-bit, compared as unsigned numbers.\<close>

record ack_reading =
  ar_used :: int
  ar_snduna :: u32
  ar_sndnxt :: u32
  ar_rcvnxt :: u32
  ar_ctx :: bool

datatype ack_out = AckUnsupported | AckBlocked | AckCtx | AckOk u32 u32

fun ack_wait :: "ack_reading list \<Rightarrow> ack_out" where
  "ack_wait [] = AckBlocked"
| "ack_wait (a # env) =
     (if ar_sndnxt a \<le> ar_snduna a then AckOk (ar_sndnxt a) (ar_rcvnxt a)
      else if ar_ctx a then AckCtx else ack_wait env)"

fun drain_wait :: "ack_reading list \<Rightarrow> ack_out" where
  "drain_wait [] = AckBlocked"
| "drain_wait (a # env) =
     (if ar_used a \<le> 0 then ack_wait env
      else if ar_ctx a then AckCtx else drain_wait env)"

text \<open>What the endpoint supports: locking by its user, and the four fields that the code looks
  for by reflection; a field that is missing, and every field after a panic of the search, is
  invalid.\<close>

record ep_probe =
  pb_lock :: bool
  pb_used :: bool
  pb_snduna :: bool
  pb_sndnxt :: bool
  pb_rcvnxt :: bool

definition WaitSentDataRecvByPeer :: "ep_probe \<Rightarrow> ack_reading list \<Rightarrow> ack_out" where
  "WaitSentDataRecvByPeer pb env =
     (if \<not> pb_lock pb then AckUnsupported
      else if \<not> pb_used pb \<or> \<not> pb_snduna pb \<or> \<not> pb_sndnxt pb \<or> \<not> pb_rcvnxt pb then AckUnsupported
      else drain_wait env)"

section \<open>Properties\<close>

lemma tcp_write_loop_ok:
  "tcp_write_loop b k reg acc env = (r, out) \<Longrightarrow> acc = take k b \<Longrightarrow> k \<le> length b \<Longrightarrow>
    \<exists>n. out = take n b \<and> k \<le> n \<and> n \<le> length b
      \<and> (case r of WrOk m \<Rightarrow> m = n \<and> n = length b | WrBlocked m \<Rightarrow> m = n \<and> n < length b | WrErr m e \<Rightarrow> m = n)"
proof (induction env arbitrary: k reg acc)
  case Nil
  then show ?case by (auto simp: tcp_write_loop.simps [of b k] split: if_splits)
next
  case (Cons e env)
  show ?case
  proof (cases "k = length b")
    case True
    with Cons.prems show ?thesis by (auto simp: tcp_write_loop.simps [of b "length b"])
  next
    case False
    let ?n = "min (ew_take e) (length b - k)"
    have t: "take k b @ take ?n (drop k b) = take (k + ?n) b" by (simp add: take_add)
    have le: "k + ?n \<le> length b" using Cons.prems(3) by simp
    have IH: "\<exists>n. out = take n b \<and> k \<le> n \<and> n \<le> length b
      \<and> (case r of WrOk m \<Rightarrow> m = n \<and> n = length b | WrBlocked m \<Rightarrow> m = n \<and> n < length b | WrErr m e \<Rightarrow> m = n)"
      if go: "tcp_write_loop b (k + ?n) reg' (take (k + ?n) b) env = (r, out)" for reg'
    proof -
      obtain n where "out = take n b" "k + ?n \<le> n" "n \<le> length b"
        "case r of WrOk m \<Rightarrow> m = n \<and> n = length b | WrBlocked m \<Rightarrow> m = n \<and> n < length b | WrErr m e \<Rightarrow> m = n"
        using Cons.IH [OF go refl le] by blast
      then show ?thesis by (intro exI [of _ n]) simp
    qed
    have step: "tcp_write_loop b k reg (take k b) (e # env) =
      (case ew_err e of
         None \<Rightarrow> tcp_write_loop b (k + ?n) reg (take (k + ?n) b) env
       | Some WouldBlock \<Rightarrow>
           if \<not> reg then tcp_write_loop b (k + ?n) True (take (k + ?n) b) env
           else if ew_wake e = WDeadline then (WrErr (k + ?n) OpDeadline, take (k + ?n) b)
           else tcp_write_loop b (k + ?n) reg (take (k + ?n) b) env
       | Some err \<Rightarrow> (WrErr (k + ?n) (OpError err), take (k + ?n) b))"
      using False
      by (simp add: tcp_write_loop.simps [of b k reg "take k b" "e # env"] Let_def t split: option.split ep_error.split)
    have stop: "\<exists>n. out = take n b \<and> k \<le> n \<and> n \<le> length b
      \<and> (case r of WrOk m \<Rightarrow> m = n \<and> n = length b | WrBlocked m \<Rightarrow> m = n \<and> n < length b | WrErr m e \<Rightarrow> m = n)"
      if "(WrErr (k + ?n) err, take (k + ?n) b) = (r, out)" for err
      using that le by (intro exI [of _ "k + ?n"]) auto
    from Cons.prems(1) [unfolded Cons.prems(2) step] show ?thesis
      using IH stop by (auto split: option.splits ep_error.splits if_splits)
  qed
qed

lemma tcp_write_loop_returns:
  "\<forall>e \<in> set env. 0 < ew_take e \<and> ew_err e = None \<Longrightarrow> k \<le> length b \<Longrightarrow> length b - k \<le> length env \<Longrightarrow>
    fst (tcp_write_loop b k reg acc env) = WrOk (length b)"
proof (induction env arbitrary: k acc)
  case Nil
  then show ?case by (simp add: tcp_write_loop.simps [of b k])
next
  case (Cons e env)
  then show ?case
    by (cases "k = length b")
      (auto simp: tcp_write_loop.simps [of b k] tcp_write_loop.simps [of b "length b"] Let_def intro!: Cons.IH)
qed

text \<open>Where an error comes from.\<close>

definition write_error :: "ep_write list \<Rightarrow> op_error \<Rightarrow> bool" where
  "write_error env x \<longleftrightarrow>
     (\<exists>e \<in> set env. ew_err e = Some WouldBlock \<and> ew_wake e = WDeadline \<and> x = OpDeadline
        \<or> (\<exists>err. ew_err e = Some err \<and> err \<noteq> WouldBlock \<and> x = OpError err))"

lemma tcp_write_loop_err:
  "tcp_write_loop b k reg acc env = (WrErr m x, out) \<Longrightarrow> write_error env x"
proof (induction env arbitrary: k reg acc)
  case Nil
  then show ?case by (simp add: tcp_write_loop.simps [of b k] split: if_splits)
next
  case (Cons e env)
  have IH: "write_error (e # env) x" if "tcp_write_loop b k' reg' acc' env = (WrErr m x, out)" for k' reg' acc'
    using Cons.IH [OF that] by (auto simp: write_error_def)
  from Cons.prems show ?case
    using IH by (subst (asm) tcp_write_loop.simps)
      (auto simp: Let_def write_error_def split: if_splits option.splits ep_error.splits)
qed

text \<open>
  C24. \<open>TCPConn.Write\<close> accounts for every byte: whatever the endpoint takes and returns, in
  any mixture of short writes and blocking, the endpoint has received exactly the first \<open>n\<close>
  bytes in order, where \<open>n\<close> is the count returned. It returns no error only when all of them
  were taken, it is blocked only when some were not, and every error it returns is the
  endpoint's own or a deadline that passed, before the first call, when nothing is written, or
  while waiting. If every call takes something without an error, the write returns within one
  call for each byte.
\<close>

theorem tcp_write_accounts:
  assumes "tc_Write d b env = (r, out)"
  shows "(\<exists>n. out = take n b \<and> n \<le> length b
      \<and> (case r of WrOk m \<Rightarrow> m = n \<and> n = length b | WrBlocked m \<Rightarrow> m = n \<and> n < length b | WrErr m e \<Rightarrow> m = n))
    \<and> (writeCancel d \<in> dt_closed d \<longrightarrow> r = WrErr 0 OpDeadline \<and> out = [])
    \<and> (writeCancel d \<notin> dt_closed d \<longrightarrow> (\<forall>m x. r = WrErr m x \<longrightarrow> write_error env x))
    \<and> (writeCancel d \<notin> dt_closed d \<longrightarrow> (\<forall>e \<in> set env. 0 < ew_take e \<and> ew_err e = None) \<longrightarrow> length b \<le> length env \<longrightarrow>
        r = WrOk (length b))"
proof (cases "writeCancel d \<in> dt_closed d")
  case True
  with assms show ?thesis by (auto simp: tc_Write_def intro!: exI [of _ 0])
next
  case False
  then have l: "tcp_write_loop b 0 False [] env = (r, out)" using assms by (simp add: tc_Write_def)
  from tcp_write_loop_ok [OF l] have "\<exists>n. out = take n b \<and> n \<le> length b
      \<and> (case r of WrOk m \<Rightarrow> m = n \<and> n = length b | WrBlocked m \<Rightarrow> m = n \<and> n < length b | WrErr m e \<Rightarrow> m = n)" by auto
  moreover have "write_error env x" if "r = WrErr m x" for m x using tcp_write_loop_err l that by blast
  ultimately show ?thesis using False tcp_write_loop_returns [of env 0 b False "[]"] l by simp
qed

theorem tcp_write_accounts_witness:
  "tc_Write dt_init [1, 2, 3] [\<lparr>ew_take = 2, ew_err = None, ew_wake = WNotify\<rparr>,
     \<lparr>ew_take = 0, ew_err = Some WouldBlock, ew_wake = WNotify\<rparr>, \<lparr>ew_take = 5, ew_err = None, ew_wake = WNotify\<rparr>]
   = (WrOk 3, [1, 2, 3]) \<and> [1, 2, 3 :: byte] = take 3 [1, 2, 3]"
proof -
  let ?env = "[\<lparr>ew_take = 2, ew_err = None, ew_wake = WNotify\<rparr>,
     \<lparr>ew_take = 0, ew_err = Some WouldBlock, ew_wake = WNotify\<rparr>, \<lparr>ew_take = 5, ew_err = None, ew_wake = WNotify\<rparr>]"
  have r: "tc_Write dt_init [1, 2, 3] ?env = (WrOk 3, [1, 2, 3])"
    by (simp add: tc_Write_def tcp_write_loop.simps writeCancel_def dt_init_def)
  from tcp_write_accounts [OF r] have "\<exists>n. [1, 2, 3 :: byte] = take n [1, 2, 3] \<and> 3 = n" by auto
  with r show ?thesis by blast
qed

text \<open>
  Dialing closes its endpoint on every error but two: when the context has already ended
  after the endpoint was made, and when binding the local address fails, the endpoint stays
  open and nobody can close it. \<open>ListenTCP\<close> and \<open>DialUDP\<close> leave none open on any error.
\<close>

theorem dial_error_leaks_endpoint:
  "(fst (DialTCPWithBind local_set e) = DialErr \<longrightarrow>
      (snd (DialTCPWithBind local_set e) = EpOpen \<longleftrightarrow> de_new e = None \<and> (de_ctx e \<or> local_set \<and> de_bind e \<noteq> None)))
    \<and> (fst (DialTCPWithBind local_set e) = DialOk \<longrightarrow> snd (DialTCPWithBind local_set e) = EpOpen)
    \<and> (fst (ListenTCP new bnd lst) = DialErr \<longrightarrow> snd (ListenTCP new bnd lst) \<noteq> EpOpen)
    \<and> (fst (DialUDP l r new bnd con) = DialErr \<longrightarrow> snd (DialUDP l r new bnd con) \<noteq> EpOpen)"
  by (auto simp: DialTCPWithBind_def dial_end_def ListenTCP_def DialUDP_def split: option.splits wake.splits if_splits)

theorem dial_error_leaks_endpoint_witness:
  "snd (DialTCPWithBind True \<lparr>de_new = None, de_ctx = False, de_bind = Some (EpError 1), de_connect = None,
      de_wake = None, de_last = None\<rparr>) = EpOpen"
proof -
  let ?e = "\<lparr>de_new = None, de_ctx = False, de_bind = Some (EpError 1), de_connect = None, de_wake = None, de_last = None\<rparr>"
  have "fst (DialTCPWithBind True ?e) = DialErr" by (simp add: DialTCPWithBind_def)
  with dial_error_leaks_endpoint [of True ?e None None None False False None] show ?thesis by simp
qed

lemma drain_wait_supported: "drain_wait env \<noteq> AckUnsupported"
proof -
  have "ack_wait e \<noteq> AckUnsupported" for e by (induction e) auto
  then show ?thesis by (induction env) auto
qed

text \<open>
  C40. \<open>WaitSentDataRecvByPeer\<close> is right unless the sequence numbers wrap: at a reading with
  the send buffer drained, unacknowledged data that does not cross zero keeps it waiting, and
  all data acknowledged ends it; but when the data crosses zero it returns at once although
  the peer has not acknowledged it. An endpoint that lacks what the code looks for is refused.
\<close>

theorem wait_sent_ignores_wrap:
  assumes "ar_used d \<le> 0" "ar_sndnxt a = ar_snduna a + of_nat k" "k < 2 ^ 31"
  shows "(WaitSentDataRecvByPeer pb env = AckUnsupported \<longleftrightarrow>
      \<not> (pb_lock pb \<and> pb_used pb \<and> pb_snduna pb \<and> pb_sndnxt pb \<and> pb_rcvnxt pb))
    \<and> (unat (ar_snduna a) + k < 2 ^ 32 \<longrightarrow> WaitSentDataRecvByPeer pb env \<noteq> AckUnsupported \<longrightarrow>
      WaitSentDataRecvByPeer pb (d # a # env) = (if k = 0 then AckOk (ar_sndnxt a) (ar_rcvnxt a)
        else if ar_ctx a then AckCtx else ack_wait env))
    \<and> (2 ^ 32 \<le> unat (ar_snduna a) + k \<longrightarrow> WaitSentDataRecvByPeer pb env \<noteq> AckUnsupported \<longrightarrow>
      WaitSentDataRecvByPeer pb (d # a # env) = AckOk (ar_sndnxt a) (ar_rcvnxt a))"
proof -
  let ?u = "unat (ar_snduna a)"
  have lt: "?u < 2 ^ 32" using unsigned_less [where ?'a = nat, of "ar_snduna a"] by simp
  have k: "unat (of_nat k :: u32) = k" unfolding unat_of_nat using assms(3) by simp
  have n: "unat (ar_sndnxt a) = (?u + k) mod 2 ^ 32"
    unfolding assms(2) unat_word_ariths k by simp
  have le: "ar_sndnxt a \<le> ar_snduna a \<longleftrightarrow> (?u + k) mod 2 ^ 32 \<le> ?u"
    unfolding word_le_nat_alt n ..
  have a: "(?u + k) mod 2 ^ 32 \<le> ?u \<longleftrightarrow> k = 0" if "?u + k < 2 ^ 32" using that by simp
  have b: "(?u + k) mod 2 ^ 32 \<le> ?u" if "2 ^ 32 \<le> ?u + k"
  proof -
    have "(?u + k) mod 2 ^ 32 = (?u + k - 2 ^ 32) mod 2 ^ 32" using that by (rule le_mod_geq)
    also have "\<dots> = ?u + k - 2 ^ 32" using lt assms(3) by (intro mod_less) simp
    finally show ?thesis using assms(3) by simp
  qed
  show ?thesis using assms(1) a b le drain_wait_supported [of env] by (auto simp: WaitSentDataRecvByPeer_def)
qed

theorem wait_sent_ignores_wrap_witness:
  "WaitSentDataRecvByPeer \<lparr>pb_lock = True, pb_used = True, pb_snduna = True, pb_sndnxt = True, pb_rcvnxt = True\<rparr>
     [\<lparr>ar_used = 0, ar_snduna = 0, ar_sndnxt = 0, ar_rcvnxt = 0, ar_ctx = False\<rparr>,
     \<lparr>ar_used = 0, ar_snduna = 0xfffffff0, ar_sndnxt = 16, ar_rcvnxt = 7, ar_ctx = False\<rparr>] = AckOk 16 7"
proof -
  let ?d = "\<lparr>ar_used = 0, ar_snduna = 0, ar_sndnxt = 0, ar_rcvnxt = 0, ar_ctx = False\<rparr>"
    and ?a = "\<lparr>ar_used = 0, ar_snduna = 0xfffffff0, ar_sndnxt = 16, ar_rcvnxt = 7, ar_ctx = False\<rparr>"
  have h: "ar_used ?d \<le> 0" "ar_sndnxt ?a = ar_snduna ?a + of_nat 32" "(32 :: nat) < 2 ^ 31" "2 ^ 32 \<le> unat (ar_snduna ?a) + 32"
    by simp_all
  from wait_sent_ignores_wrap [OF h(1-3), of "\<lparr>pb_lock = True, pb_used = True, pb_snduna = True, pb_sndnxt = True, pb_rcvnxt = True\<rparr>" "[]"] h(4)
  show ?thesis by simp
qed

end
