(* ===== verification/User_Stack.thy ===== *)
theory User_Stack
  imports Link_Endpoint
begin

text \<open>
  The user-mode TCP stack of \<open>ustack/ustack.go\<close> and its wrappers of \<open>ustack/wrap.go\<close>: a
  gVisor stack over the link of \<open>Link_Endpoint\<close>, and the endpoints through which the
  connections use it. A value of the interface \<open>Ustack\<close> is the chain of wrappers around
  the shared state, so that a method call is a recursion over the chain; a wrapper that does
  not define a method passes the call on.
\<close>

section \<open>The stack\<close>

text \<open>The state behind the pointers: \<open>us_open\<close> is false once gVisor's stack is closed,
  \<open>us_up\<close> lists what went up into the stack, \<open>us_pcap\<close> what each capture file holds.\<close>

record ustack =
  us_addr :: addr
  us_link :: List
  us_open :: bool
  us_up :: "(u32 \<times> bytes) list"
  us_pcap :: "nat \<Rightarrow> bytes list"

datatype Ustack = UBase | NotCloseWrap Ustack | PcapWrap nat Ustack

text \<open>What gVisor answers while the stack is set up: the link as the new NIC leaves it, the
  address, and the two retransmission bounds, whose errors may be marked as to be ignored.\<close>

record new_env =
  nw_nic :: "List \<Rightarrow> List result"
  nw_addr :: "go_error option"
  nw_minRTO :: "(go_error \<times> bool) option"
  nw_maxRTO :: "(go_error \<times> bool) option"

definition rto_error :: "(go_error \<times> bool) option \<Rightarrow> go_error option" where
  "rto_error r = (case r of Some (err, ignore) \<Rightarrow> if \<not> ignore then Some err else None | None \<Rightarrow> None)"

definition NewUstack :: "new_env \<Rightarrow> List \<Rightarrow> addr \<Rightarrow> ustack result" where
  "NewUstack env lk addr =
     (if \<not> addr_is4 addr then Inl ErrOnlyIPv4
      else case nw_nic env lk of Inl err \<Rightarrow> Inl err
      | Inr lk \<Rightarrow>
          (case nw_addr env of Some err \<Rightarrow> Inl err
           | None \<Rightarrow>
               (case rto_error (nw_minRTO env) of Some err \<Rightarrow> Inl err
                | None \<Rightarrow>
                    (case rto_error (nw_maxRTO env) of Some err \<Rightarrow> Inl err
                     | None \<Rightarrow> Inr \<lparr>us_addr = addr, us_link = lk, us_open = True, us_up = [], us_pcap = (\<lambda>_. [])\<rparr>))))"

section \<open>The interface over the wrappers\<close>

text \<open>\<open>Close\<close>: gVisor's stack, then \<open>SynClose\<close> of the link with a second's timeout (in
  nanoseconds). Its readings of the queue and the clock are the environment; \<open>None\<close> is a
  call that has not returned.\<close>

record close_env =
  cz_now :: time
  cz_readings :: "(nat \<times> time) list"
  cz_left :: nat

abbreviation second :: time where "second \<equiv> 1000000000"

fun us_Close :: "Ustack \<Rightarrow> ustack \<Rightarrow> close_env \<Rightarrow> ustack \<times> go_error option option" where
  "us_Close UBase s env =
     (let s = s\<lparr>us_open := False\<rparr>;
          (l, r) = l_SynClose (us_link s) second (cz_now env) (cz_readings env) (cz_left env)
      in (s\<lparr>us_link := l\<rparr>, r))"
| "us_Close (NotCloseWrap u) s env = (s, Some None)"
| "us_Close (PcapWrap f u) s env = us_Close u s env"

definition us_MTU :: "ustack \<Rightarrow> nat" where
  "us_MTU s = l_mtu (us_link s)"

text \<open>The stack's own methods hand over to the link.\<close>

definition base_Inbound :: "'p packet_api \<Rightarrow> ustack \<Rightarrow> 'p \<Rightarrow> ustack" where
  [simp]: "base_Inbound P s ip =
     s\<lparr>us_up := us_up s @ (case l_Inbound (us_link s) (p_bytes P ip) of None \<Rightarrow> [] | Some x \<Rightarrow> [x])\<rparr>"

definition base_OutboundBy :: "gvisor \<Rightarrow> 'p packet_api \<Rightarrow> ustack \<Rightarrow> addrport \<Rightarrow> 'p \<Rightarrow> wait_ev list
    \<Rightarrow> (ustack \<times> 'p out_res) option" where
  [simp]: "base_OutboundBy G P s dst seg evs =
     map_option (\<lambda>(l, r). (s\<lparr>us_link := l\<rparr>, r)) (l_OutboundBy G P (us_link s) dst seg evs)"

definition base_Outbound :: "gvisor \<Rightarrow> 'p packet_api \<Rightarrow> ustack \<Rightarrow> 'p \<Rightarrow> wait_ev list \<Rightarrow> (ustack \<times> 'p out_res) option" where
  [simp]: "base_Outbound G P s seg evs =
     map_option (\<lambda>(l, r). (s\<lparr>us_link := l\<rparr>, r)) (l_Outbound G P (us_link s) seg evs)"

text \<open>\<open>Inbound\<close>; the capture file's error panics.\<close>

fun us_Inbound :: "'p packet_api \<Rightarrow> Ustack \<Rightarrow> ustack \<Rightarrow> 'p \<Rightarrow> (nat \<Rightarrow> go_error option) \<Rightarrow> ustack option" where
  "us_Inbound P UBase s ip perr = Some (base_Inbound P s ip)"
| "us_Inbound P (NotCloseWrap u) s ip perr = us_Inbound P u s ip perr"
| "us_Inbound P (PcapWrap f u) s ip perr =
     (if perr f \<noteq> None then None
      else us_Inbound P u (s\<lparr>us_pcap := (us_pcap s)(f := us_pcap s f @ [p_bytes P ip])\<rparr>) ip perr)"

text \<open>The capture around an outbound call: the head goes back to where it was, so that the
  file gets the packet with its network header, and forward again when the call returns.\<close>

definition pcap_out ::
  "'p packet_api \<Rightarrow> nat \<Rightarrow> nat \<Rightarrow> go_error option \<Rightarrow> ustack \<Rightarrow> 'p \<Rightarrow> ustack \<times> 'p out_res" where
  "pcap_out P f old perr s seg =
     (let new = p_head P seg; seg = p_SetHead P seg old in
      case perr of
        Some err \<Rightarrow> (s, OutErr err)
      | None \<Rightarrow> (s\<lparr>us_pcap := (us_pcap s)(f := us_pcap s f @ [p_bytes P seg])\<rparr>, OutOk (p_SetHead P seg new)))"

fun us_OutboundBy :: "gvisor \<Rightarrow> 'p packet_api \<Rightarrow> Ustack \<Rightarrow> ustack \<Rightarrow> addrport \<Rightarrow> 'p \<Rightarrow> wait_ev list
    \<Rightarrow> (nat \<Rightarrow> go_error option) \<Rightarrow> (ustack \<times> 'p out_res) option" where
  "us_OutboundBy G P UBase s dst seg evs perr = base_OutboundBy G P s dst seg evs"
| "us_OutboundBy G P (NotCloseWrap u) s dst seg evs perr = us_OutboundBy G P u s dst seg evs perr"
| "us_OutboundBy G P (PcapWrap f u) s dst seg evs perr = do {
     (s, r) \<leftarrow> us_OutboundBy G P u s dst seg evs perr;
     Some (case r of OutOk q \<Rightarrow> pcap_out P f (p_head P seg) (perr f) s q | _ \<Rightarrow> (s, r))
   }"

fun us_Outbound :: "gvisor \<Rightarrow> 'p packet_api \<Rightarrow> Ustack \<Rightarrow> ustack \<Rightarrow> 'p \<Rightarrow> wait_ev list
    \<Rightarrow> (nat \<Rightarrow> go_error option) \<Rightarrow> (ustack \<times> 'p out_res) option" where
  "us_Outbound G P UBase s seg evs perr = base_Outbound G P s seg evs"
| "us_Outbound G P (NotCloseWrap u) s seg evs perr = us_Outbound G P u s seg evs perr"
| "us_Outbound G P (PcapWrap f u) s seg evs perr = do {
     (s, r) \<leftarrow> us_Outbound G P u s seg evs perr;
     Some (case r of OutOk q \<Rightarrow> pcap_out P f (p_head P seg) (perr f) s q | _ \<Rightarrow> (s, r))
   }"

text \<open>\<open>WrapPcap\<close>: the opened file or its error; \<open>MustWrapPcap\<close> panics on the error.\<close>

definition WrapPcap :: "Ustack \<Rightarrow> nat result \<Rightarrow> Ustack result" where
  "WrapPcap child file = (case file of Inl err \<Rightarrow> Inl err | Inr f \<Rightarrow> Inr (PcapWrap f child))"

definition MustWrapPcap :: "Ustack \<Rightarrow> nat result \<Rightarrow> Ustack option" where
  "MustWrapPcap child file = (case WrapPcap child file of Inl err \<Rightarrow> None | Inr u \<Rightarrow> Some u)"

section \<open>Endpoints\<close>

text \<open>\<open>ipstack\<close> of rawsock is a parameter: made for two addresses, it puts an IP header in
  front of an inbound segment.\<close>

record 'p LinkEndpoint =
  le_stack :: Ustack
  le_localPort :: u16
  le_remoteAddr :: addrport
  le_attach :: "'p \<Rightarrow> 'p"

definition NewLinkEndpoint :: "(addr \<Rightarrow> addr \<Rightarrow> ('p \<Rightarrow> 'p) result) \<Rightarrow> ustack \<Rightarrow> Ustack \<Rightarrow> u16 \<Rightarrow> addrport
    \<Rightarrow> 'p LinkEndpoint result" where
  "NewLinkEndpoint ipstack s u localPort remote =
     (case ipstack (us_addr s) (ap_addr remote) of Inl err \<Rightarrow> Inl err
      | Inr att \<Rightarrow> Inr \<lparr>le_stack = u, le_localPort = localPort, le_remoteAddr = remote, le_attach = att\<rparr>)"

text \<open>The method \<open>LinkEndpoint\<close> hands out an endpoint whose \<open>Close\<close> does nothing.\<close>

fun us_LinkEndpoint :: "(addr \<Rightarrow> addr \<Rightarrow> ('p \<Rightarrow> 'p) result) \<Rightarrow> ustack \<Rightarrow> Ustack \<Rightarrow> u16 \<Rightarrow> addrport
    \<Rightarrow> 'p LinkEndpoint result" where
  "us_LinkEndpoint ipstack s UBase localPort remote =
     NewLinkEndpoint ipstack s (NotCloseWrap UBase) localPort remote"
| "us_LinkEndpoint ipstack s (NotCloseWrap u) localPort remote = us_LinkEndpoint ipstack s u localPort remote"
| "us_LinkEndpoint ipstack s (PcapWrap f u) localPort remote =
     NewLinkEndpoint ipstack s (NotCloseWrap (PcapWrap f u)) localPort remote"

definition le_Close :: "'p LinkEndpoint \<Rightarrow> ustack \<Rightarrow> close_env \<Rightarrow> ustack \<times> go_error option option" where
  "le_Close e s env = us_Close (le_stack e) s env"

definition le_LocalAddr :: "'p LinkEndpoint \<Rightarrow> ustack \<Rightarrow> addrport" where
  "le_LocalAddr e s = AddrPort (us_addr s) (le_localPort e)"

definition le_Inbound :: "'p packet_api \<Rightarrow> 'p LinkEndpoint \<Rightarrow> ustack \<Rightarrow> 'p \<Rightarrow> (nat \<Rightarrow> go_error option) \<Rightarrow> ustack option" where
  "le_Inbound P e s seg perr = us_Inbound P (le_stack e) s (le_attach e seg) perr"

definition le_Outbound :: "gvisor \<Rightarrow> 'p packet_api \<Rightarrow> 'p LinkEndpoint \<Rightarrow> ustack \<Rightarrow> 'p \<Rightarrow> wait_ev list
    \<Rightarrow> (nat \<Rightarrow> go_error option) \<Rightarrow> (ustack \<times> 'p out_res) option" where
  "le_Outbound G P e s seg evs perr = us_OutboundBy G P (le_stack e) s (le_remoteAddr e) seg evs perr"
section \<open>One call at an endpoint\<close>

text \<open>The transport segment of a queued packet, and what the link relies on: every queued
  packet can be matched and holds its network header.\<close>

definition pk_seg :: "pkb \<Rightarrow> bytes" where
  "pk_seg pk = drop (length (pk_nhdr pk)) (pk_data pk)"

definition pk_framed :: "pkb \<Rightarrow> bool" where
  "pk_framed pk = (length (pk_nhdr pk) \<le> length (pk_data pk))"

definition queue_ok :: "gvisor \<Rightarrow> addrport \<Rightarrow> pkb list \<Rightarrow> bool" where
  "queue_ok G dst es = (\<forall>e \<in> set es. pk_match G (Some e) dst \<noteq> None \<and> pk_framed e)"

lemma out_segment:
  assumes "packet_laws P" "pk_framed pk"
  shows "p_bytes P (let seg = p_Append P (p_SetData P seg 0) (pk_data pk)
      in p_SetHead P seg (p_head P seg + length (pk_nhdr pk))) = pk_seg pk"
proof -
  define q where "q = p_Append P (p_SetData P seg 0) (pk_data pk)"
  have "p_bytes P (p_SetData P seg 0) = []" using packet_lawsD(4) [OF assms(1), of 0 seg] by simp
  then have q: "p_bytes P q = pk_data pk" unfolding q_def packet_lawsD(10) [OF assms(1)] by simp
  then have "p_bytes P (p_SetHead P q (p_head P q + length (pk_nhdr pk))) = pk_seg pk"
    using packet_lawsD(3) [OF assms(1), of "length (pk_nhdr pk)" q] assms(2) by (simp add: pk_framed_def pk_seg_def)
  then show ?thesis by (simp add: Let_def flip: q_def)
qed

lemma queue_ok_mono: "queue_ok G dst es \<Longrightarrow> set es' \<subseteq> set es \<Longrightarrow> queue_ok G dst es'"
  by (auto simp: queue_ok_def)

definition out_step :: "gvisor \<Rightarrow> 'p packet_api \<Rightarrow> addrport \<Rightarrow> List \<Rightarrow> List \<Rightarrow> 'p out_res \<Rightarrow> bool" where
  "out_step G P dst l l' r =
     (case r of
        OutBlocked \<Rightarrow> l' = l \<and> (\<forall>e \<in> set (ps_items (l_list l)). pk_match G (Some e) dst = Some False)
      | OutErr err \<Rightarrow> False
      | OutOk q \<Rightarrow> \<exists>xs e ys. ps_items (l_list l) = xs @ e # ys \<and> ps_items (l_list l') = xs @ ys
          \<and> pk_match G (Some e) dst = Some True \<and> (\<forall>x \<in> set xs. pk_match G (Some x) dst = Some False)
          \<and> p_bytes P q = pk_seg e \<and> (\<forall>i. balance (l_list l') i = balance (l_list l) i))"

lemma l_OutboundBy_step:
  assumes P: "packet_laws P" and dst: "ap_valid dst" and q: "queue_ok G dst (ps_items (l_list l))"
  shows "\<exists>l' r. l_OutboundBy G P l dst seg [] = Some (l', r) \<and> out_step G P dst l l' r"
proof -
  have m: "\<forall>e \<in> set (ps_items (l_list l)). pk_match G (Some e) dst \<noteq> None" using q by (simp add: queue_ok_def)
  obtain s' r where get: "ps_getBy G (l_list l) dst = Some (s', r)"
    and r: "case r of None \<Rightarrow> s' = l_list l \<and> (\<forall>e \<in> set (ps_items (l_list l)). pk_match G (Some e) dst = Some False)
       | Some e \<Rightarrow> \<exists>xs ys. ps_items (l_list l) = xs @ e # ys \<and> s' = (l_list l)\<lparr>ps_items := xs @ ys\<rparr>
           \<and> pk_match G (Some e) dst = Some True \<and> (\<forall>x \<in> set xs. pk_match G (Some x) dst = Some False)"
    using ps_getBy_first [OF m] by blast
  show ?thesis
  proof (cases r)
    case None
    with get r dst show ?thesis
      by (simp add: l_OutboundBy_def l_outboundBy_def ps_GetBy_def out_step_def)
  next
    case (Some e)
    with r obtain xs ys where e: "ps_items (l_list l) = xs @ e # ys" "s' = (l_list l)\<lparr>ps_items := xs @ ys\<rparr>"
      "pk_match G (Some e) dst = Some True" "\<forall>x \<in> set xs. pk_match G (Some x) dst = Some False" by auto
    have "pk_framed e" using q e(1) by (simp add: queue_ok_def)
    note seg = out_segment [OF P this, of seg]
    have "balance (s'\<lparr>ps_refs := pk_ref (-1) e (ps_refs s')\<rparr>) i = balance (l_list l) i" for i
      using e(1,2) by (simp add: balance_def held_def pk_ref_def)
    with get Some e dst seg show ?thesis
      by (auto simp: l_OutboundBy_def l_outboundBy_def ps_GetBy_def out_step_def Let_def)
  qed
qed

text \<open>Two IPv4 destinations that match one packet are the same.\<close>

lemma addr4_ext: "addr_is4 a \<Longrightarrow> addr_is4 b \<Longrightarrow> addr_as4 a = addr_as4 b \<Longrightarrow> a = b"
  by (cases a; cases b) auto

lemma addr16_ext: "addr_is4 a \<Longrightarrow> addr_is4 b \<Longrightarrow> addr_as16 a = addr_as16 b \<Longrightarrow> a = b"
  by (cases a; cases b) auto

lemma pk_match_unique:
  assumes "addr_is4 (ap_addr a)" "addr_is4 (ap_addr b)"
    "pk_match G (Some e) a = Some True" "pk_match G (Some e) b = Some True"
  shows "a = b"
proof -
  have "ap_port a = ap_port b" using assms
    by (auto simp: pk_match_def bind_eq_Some_conv split: if_splits)
  moreover have "ap_addr a = ap_addr b" using assms
    by (auto simp: pk_match_def bind_eq_Some_conv split: if_splits intro: addr4_ext addr16_ext)
  ultimately show ?thesis by (cases a; cases b) simp
qed

section \<open>Several endpoints over one stack\<close>

text \<open>Calls of \<open>Outbound\<close> at endpoints of one stack, in any order, none of them waiting.\<close>

fun ep_calls :: "gvisor \<Rightarrow> 'p packet_api \<Rightarrow> ustack \<Rightarrow> ('p LinkEndpoint \<times> 'p) list
    \<Rightarrow> (ustack \<times> (addrport \<times> 'p out_res) list) option" where
  "ep_calls G P s [] = Some (s, [])"
| "ep_calls G P s ((e, seg) # es) = do {
     (s, r) \<leftarrow> le_Outbound G P e s seg [] (\<lambda>_. None);
     (s, rs) \<leftarrow> ep_calls G P s es;
     Some (s, (le_remoteAddr e, r) # rs)
   }"

fun got :: "'p packet_api \<Rightarrow> addrport \<Rightarrow> (addrport \<times> 'p out_res) list \<Rightarrow> bytes list" where
  "got P d [] = []"
| "got P d ((a, OutOk q) # rs) = (if a = d then [p_bytes P q] else []) @ got P d rs"
| "got P d ((a, _) # rs) = got P d rs"

definition pk_for :: "gvisor \<Rightarrow> addrport \<Rightarrow> ustack \<Rightarrow> pkb list" where
  "pk_for G d s = filter (\<lambda>e. pk_match G (Some e) d = Some True) (ps_items (l_list (us_link s)))"

lemma out_step_for:
  assumes step: "out_step G P a (us_link s) l' r" and a: "addr_is4 (ap_addr a)" and d: "addr_is4 (ap_addr d)"
  shows "map pk_seg (pk_for G d s) = got P d [(a, r)] @ map pk_seg (pk_for G d (s\<lparr>us_link := l'\<rparr>))"
proof (cases r)
  case (OutOk q)
  then obtain xs e ys where e: "ps_items (l_list (us_link s)) = xs @ e # ys" "ps_items (l_list l') = xs @ ys"
    "pk_match G (Some e) a = Some True" "\<forall>x \<in> set xs. pk_match G (Some x) a = Some False" "p_bytes P q = pk_seg e"
    using step by (auto simp: out_step_def)
  show ?thesis
  proof (cases "a = d")
    case True
    with e(4) have "filter (\<lambda>e. pk_match G (Some e) d = Some True) xs = []" by (simp add: filter_empty_conv)
    with True OutOk e show ?thesis by (simp add: pk_for_def)
  next
    case False
    then have "pk_match G (Some e) d \<noteq> Some True" using pk_match_unique [OF a d e(3)] by auto
    with False OutOk e show ?thesis by (simp add: pk_for_def)
  qed
qed (use step in \<open>simp_all add: out_step_def pk_for_def\<close>)

lemma out_step_sub: "out_step G P a l l' r \<Longrightarrow>
    set (ps_items (l_list l')) \<subseteq> set (ps_items (l_list l)) \<and> (\<forall>i. balance (l_list l') i = balance (l_list l) i)"
  by (auto simp: out_step_def split: out_res.splits)

lemma ep_calls_ok:
  assumes P: "packet_laws P"
  shows "\<forall>(e, seg) \<in> set es. le_stack e = NotCloseWrap UBase \<and> addr_is4 (ap_addr (le_remoteAddr e))
      \<and> queue_ok G (le_remoteAddr e) (ps_items (l_list (us_link s))) \<Longrightarrow>
    \<exists>s' rs. ep_calls G P s es = Some (s', rs)
      \<and> (\<forall>d. addr_is4 (ap_addr d) \<longrightarrow> map pk_seg (pk_for G d s) = got P d rs @ map pk_seg (pk_for G d s'))
      \<and> (\<forall>i. balance (l_list (us_link s')) i = balance (l_list (us_link s)) i)"
proof (induction es arbitrary: s)
  case (Cons c es)
  obtain e seg where c: "c = (e, seg)" by (cases c)
  let ?a = "le_remoteAddr e"
  have e: "le_stack e = NotCloseWrap UBase" "addr_is4 (ap_addr ?a)" "queue_ok G ?a (ps_items (l_list (us_link s)))"
    using Cons.prems c by auto
  have "ap_valid ?a" using e(2) by (simp add: ap_valid_def)
  then obtain l' r where r: "l_OutboundBy G P (us_link s) ?a seg [] = Some (l', r)" "out_step G P ?a (us_link s) l' r"
    using l_OutboundBy_step [OF P _ e(3)] by blast
  let ?s = "s\<lparr>us_link := l'\<rparr>"
  note sub = out_step_sub [OF r(2)]
  have "\<forall>(e, seg) \<in> set es. le_stack e = NotCloseWrap UBase \<and> addr_is4 (ap_addr (le_remoteAddr e))
      \<and> queue_ok G (le_remoteAddr e) (ps_items (l_list (us_link ?s)))"
  proof (clarify, intro conjI)
    fix f seg' assume f: "(f, seg') \<in> set es"
    then have "(f, seg') \<in> set (c # es)" by simp
    with Cons.prems have g: "le_stack f = NotCloseWrap UBase" "addr_is4 (ap_addr (le_remoteAddr f))"
      "queue_ok G (le_remoteAddr f) (ps_items (l_list (us_link s)))" by blast+
    show "le_stack f = NotCloseWrap UBase" "addr_is4 (ap_addr (le_remoteAddr f))" by (rule g)+
    show "queue_ok G (le_remoteAddr f) (ps_items (l_list (us_link ?s)))"
      by (rule queue_ok_mono [OF g(3)]) (simp add: sub)
  qed
  from Cons.IH [OF this] obtain s' rs where rs: "ep_calls G P ?s es = Some (s', rs)"
    "\<forall>d. addr_is4 (ap_addr d) \<longrightarrow> map pk_seg (pk_for G d ?s) = got P d rs @ map pk_seg (pk_for G d s')"
    "\<forall>i. balance (l_list (us_link s')) i = balance (l_list (us_link ?s)) i" by blast
  have "ep_calls G P s (c # es) = Some (s', (?a, r) # rs)"
    using rs(1) r(1) e(1) c by (simp add: le_Outbound_def)
  moreover have "got P d ((?a, r) # rs) = got P d [(?a, r)] @ got P d rs" for d by (cases r) simp_all
  ultimately show ?case using rs(2,3) sub out_step_for [OF r(2) e(2)]
    by (intro exI [of _ s'] exI [of _ "(?a, r) # rs"]) simp
qed simp
section \<open>The capture wrapper\<close>

text \<open>The packets a call may meet: in the queue now or at one of its wake-ups.\<close>

definition pk_met :: "List \<Rightarrow> wait_ev list \<Rightarrow> pkb \<Rightarrow> bool" where
  "pk_met l evs pk \<longleftrightarrow> pk \<in> set (ps_items (l_list l)) \<or> (\<exists>s. Woken s \<in> set evs \<and> pk \<in> set (ps_items s))"

lemma ps_getBy_loop_mem: "ps_getBy_loop G s dst i es = Some (s', Some e) \<Longrightarrow> e \<in> set es"
  by (induction es arbitrary: i) (auto simp: bind_eq_Some_conv Let_def split: if_splits prod.splits)

lemma ps_getBy_mem: "ps_getBy G s dst = Some (s', Some e) \<Longrightarrow> e \<in> set (ps_items s)"
  unfolding ps_getBy_def by (rule ps_getBy_loop_mem)

lemma ps_get_mem: "ps_get s = (s', Some e) \<Longrightarrow> e \<in> set (ps_items s)"
  by (auto simp: ps_get_eq split: list.splits)

lemma ps_wait_mem:
  assumes "\<And>s s' e. tk s = Some (s', Some e) \<Longrightarrow> e \<in> set (ps_items s)"
  shows "ps_wait tk s evs = Some (Returned s' (Some e)) \<Longrightarrow> \<exists>s. Woken s \<in> set evs \<and> e \<in> set (ps_items s)"
proof (induction evs arbitrary: s)
  case (Cons ev evs)
  show ?case
  proof (cases ev)
    case (Woken s1)
    with Cons.prems obtain s2 r where r: "tk s1 = Some (s2, r)" by (auto simp: bind_eq_Some_conv)
    show ?thesis
    proof (cases r)
      case None
      with Cons.prems Woken r have "ps_wait tk s2 evs = Some (Returned s' (Some e))" by simp
      from Cons.IH [OF this] show ?thesis by auto
    next
      case (Some e')
      with Cons.prems Woken r have "e' = e" by simp
      with Some r have "e \<in> set (ps_items s1)" using assms by simp
      with Woken show ?thesis by auto
    qed
  qed (use Cons.prems in simp)
qed simp

lemma ps_Get_mem: "ps_Get (l_list l) evs = Some (Returned s (Some e)) \<Longrightarrow> pk_met l evs e"
  unfolding ps_Get_def pk_met_def
  by (auto simp: Let_def split: if_splits prod.splits dest: ps_get_mem
      dest!: ps_wait_mem [rotated] ps_get_mem)

lemma ps_GetBy_mem: "ps_GetBy G (l_list l) dst evs = Some (Returned s (Some e)) \<Longrightarrow> pk_met l evs e"
  unfolding ps_GetBy_def pk_met_def
  by (auto simp: bind_eq_Some_conv split: if_splits dest: ps_getBy_mem
      dest!: ps_wait_mem [rotated] ps_getBy_mem)

lemma l_OutboundBy_taken:
  assumes "l_OutboundBy G P l dst seg evs = Some (l', OutOk q)"
  shows "\<exists>pk. pk_met l evs pk \<and> q = (let p = p_Append P (p_SetData P seg 0) (pk_data pk)
      in p_SetHead P p (p_head P p + length (pk_nhdr pk)))"
proof -
  obtain w where w: "(if ap_valid dst then ps_GetBy G (l_list l) dst evs else ps_Get (l_list l) evs) = Some w"
    and r: "(case w of Blocked s \<Rightarrow> Some (l\<lparr>l_list := s\<rparr>, OutBlocked)
     | Returned s None \<Rightarrow> Some (l\<lparr>l_list := s\<rparr>, OutErr ErrCanceled)
     | Returned s (Some pk) \<Rightarrow>
         (let seg = p_Append P (p_SetData P seg 0) (pk_data pk);
              seg = p_SetHead P seg (p_head P seg + length (pk_nhdr pk))
          in Some (l\<lparr>l_list := s\<lparr>ps_refs := pk_ref (-1) pk (ps_refs s)\<rparr>\<rparr>, OutOk seg))) = Some (l', OutOk q)"
    using assms unfolding l_OutboundBy_def l_outboundBy_def by (rule bind_eq_Some_conv [THEN iffD1, THEN exE]) blast
  from r obtain s pk where "w = Returned s (Some pk)" "q = (let p = p_Append P (p_SetData P seg 0) (pk_data pk)
      in p_SetHead P p (p_head P p + length (pk_nhdr pk)))"
    by (auto simp: Let_def split: wait_out.splits option.splits)
  with w show ?thesis by (auto split: if_splits dest: ps_Get_mem ps_GetBy_mem)
qed

text \<open>The capture of one packet.\<close>

lemma pcap_out_ok:
  assumes P: "packet_laws P" "head_laws P" and pk: "pk_framed pk"
    and q: "q = (let p = p_Append P (p_SetData P seg 0) (pk_data pk)
      in p_SetHead P p (p_head P p + length (pk_nhdr pk)))"
  shows "\<exists>q'. pcap_out P f (p_head P seg) None s q
      = (s\<lparr>us_pcap := (us_pcap s)(f := us_pcap s f @ [pk_data pk])\<rparr>, OutOk q')
    \<and> p_bytes P q' = p_bytes P q \<and> p_head P q' = p_head P q"
proof -
  let ?n = "length (pk_nhdr pk)"
  define p where "p = p_Append P (p_SetData P seg 0) (pk_data pk)"
  have "p_bytes P (p_SetData P seg 0) = []" using packet_lawsD(4) [OF P(1), of 0 seg] by simp
  then have b: "p_bytes P p = pk_data pk" unfolding p_def packet_lawsD(10) [OF P(1)] by simp
  have h: "p_head P p = p_head P seg" using P(2) by (simp add: p_def head_laws_def)
  have n: "?n \<le> length (p_bytes P p)" using pk b by (simp add: pk_framed_def)
  have q: "q = p_SetHead P p (p_head P p + ?n)" using q by (simp add: p_def Let_def)
  define t where "t = p_SetHead P q (p_head P seg)"
  have t': "t = p_SetHead P (p_SetHead P p (p_head P p + ?n)) (p_head P p)" unfolding t_def q h ..
  have t: "p_bytes P t = p_bytes P p" "p_head P t = p_head P p"
    unfolding t' using P(2) n unfolding head_laws_def by blast+
  have fwd: "k \<le> length (p_bytes P x) \<Longrightarrow> p_bytes P (p_SetHead P x (p_head P x + k)) = drop k (p_bytes P x)
      \<and> p_head P (p_SetHead P x (p_head P x + k)) = p_head P x + k" for x k
    using P(1) unfolding packet_laws_def by blast
  have hq: "p_head P q = p_head P t + ?n" and bq: "p_bytes P q = drop ?n (p_bytes P t)"
    using fwd [OF n] t by (simp_all add: q)
  have "p_bytes P (p_SetHead P t (p_head P q)) = p_bytes P q \<and> p_head P (p_SetHead P t (p_head P q)) = p_head P q"
    unfolding hq bq by (rule fwd) (simp add: n t)
  with b t show ?thesis by (simp add: pcap_out_def Let_def flip: t_def)
qed

end
