(* ===== verification/Conn_Listener.thy ===== *)
theory Conn_Listener
  imports User_Stack Conn_Data Gonet_Conn
begin

text \<open>
  The two ends of a connection as they are made and closed: \<open>NewConn\<close> and \<open>close\<close> of
  \<open>conn/conn.go\<close> over a stack of the connection's own, and the listener of
  \<open>conn/listen.go\<close>, whose connections share one stack. The datagram sockets, gVisor's
  answers and the capture file are the environment.
\<close>

section \<open>A connection and its endpoint\<close>

text \<open>\<open>close\<close> of a connection with the effect of the endpoint's \<open>Close\<close> on the stack; the
  last component says whether the call has returned.\<close>

definition cn_close :: "conn \<Rightarrow> 'p LinkEndpoint \<Rightarrow> ustack \<Rightarrow> close_env \<Rightarrow> conn \<times> ustack \<times> bool" where
  "cn_close c ep s env =
     (if c_closed c then (c, s, True)
      else
        (let c = c\<lparr>c_closed := True\<rparr>;
             c = (if c_builtin c then c_emit EvCloseBuiltin c else c);
             c = c_emit EvCloseEp c;
             (s, r) = le_Close ep s env in
         if r = None then (c, s, False) else (c_emit EvCloseConn c, s, True)))"

text \<open>The stack of either end: made, and wrapped when a capture file is configured. \<open>None\<close>
  is a panic.\<close>

definition wrap_stack :: "nat result option \<Rightarrow> Ustack option" where
  "wrap_stack pcap = (case pcap of None \<Rightarrow> Some UBase | Some file \<Rightarrow> MustWrapPcap UBase file)"

text \<open>\<open>NewConn\<close>: besides the result, the stack that exists afterwards.\<close>

definition NewConn ::
  "(nat \<Rightarrow> int) \<Rightarrow> new_env \<Rightarrow> nat result option \<Rightarrow> (addr \<Rightarrow> addr \<Rightarrow> ('p \<Rightarrow> 'p) result) \<Rightarrow> addrport \<Rightarrow> addrport
    \<Rightarrow> (ustack option \<times> (conn \<times> 'p LinkEndpoint) result) option" where
  "NewConn refs env pcap ipstack laddr raddr =
     (case NewUstack env (NewList refs 8 1320) (ap_addr laddr) of
        Inl err \<Rightarrow> Some (None, Inl err)
      | Inr s \<Rightarrow> do {
          u \<leftarrow> wrap_stack pcap;
          case NewLinkEndpoint ipstack s u (ap_port laddr) raddr of
            Inl err \<Rightarrow> Some (Some s, Inl err)
          | Inr ep \<Rightarrow> Some (Some s, Inr (newConn Client (ap_port laddr) (ap_port raddr), ep))
        })"

section \<open>The listener\<close>

datatype ln_ev = LnBuiltin | LnStack | LnDgram

text \<open>\<open>ln_stack\<close> is the interface value with the state behind it, \<open>ln_events\<close> what
  \<open>close\<close> has closed, in order.\<close>

record conn_listener =
  ln_laddr :: addrport
  ln_stack :: "(Ustack \<times> ustack) option"
  ln_builtin :: bool
  ln_closed :: bool
  ln_events :: "ln_ev list"

definition ln_emit :: "ln_ev \<Rightarrow> conn_listener \<Rightarrow> conn_listener" where
  "ln_emit e l = l\<lparr>ln_events := ln_events l @ [e]\<rparr>"

definition ln_close :: "conn_listener \<Rightarrow> close_env \<Rightarrow> conn_listener \<times> bool" where
  "ln_close l env =
     (if ln_closed l then (l, True)
      else
        (let l = l\<lparr>ln_closed := True\<rparr>;
             l = (if ln_builtin l then ln_emit LnBuiltin l else l) in
         case ln_stack l of
           None \<Rightarrow> (ln_emit LnDgram l, True)
         | Some (u, s) \<Rightarrow>
             (let (s, r) = us_Close u s env;
                  l = ln_emit LnStack (l\<lparr>ln_stack := Some (u, s)\<rparr>) in
              if r = None then (l, False) else (ln_emit LnDgram l, True))))"

record listen_env =
  lv_new :: new_env
  lv_pcap :: "nat result option"
  lv_ep :: "ep_error option"
  lv_bind :: "ep_error option"
  lv_listen :: "ep_error option"
  lv_close :: close_env

datatype listen_out = ListenOk | ListenErr | ListenBlocked

definition listen_fail :: "conn_listener \<Rightarrow> listen_env \<Rightarrow> conn_listener \<times> listen_out" where
  "listen_fail l env = (let (l, ret) = ln_close l (lv_close env) in (l, if ret then ListenErr else ListenBlocked))"

definition NewListen :: "(nat \<Rightarrow> int) \<Rightarrow> listen_env \<Rightarrow> addrport option \<Rightarrow> (conn_listener \<times> listen_out) option" where
  "NewListen refs env addr = do {
     laddr \<leftarrow> addr;
     let l = \<lparr>ln_laddr = laddr, ln_stack = None, ln_builtin = False, ln_closed = False, ln_events = []\<rparr>;
     case NewUstack (lv_new env) (NewList refs 128 512) (ap_addr laddr) of
       Inl err \<Rightarrow> Some (listen_fail l env)
     | Inr s \<Rightarrow> do {
         u \<leftarrow> wrap_stack (lv_pcap env);
         let l = l\<lparr>ln_stack := Some (u, s)\<rparr>;
         if fst (ListenTCP (lv_ep env) (lv_bind env) (lv_listen env)) = DialOk
         then Some (l\<lparr>ln_builtin := True\<rparr>, ListenOk)
         else Some (listen_fail l env)
       }
   }"

text \<open>\<open>Accept\<close>: the datagram listener's answer, a connection's remote address or an error.
  The result says too whether an accepted datagram connection is open afterwards.\<close>

definition ln_Accept ::
  "(addr \<Rightarrow> addr \<Rightarrow> ('p \<Rightarrow> 'p) result) \<Rightarrow> conn_listener \<Rightarrow> addrport option result
    \<Rightarrow> (bool \<times> (conn \<times> 'p LinkEndpoint) result) option" where
  "ln_Accept ipstack l acc =
     (case acc of
        Inl err \<Rightarrow> Some (False, Inl err)
      | Inr r \<Rightarrow> do {
          raddr \<leftarrow> r;
          (u, s) \<leftarrow> ln_stack l;
          case us_LinkEndpoint ipstack s u (ap_port (ln_laddr l)) raddr of
            Inl err \<Rightarrow> Some (True, Inl err)
          | Inr ep \<Rightarrow> Some (True, Inr (newConn Server (ap_port (ln_laddr l)) (ap_port raddr), ep))
        })"

definition ln_Close :: "conn_listener \<Rightarrow> close_env \<Rightarrow> conn_listener \<times> bool" where
  "ln_Close l env = ln_close l env"

text \<open>\<open>serverFactory\<close>: the built-in connection comes from the shared listener, by remote.\<close>

definition ln_serverFactory :: "(addrport \<Rightarrow> ep_error + 'e) \<Rightarrow> (addrport \<Rightarrow> ((ep_error + 'e) \<times> wake) list)
    \<Rightarrow> addrport \<Rightarrow> 'e accepted" where
  "ln_serverFactory first env remote = tl_AcceptBy first env remote"

section \<open>Lemmas\<close>

lemma wrap_stack_cases: "wrap_stack pcap = Some u \<Longrightarrow> u = UBase \<or> (\<exists>f. u = PcapWrap f UBase)"
  by (auto simp: wrap_stack_def MustWrapPcap_def WrapPcap_def split: option.splits sum.splits)

lemma le_stack_new: "NewLinkEndpoint ipstack s u p r = Inr ep \<Longrightarrow> le_stack ep = u \<and> le_remoteAddr ep = r"
  by (auto simp: NewLinkEndpoint_def split: sum.splits)

lemma us_LinkEndpoint_stack:
  "us_LinkEndpoint ipstack s u p r = Inr ep \<Longrightarrow> (\<exists>v. le_stack ep = NotCloseWrap v) \<and> le_remoteAddr ep = r"
  by (induction u) (auto dest: le_stack_new)

lemma us_Close_wrapped:
  "u = UBase \<or> (\<exists>f. u = PcapWrap f UBase) \<Longrightarrow> us_Close u s env = us_Close UBase s env"
  by auto

lemma NewUstack_ok: "NewUstack env lk a = Inr s \<Longrightarrow>
    us_open s \<and> us_addr s = a \<and> addr_is4 a \<and> nw_nic env lk = Inr (us_link s)"
  by (auto simp: NewUstack_def split: if_splits sum.splits option.splits)

lemma cn_close_returns: "cn_close c ep s env = (c', s', True) \<Longrightarrow> c' = c_close c"
  by (auto simp: cn_close_def c_close_def Let_def split: if_splits prod.splits)

lemma cn_close_kept:
  assumes "le_stack ep = NotCloseWrap u"
  shows "cn_close c ep s env = (c_close c, s, True)"
  using assms by (simp add: cn_close_def c_close_def le_Close_def Let_def)

text \<open>\<open>Close\<close> of a stack: it returns once a reading after the timeout finds the link's
  queue empty, at once when the link is closed already.\<close>

definition drained :: "close_env \<Rightarrow> bool" where
  "drained env \<longleftrightarrow> (\<exists>k < length (cz_readings env). fst (cz_readings env ! k) = 0
     \<and> cz_now env + second \<le> snd (cz_readings env ! k))"

lemma synclose_loop_iff: "synclose_loop dead rs \<noteq> None \<longleftrightarrow> (\<exists>k < length rs. fst (rs ! k) = 0 \<and> dead \<le> snd (rs ! k))"
proof (induction rs)
  case (Cons x rs)
  obtain sz now where x: "x = (sz, now)" by (cases x)
  show ?case
  proof (cases "sz > 0 \<or> now < dead")
    case True
    with x have "synclose_loop dead (x # rs) \<noteq> None \<longleftrightarrow> synclose_loop dead rs \<noteq> None" by simp
    also have "\<dots> \<longleftrightarrow> (\<exists>k < length rs. fst (rs ! k) = 0 \<and> dead \<le> snd (rs ! k))" by (rule Cons.IH)
    also have "\<dots> \<longleftrightarrow> (\<exists>k < length (x # rs). fst ((x # rs) ! k) = 0 \<and> dead \<le> snd ((x # rs) ! k))"
      using True x by (subst Ex_less_Suc2 [of "length rs", folded length_Cons [of x rs]]) auto
    finally show ?thesis .
  next
    case False
    with x show ?thesis by auto
  qed
qed simp

lemma us_Close_open:
  assumes "\<not> l_closed (us_link s)"
  shows "\<exists>s' r. us_Close UBase s env = (s', r) \<and> (r \<noteq> None) = drained env \<and> \<not> us_open s'
    \<and> l_closed (us_link s') \<and> l_list (us_link s') = l_list (us_link s)"
  using assms synclose_loop_iff [of "cz_now env + second" "cz_readings env"]
  by (auto simp: l_SynClose_def drained_def Let_def split: option.splits)

lemma newlisten_ok:
  assumes "NewListen refs env addr = Some (l, ListenOk)"
  shows "\<exists>u s. ln_stack l = Some (u, s) \<and> (u = UBase \<or> (\<exists>f. u = PcapWrap f UBase)) \<and> us_open s
    \<and> ln_builtin l \<and> \<not> ln_closed l \<and> ln_events l = [] \<and> nw_nic (lv_new env) (NewList refs 128 512) = Inr (us_link s)"
proof -
  have no: "listen_fail l' env = (l, ListenOk) \<Longrightarrow> False" for l'
    by (auto simp: listen_fail_def split: prod.splits if_splits)
  obtain laddr where a: "addr = Some laddr" using assms by (auto simp: NewListen_def bind_eq_Some_conv)
  obtain s where s: "NewUstack (lv_new env) (NewList refs 128 512) (ap_addr laddr) = Inr s"
    using assms a no by (auto simp: NewListen_def Let_def split: sum.splits)
  obtain u where u: "wrap_stack (lv_pcap env) = Some u"
    using assms a s by (auto simp: NewListen_def Let_def bind_eq_Some_conv)
  have "l = \<lparr>ln_laddr = laddr, ln_stack = Some (u, s), ln_builtin = True, ln_closed = False, ln_events = []\<rparr>"
    using assms a s u no by (auto simp: NewListen_def Let_def split: if_splits)
  with NewUstack_ok [OF s] wrap_stack_cases [OF u] show ?thesis by simp
qed

lemma accept_ok:
  assumes "ln_Accept ipstack l acc = Some (b, Inr (c, ep))"
  shows "\<exists>v. le_stack ep = NotCloseWrap v"
proof -
  obtain r where r: "acc = Inr (Some r)" using assms by (auto simp: ln_Accept_def bind_eq_Some_conv split: sum.splits)
  obtain u s where s: "ln_stack l = Some (u, s)" using assms r by (auto simp: ln_Accept_def bind_eq_Some_conv)
  then have "us_LinkEndpoint ipstack s u (ap_port (ln_laddr l)) r = Inr ep"
    using assms r by (cases "us_LinkEndpoint ipstack s u (ap_port (ln_laddr l)) r") (auto simp: ln_Accept_def)
  then show ?thesis using us_LinkEndpoint_stack by blast
qed

lemma newconn_ok:
  assumes "NewConn refs env pcap ipstack laddr raddr = Some (Some s, Inr (c, ep))"
  shows "c = newConn Client (ap_port laddr) (ap_port raddr) \<and> le_Close ep s cenv = us_Close UBase s cenv"
proof -
  obtain s0 where s: "NewUstack env (NewList refs 8 1320) (ap_addr laddr) = Inr s0"
    using assms by (auto simp: NewConn_def split: sum.splits)
  obtain u where u: "wrap_stack pcap = Some u" using assms s by (auto simp: NewConn_def bind_eq_Some_conv)
  have ep: "NewLinkEndpoint ipstack s u (ap_port laddr) raddr = Inr ep \<and> c = newConn Client (ap_port laddr) (ap_port raddr)"
    using assms s u by (cases "NewLinkEndpoint ipstack s0 u (ap_port laddr) raddr") (auto simp: NewConn_def)
  then show ?thesis using le_stack_new us_Close_wrapped [OF wrap_stack_cases [OF u]]
    by (fastforce simp: le_Close_def)
qed

end
