(* ===== verification/Listener_Props.thy ===== *)
theory Listener_Props
  imports Conn_Listener Stack_Props
begin

text \<open>
  The properties of the shared stack and of the connections' listener: who gets which
  packet, what a capture file changes, and what closing reaches.
\<close>

section \<open>Data of the witnesses\<close>

definition w_ustack :: ustack where
  "w_ustack = \<lparr>us_addr = Addr4 10 0 0 1, us_link = w_list, us_open = True, us_up = [], us_pcap = (\<lambda>_. [])\<rparr>"

definition w_ep :: "u16 \<Rightarrow> (bytes \<times> bytes) LinkEndpoint" where
  "w_ep p = \<lparr>le_stack = NotCloseWrap UBase, le_localPort = 443, le_remoteAddr = AddrPort (Addr4 8 8 8 8) p, le_attach = id\<rparr>"

definition w_new :: new_env where
  "w_new = \<lparr>nw_nic = (\<lambda>l. Inr (l_Attach l True)), nw_addr = None, nw_minRTO = None, nw_maxRTO = None\<rparr>"

definition w_listen :: listen_env where
  "w_listen = \<lparr>lv_new = w_new, lv_pcap = None, lv_ep = None, lv_bind = None, lv_listen = None,
     lv_close = \<lparr>cz_now = 0, cz_readings = [(0, second)], cz_left = 0\<rparr>\<rparr>"

lemma w_framed: "pk_framed (w_pk i p)"
  by (simp add: pk_framed_def w_pk_def w_ip_def)

lemma w_queue_ok: "queue_ok rfc (AddrPort (Addr4 8 8 8 8) q) (ps_items (l_list (us_link w_ustack)))"
  by (simp add: queue_ok_def w_ustack_def w_list_def w_slice_def w_match w_framed)

section \<open>One stack, several connections\<close>

text \<open>
  C19. Connections that share a listener's stack do not take each other's packets: in any
  sequence of \<open>Outbound\<close> calls at their endpoints, whatever the order, the endpoints of a
  remote receive exactly the segments queued for that remote, each once and in queue order,
  and what they have not taken yet is still there. Every packet keeps its reference balance.
\<close>

theorem stack_demux:
  assumes "packet_laws P"
    and "\<forall>(e, seg) \<in> set es. le_stack e = NotCloseWrap UBase \<and> addr_is4 (ap_addr (le_remoteAddr e))
      \<and> queue_ok G (le_remoteAddr e) (ps_items (l_list (us_link s)))"
  shows "\<exists>s' rs. ep_calls G P s es = Some (s', rs)
    \<and> (\<forall>d. addr_is4 (ap_addr d) \<longrightarrow> map pk_seg (pk_for G d s) = got P d rs @ map pk_seg (pk_for G d s'))
    \<and> (\<forall>i. balance (l_list (us_link s')) i = balance (l_list (us_link s)) i)"
  using assms by (rule ep_calls_ok)

theorem stack_demux_witness:
  "\<exists>s' rs. ep_calls rfc framed w_ustack [(w_ep 9, ([], [])), (w_ep 7, ([], [])), (w_ep 9, ([], []))] = Some (s', rs)
    \<and> [[0, 80, 0, 9]] = got framed (AddrPort (Addr4 8 8 8 8) 9) rs @ map pk_seg (pk_for rfc (AddrPort (Addr4 8 8 8 8) 9) s')"
proof -
  let ?es = "[(w_ep 9, ([], [])), (w_ep 7, ([], [])), (w_ep 9, ([], []))]" and ?d = "AddrPort (Addr4 8 8 8 8) 9"
  have "\<forall>(e, seg) \<in> set ?es. le_stack e = NotCloseWrap UBase \<and> addr_is4 (ap_addr (le_remoteAddr e))
      \<and> queue_ok rfc (le_remoteAddr e) (ps_items (l_list (us_link w_ustack)))"
    by (simp add: w_queue_ok w_ep_def)
  from stack_demux [OF framed_laws this] obtain s' rs where r: "ep_calls rfc framed w_ustack ?es = Some (s', rs)"
    and d: "\<forall>d. addr_is4 (ap_addr d) \<longrightarrow>
      map pk_seg (pk_for rfc d w_ustack) = got framed d rs @ map pk_seg (pk_for rfc d s')" by blast
  have "map pk_seg (pk_for rfc ?d w_ustack) = [[0, 80, 0, 9]]"
    by (simp add: pk_for_def w_ustack_def w_list_def w_slice_def w_match be16_def) (simp add: pk_seg_def w_pk_def w_ip_def)
  with r d show ?thesis by (intro exI [of _ s'] exI [of _ rs]) (simp del: ep_calls.simps)
qed

text \<open>
  C20. Capturing a stack's traffic changes nothing else: an outbound call through the
  wrapper returns what the call without it returns, the packet with the same bytes and the
  same head, and leaves the same state, except that the file has got the whole IP packet
  whose segment was returned. When the file cannot be written the call fails, and the packet
  that the stack had handed out is gone.
\<close>

theorem pcap_transparent:
  assumes "packet_laws P" "head_laws P" "\<forall>pk. pk_met (us_link s) evs pk \<longrightarrow> pk_framed pk"
  shows "case us_OutboundBy G P UBase s dst seg evs perr of
      None \<Rightarrow> us_OutboundBy G P (PcapWrap f UBase) s dst seg evs perr = None
    | Some (s', OutOk q) \<Rightarrow> (case perr f of
        None \<Rightarrow> \<exists>pk q'. us_OutboundBy G P (PcapWrap f UBase) s dst seg evs perr
            = Some (s'\<lparr>us_pcap := (us_pcap s')(f := us_pcap s' f @ [pk_data pk])\<rparr>, OutOk q')
          \<and> pk_met (us_link s) evs pk \<and> p_bytes P q = pk_seg pk
          \<and> p_bytes P q' = p_bytes P q \<and> p_head P q' = p_head P q
      | Some err \<Rightarrow> us_OutboundBy G P (PcapWrap f UBase) s dst seg evs perr = Some (s', OutErr err))
    | Some r \<Rightarrow> us_OutboundBy G P (PcapWrap f UBase) s dst seg evs perr = Some r"
proof (cases "us_OutboundBy G P UBase s dst seg evs perr")
  case (Some sr)
  obtain s' r where sr: "sr = (s', r)" by (cases sr)
  show ?thesis
  proof (cases r)
    case (OutOk q)
    then obtain l' where l': "l_OutboundBy G P (us_link s) dst seg evs = Some (l', OutOk q)"
      using Some sr by auto
    obtain pk where pk: "pk_met (us_link s) evs pk"
      "q = (let p = p_Append P (p_SetData P seg 0) (pk_data pk) in p_SetHead P p (p_head P p + length (pk_nhdr pk)))"
      using l_OutboundBy_taken [OF l'] by (elim exE conjE) (rule that; assumption)
    have fr: "pk_framed pk" using assms(3) pk(1) by blast
    have b: "p_bytes P q = pk_seg pk" unfolding pk(2) by (rule out_segment [OF assms(1) fr])
    have base: "us_OutboundBy G P UBase s dst seg evs perr = Some (s', OutOk q)" using Some sr OutOk by simp
    have wrapped: "us_OutboundBy G P (PcapWrap f UBase) s dst seg evs perr = Some (pcap_out P f (p_head P seg) (perr f) s' q)"
      unfolding us_OutboundBy.simps(3) base by simp
    show ?thesis
    proof (cases "perr f")
      case None
      from pcap_out_ok [OF assms(1,2) fr pk(2), of f s'] None pk(1) b show ?thesis
        unfolding base wrapped by auto
    next
      case err: (Some e)
      then show ?thesis unfolding base wrapped by (simp add: pcap_out_def)
    qed
  qed (unfold us_OutboundBy.simps(3) Some sr, simp_all)
qed (unfold us_OutboundBy.simps(3), simp)

theorem pcap_transparent_witness:
  "\<exists>s' pk q'. us_OutboundBy rfc framed (PcapWrap 0 UBase) w_ustack (AddrPort (Addr4 8 8 8 8) 9) ([], []) [] (\<lambda>_. None)
      = Some (s', OutOk q') \<and> us_pcap s' 0 = [pk_data pk] \<and> p_bytes framed q' = pk_seg pk"
proof -
  let ?d = "AddrPort (Addr4 8 8 8 8) 9"
  have "\<forall>pk. pk_met (us_link w_ustack) [] pk \<longrightarrow> pk_framed pk"
    by (auto simp: pk_met_def w_ustack_def w_list_def w_slice_def w_framed)
  note t = pcap_transparent [OF framed_laws framed_head this, where G = rfc and dst = ?d and seg = "([], [])" and perr = "\<lambda>_. None" and f = 0]
  have "queue_ok rfc ?d (ps_items (l_list (us_link w_ustack)))" by (rule w_queue_ok)
  moreover have "ap_valid ?d" by (simp add: ap_valid_def)
  ultimately obtain l' r where r: "l_OutboundBy rfc framed (us_link w_ustack) ?d ([], []) [] = Some (l', r)"
    "out_step rfc framed ?d (us_link w_ustack) l' r" using l_OutboundBy_step [OF framed_laws] by blast
  then obtain q where "r = OutOk q"
    by (cases r) (auto simp: out_step_def w_ustack_def w_list_def w_slice_def w_match be16_def)
  with t r(1) show ?thesis by (auto simp: w_ustack_def)
qed

section \<open>Closing\<close>

text \<open>
  Closing a connection that a listener accepted never touches the shared stack and
  always returns. A connection of \<open>NewConn\<close> owns its stack: closing it closes gVisor's stack
  and the link, without dropping what is queued, and reaches the datagram connection exactly
  when a reading after the timeout finds the queue empty.
\<close>

theorem conn_close_scope:
  assumes "ln_Accept ipstack l acc = Some (b, Inr (c, ep))"
    and "NewConn refs env pcap ipstack' laddr raddr = Some (Some s, Inr (c1, ep1))" "\<not> l_closed (us_link s)"
  shows "cn_close c' ep s' cenv = (c_close c', s', True)
    \<and> (\<exists>c2 s2. cn_close c1 ep1 s cenv = (c2, s2, drained cenv) \<and> \<not> us_open s2 \<and> l_closed (us_link s2)
      \<and> l_list (us_link s2) = l_list (us_link s) \<and> (EvCloseConn \<in> set (c_events c2) \<longleftrightarrow> drained cenv))"
proof (intro conjI)
  obtain v where "le_stack ep = NotCloseWrap v" using accept_ok [OF assms(1)] by blast
  then show "cn_close c' ep s' cenv = (c_close c', s', True)" by (rule cn_close_kept)
next
  note n = newconn_ok [OF assms(2)]
  obtain s2 r where s2: "us_Close UBase s cenv = (s2, r)" "(r \<noteq> None) = drained cenv" "\<not> us_open s2"
    "l_closed (us_link s2)" "l_list (us_link s2) = l_list (us_link s)" using us_Close_open [OF assms(3)] by blast
  with n show "\<exists>c2 s2. cn_close c1 ep1 s cenv = (c2, s2, drained cenv) \<and> \<not> us_open s2 \<and> l_closed (us_link s2)
      \<and> l_list (us_link s2) = l_list (us_link s) \<and> (EvCloseConn \<in> set (c_events c2) \<longleftrightarrow> drained cenv)"
    by (cases "r = None") (auto simp: cn_close_def newConn_def c_emit_def)
qed

theorem conn_close_scope_witness:
  "\<exists>l c ep c1 ep1 s. ln_Accept (\<lambda>_ _. Inr (id :: nat \<times> bytes \<Rightarrow> _)) l (Inr (Some (AddrPort (Addr4 8 8 8 8) 9))) = Some (True, Inr (c, ep))
    \<and> NewConn (\<lambda>_. 0) w_new None (\<lambda>_ _. Inr (id :: nat \<times> bytes \<Rightarrow> _)) (AddrPort (Addr4 10 0 0 1) 443) (AddrPort (Addr4 8 8 8 8) 9)
        = Some (Some s, Inr (c1, ep1))
    \<and> cn_close c ep s (lv_close w_listen) = (c_close c, s, True)"
proof -
  let ?ip = "\<lambda>_ _. Inr (id :: nat \<times> bytes \<Rightarrow> nat \<times> bytes)" and ?r = "AddrPort (Addr4 8 8 8 8) 9"
  define l where "l = \<lparr>ln_laddr = AddrPort (Addr4 10 0 0 1) 443, ln_stack = Some (UBase, w_ustack),
    ln_builtin = True, ln_closed = False, ln_events = []\<rparr>"
  obtain c ep where a: "ln_Accept ?ip l (Inr (Some ?r)) = Some (True, Inr (c, ep))"
    by (simp add: ln_Accept_def l_def NewLinkEndpoint_def)
  obtain s c1 ep1 where n: "NewConn (\<lambda>_. 0) w_new None ?ip (AddrPort (Addr4 10 0 0 1) 443) ?r = Some (Some s, Inr (c1, ep1))"
    and o: "\<not> l_closed (us_link s)"
    by (simp add: NewConn_def NewUstack_def w_new_def rto_error_def wrap_stack_def NewLinkEndpoint_def NewList_def l_Attach_def)
  from conn_close_scope [OF a n o, of c s "lv_close w_listen"] a n show ?thesis by blast
qed

text \<open>
  C38. A listener that was made closes its built-in listener, then the stack, then the
  datagram listener, each once, and a second \<open>Close\<close> does nothing. The datagram listener is
  reached exactly when a reading a second or more later finds the stack's queue empty:
  while a packet stays queued for a connection that no longer takes it, \<open>Close\<close> hangs and
  the datagram socket stays open.
\<close>

theorem listener_close_needs_drain:
  assumes "NewListen refs env addr = Some (l, ListenOk)" "ln_stack l = Some (u, s)" "\<not> l_closed (us_link s)"
  shows "\<exists>l'. ln_Close l cenv = (l', drained cenv)
    \<and> ln_events l' = [LnBuiltin, LnStack] @ (if drained cenv then [LnDgram] else [])
    \<and> (\<exists>s'. ln_stack l' = Some (u, s') \<and> \<not> us_open s' \<and> l_list (us_link s') = l_list (us_link s))
    \<and> (\<forall>cenv'. ln_Close l' cenv' = (l', True))"
proof -
  from newlisten_ok [OF assms(1)] assms(2)
  have l: "u = UBase \<or> (\<exists>f. u = PcapWrap f UBase)" "ln_builtin l" "\<not> ln_closed l" "ln_events l = []" by auto
  obtain s' r where s': "us_Close u s cenv = (s', r)" "(r \<noteq> None) = drained cenv" "\<not> us_open s'"
    "l_list (us_link s') = l_list (us_link s)"
    using us_Close_open [OF assms(3)] us_Close_wrapped [OF l(1)] by metis
  with l assms(2) show ?thesis
    by (cases "r = None") (auto simp: ln_Close_def ln_close_def ln_emit_def)
qed

theorem listener_close_needs_drain_witness:
  "\<exists>l l'. NewListen (\<lambda>_. 0) w_listen (Some (AddrPort (Addr4 10 0 0 1) 443)) = Some (l, ListenOk)
    \<and> ln_Close l \<lparr>cz_now = 0, cz_readings = [(1, second), (1, 2 * second)], cz_left = 1\<rparr> = (l', False)
    \<and> ln_events l' = [LnBuiltin, LnStack]"
proof -
  let ?env = "\<lparr>cz_now = 0, cz_readings = [(1, second), (1, 2 * second)], cz_left = 1\<rparr>"
  obtain l u s where l: "NewListen (\<lambda>_. 0) w_listen (Some (AddrPort (Addr4 10 0 0 1) 443)) = Some (l, ListenOk)"
    "ln_stack l = Some (u, s)" "\<not> l_closed (us_link s)"
    by (simp add: NewListen_def NewUstack_def w_listen_def w_new_def rto_error_def wrap_stack_def ListenTCP_def
        NewList_def l_Attach_def)
  have "\<not> drained ?env" by (auto simp: drained_def nth_Cons split: nat.splits)
  with listener_close_needs_drain [OF l, of ?env] l(1) show ?thesis by auto
qed

text \<open>
  Error paths. \<open>NewListen\<close> that fails has closed what it made, the datagram listener
  included, as far as \<open>close\<close> returned. \<open>NewConn\<close> whose endpoint fails leaves the stack it
  made open and hands it to nobody, and \<open>Accept\<close> leaves the accepted datagram connection.
\<close>

theorem error_paths:
  shows "NewListen refs env (Some laddr) = Some (l, ListenErr) \<Longrightarrow> ln_closed l \<and> LnDgram \<in> set (ln_events l)
      \<and> (\<forall>u s. ln_stack l = Some (u, s) \<longrightarrow> \<not> us_open s)"
    and "NewConn refs nenv pcap ipstack laddr raddr = Some (Some s, Inl err) \<Longrightarrow> us_open s"
    and "ln_Accept ipstack l (Inr r) = Some (b, Inl err) \<Longrightarrow> b"
proof -
  have fail: "listen_fail l0 env = (l, ListenErr) \<Longrightarrow> \<not> ln_closed l0 \<Longrightarrow>
      (\<forall>u s. ln_stack l0 = Some (u, s) \<longrightarrow> u = UBase \<or> (\<exists>f. u = PcapWrap f UBase)) \<Longrightarrow>
      ln_closed l \<and> LnDgram \<in> set (ln_events l) \<and> (\<forall>u s. ln_stack l = Some (u, s) \<longrightarrow> \<not> us_open s)" for l0
    by (auto simp: listen_fail_def ln_close_def ln_emit_def Let_def split: if_splits option.splits prod.splits)
  show "NewListen refs env (Some laddr) = Some (l, ListenErr) \<Longrightarrow> ln_closed l \<and> LnDgram \<in> set (ln_events l)
      \<and> (\<forall>u s. ln_stack l = Some (u, s) \<longrightarrow> \<not> us_open s)"
    using fail by (cases "NewUstack (lv_new env) (NewList refs 128 512) (ap_addr laddr)")
      (fastforce simp: NewListen_def Let_def bind_eq_Some_conv dest: wrap_stack_cases split: if_splits)+
  show "us_open s" if n: "NewConn refs nenv pcap ipstack laddr raddr = Some (Some s, Inl err)"
  proof -
    obtain s0 where s0: "NewUstack nenv (NewList refs 8 1320) (ap_addr laddr) = Inr s0"
      using n by (auto simp: NewConn_def split: sum.splits)
    moreover obtain u where "wrap_stack pcap = Some u" using n s0 by (auto simp: NewConn_def bind_eq_Some_conv)
    ultimately show ?thesis using n NewUstack_ok [OF s0]
      by (cases "NewLinkEndpoint ipstack s0 u (ap_port laddr) raddr") (auto simp: NewConn_def)
  qed
  show "ln_Accept ipstack l (Inr r) = Some (b, Inl err) \<Longrightarrow> b"
    by (cases r; cases "ln_stack l") (auto simp: ln_Accept_def split: sum.splits)
qed

end
