(* ===== verification/Setup.thy ===== *)
theory Setup
  imports Client_Loop Bpf_Filter
begin

text \<open>
  How the two programs are put together: \<open>NewServer\<close> of \<open>server.go\<close>, \<open>NewClient\<close> of
  \<open>client.go\<close>, \<open>NewDefaultCapture\<close> of \<open>client_windows.go\<close>, \<open>NewETHSender\<close> of
  \<open>server_linux.go\<close> and \<open>ifaceByAddr\<close>. A constructor is given what the calls it makes
  return; its result goes with the set of resources that are open when it returns.
\<close>

section \<open>The other system\<close>

text \<open>What stands for a component on the system that lacks it: an error, and for the filter of
  \<open>ports\<close> on Windows a panic.\<close>

definition NewDefaultCapture_linux :: "addrport \<Rightarrow> int \<Rightarrow> string + 'a" where
  "NewDefaultCapture_linux laddr overhead = Inl ''linux not default capture''"

definition NewDefaultSender_windows :: "addrport \<Rightarrow> string + 'a" where
  "NewDefaultSender_windows laddr = Inl ''windows not default sender''"

definition setFilterAll_windows :: "'a \<Rightarrow> go_error option option" where
  "setFilterAll_windows c = None"

section \<open>Interfaces\<close>

text \<open>An interface of the machine: its addresses are those of type \<open>IPNet\<close>, each with the
  result of \<open>To4\<close>, or the error of reading them.\<close>

record iface =
  if_index :: u32
  if_running :: bool
  if_addrs :: "addr option list result"

fun iface_loop :: "addr \<Rightarrow> iface list \<Rightarrow> iface result" where
  "iface_loop laddr [] = Inl (ErrExt 404)"
| "iface_loop laddr (i # is) =
     (if \<not> if_running i then iface_loop laddr is
      else case if_addrs i of Inl err \<Rightarrow> Inl err
      | Inr as \<Rightarrow> if Some laddr \<in> set as then Inr i else iface_loop laddr is)"

definition ifaceByAddr :: "iface list result \<Rightarrow> addr \<Rightarrow> iface result" where
  "ifaceByAddr ifs laddr = (case ifs of Inl err \<Rightarrow> Inl err | Inr is \<Rightarrow> iface_loop laddr is)"

lemma ifaceByAddr_first:
  "ifaceByAddr ifs laddr = Inr i \<longleftrightarrow> (\<exists>xs ys as. ifs = Inr (xs @ i # ys) \<and> if_running i
     \<and> if_addrs i = Inr as \<and> Some laddr \<in> set as
     \<and> (\<forall>x \<in> set xs. if_running x \<longrightarrow> (\<exists>bs. if_addrs x = Inr bs \<and> Some laddr \<notin> set bs)))"
proof -
  have "iface_loop laddr is = Inr i \<longleftrightarrow> (\<exists>xs ys as. is = xs @ i # ys \<and> if_running i
     \<and> if_addrs i = Inr as \<and> Some laddr \<in> set as
     \<and> (\<forall>x \<in> set xs. if_running x \<longrightarrow> (\<exists>bs. if_addrs x = Inr bs \<and> Some laddr \<notin> set bs)))" (is "_ \<longleftrightarrow> ?R is") for "is"
  proof (induction "is")
    case (Cons x "is")
    have skip: "?R (x # is) \<longleftrightarrow> ?R is" if n: "if_running x \<longrightarrow> (\<exists>bs. if_addrs x = Inr bs \<and> Some laddr \<notin> set bs)"
    proof
      assume "?R (x # is)"
      then obtain xs ys as where r: "x # is = xs @ i # ys" "if_running i" "if_addrs i = Inr as" "Some laddr \<in> set as"
        "\<forall>x \<in> set xs. if_running x \<longrightarrow> (\<exists>bs. if_addrs x = Inr bs \<and> Some laddr \<notin> set bs)" by blast
      with n have "xs \<noteq> []" by (cases xs) auto
      then obtain zs where "xs = x # zs" "is = zs @ i # ys" using r(1) by (cases xs) auto
      with r show "?R is" by auto
    next
      assume "?R is"
      then obtain xs ys as where r: "is = xs @ i # ys" "if_running i" "if_addrs i = Inr as" "Some laddr \<in> set as"
        "\<forall>x \<in> set xs. if_running x \<longrightarrow> (\<exists>bs. if_addrs x = Inr bs \<and> Some laddr \<notin> set bs)" by blast
      with n show "?R (x # is)" by (intro exI [of _ "x # xs"] exI [of _ ys] exI [of _ as]) auto
    qed
    have hit: "?R (x # is) \<longleftrightarrow> x = i" if "if_running x" "if_addrs x = Inr as" "Some laddr \<in> set as" for as
    proof
      assume "?R (x # is)"
      with that show "x = i" by (auto simp: Cons_eq_append_conv)
    qed (use that in \<open>force intro: exI [of _ "[]"]\<close>)
    have bad: "\<not> ?R (x # is)" if "if_running x" "if_addrs x = Inl err" for err
      using that by (auto simp: Cons_eq_append_conv)
    show ?case
    proof (cases "if_running x")
      case False
      with skip Cons.IH show ?thesis by simp
    next
      case True
      show ?thesis
      proof (cases "if_addrs x")
        case (Inl err)
        with True bad show ?thesis by simp
      next
        case (Inr as)
        with True hit skip Cons.IH show ?thesis by (cases "Some laddr \<in> set as") simp_all
      qed
    qed
  qed simp
  then show ?thesis by (cases ifs) (simp_all add: ifaceByAddr_def)
qed

section \<open>Constructors\<close>

datatype rsrc = RSock | RListener | RLinks | RSender | RConn | RCapturer | RDivert | RMapping | RPcap | RArp | REth

text \<open>The options may have set a part already; then its default is not made. \<open>NewListen\<close> that
  fails has closed the socket it was given, \<open>NewConn\<close> that fails has not.\<close>

record server_env =
  se_listener :: bool
  se_links :: bool
  se_sender :: bool
  se_listen :: "go_error option"
  se_newlisten :: "go_error option"
  se_newsender :: "go_error option"

definition srv_close :: "rsrc set \<Rightarrow> rsrc set" where
  "srv_close open = open - {RSender, RLinks, RListener}"

definition srv_sender :: "server_env \<Rightarrow> rsrc set \<Rightarrow> rsrc set \<times> go_error option" where
  "srv_sender env open =
     (let open = (if se_links env then open else insert RLinks open) in
      if se_sender env then (open, None)
      else case se_newsender env of
        Some err \<Rightarrow> (srv_close open, Some err)
      | None \<Rightarrow> (insert RSender open, None))"

definition server_new :: "server_env \<Rightarrow> rsrc set \<times> go_error option" where
  "server_new env =
     (let open = (if se_listener env then {RListener} else {}) \<union> (if se_links env then {RLinks} else {})
            \<union> (if se_sender env then {RSender} else {}) in
      if se_listener env then srv_sender env open
      else case se_listen env of
        Some err \<Rightarrow> (srv_close open, Some err)
      | None \<Rightarrow> (case se_newlisten env of
           Some err \<Rightarrow> (srv_close open, Some err)
         | None \<Rightarrow> srv_sender env (insert RListener open)))"

record client_env =
  ci_conn :: bool
  ci_capturer :: bool
  ci_dial :: "go_error option"
  ci_newconn :: "go_error option"
  ci_capture :: "go_error option"

definition cli_close :: "rsrc set \<Rightarrow> rsrc set" where
  "cli_close open = open - {RCapturer, RConn}"

definition cli_capturer :: "client_env \<Rightarrow> rsrc set \<Rightarrow> rsrc set \<times> go_error option" where
  "cli_capturer env open =
     (if ci_capturer env then (open, None)
      else case ci_capture env of Some err \<Rightarrow> (open, Some err) | None \<Rightarrow> (insert RCapturer open, None))"

definition NewClient :: "client_env \<Rightarrow> rsrc set \<times> go_error option" where
  "NewClient env =
     (let open = (if ci_conn env then {RConn} else {}) \<union> (if ci_capturer env then {RCapturer} else {}) in
      if ci_conn env then cli_capturer env open
      else case ci_dial env of
        Some err \<Rightarrow> (cli_close open, Some err)
      | None \<Rightarrow> (case ci_newconn env of
           Some err \<Rightarrow> (cli_close (insert RSock open), Some err)
         | None \<Rightarrow> cli_capturer env (insert RConn open)))"

text \<open>\<open>close\<close> of the capturer closes the driver's handle and the mapping, as far as they are set.\<close>

record capture_env =
  ce_file :: "go_error option"
  ce_divert :: "go_error option"
  ce_iface :: "iface list result"
  ce_mapping :: "go_error option"

definition cap_close :: "rsrc set \<Rightarrow> rsrc set" where
  "cap_close open = open - {RDivert, RMapping}"

definition NewDefaultCapture :: "capture_env \<Rightarrow> addr \<Rightarrow> rsrc set \<times> u32 result" where
  "NewDefaultCapture env laddr =
     (case ce_file env of Some err \<Rightarrow> ({}, Inl err)
      | None \<Rightarrow> (case ce_divert env of Some err \<Rightarrow> (cap_close {RPcap}, Inl err)
      | None \<Rightarrow> (case ifaceByAddr (ce_iface env) laddr of Inl err \<Rightarrow> ({RPcap, RDivert}, Inl err)
      | Inr ifi \<Rightarrow> (case ce_mapping env of Some err \<Rightarrow> (cap_close {RPcap, RDivert}, Inl err)
      | None \<Rightarrow> ({RPcap, RDivert, RMapping}, Inr (if_index ifi))))))"

text \<open>\<open>NewETHSender\<close>: the next hop of the first route over the interface, resolved by ARP.\<close>

record eth_env =
  et_ifs :: "iface list result"
  et_arp :: "go_error option"
  et_routes :: "(u32 \<times> addr) list result"
  et_resolve :: "addr \<Rightarrow> bytes result"
  et_listen :: "go_error option"

fun eth_gateway :: "u32 \<Rightarrow> (u32 \<times> addr) list \<Rightarrow> addr" where
  "eth_gateway idx [] = AddrZero"
| "eth_gateway idx ((i, nxt) # rows) = (if i = idx then nxt else eth_gateway idx rows)"

definition NewETHSender :: "eth_env \<Rightarrow> addr \<Rightarrow> rsrc set \<times> (bytes \<times> EthSender) result" where
  "NewETHSender env laddr =
     (case ifaceByAddr (et_ifs env) laddr of Inl err \<Rightarrow> ({}, Inl err)
      | Inr ifi \<Rightarrow> (case et_arp env of Some err \<Rightarrow> ({}, Inl err)
      | None \<Rightarrow> (case et_routes env of Inl err \<Rightarrow> ({RArp}, Inl err)
      | Inr rows \<Rightarrow>
          (let gateway = eth_gateway (if_index ifi) rows in
           if \<not> addr_valid gateway then ({RArp}, Inl (ErrExt 1))
           else case et_resolve env gateway of Inl err \<Rightarrow> ({RArp}, Inl err)
           | Inr hw \<Rightarrow> (case et_listen env of Some err \<Rightarrow> ({RArp}, Inl err)
             | None \<Rightarrow> ({RArp, REth}, Inr (hw, \<lparr>es_open = True, es_filter = None\<rparr>)))))))"

section \<open>What a failed constructor leaves open\<close>

text \<open>
  \<open>NewServer\<close> that fails leaves nothing open. \<open>NewClient\<close> leaves the dialed socket when the
  connection over it cannot be made, and everything it has when the default capturer
  cannot be made: that path does not close. \<open>NewDefaultCapture\<close> leaves the driver's handle
  when no interface has the address, and \<open>NewETHSender\<close> never closes its ARP client.
\<close>

theorem failed_setup:
  shows "server_new senv = (left, Some err) \<Longrightarrow> left = {}"
    and "NewClient cenv = (left, Some err) \<Longrightarrow> left =
      (if ci_conn cenv \<or> ci_dial cenv = None \<and> ci_newconn cenv = None then {RConn}
       else if ci_dial cenv = None then {RSock} else {})"
    and "NewDefaultCapture denv laddr = (left, Inl err) \<Longrightarrow>
      RDivert \<in> left \<longleftrightarrow> ce_file denv = None \<and> ce_divert denv = None \<and> (\<forall>i. ifaceByAddr (ce_iface denv) laddr \<noteq> Inr i)"
    and "NewETHSender eenv laddr = (left, r) \<Longrightarrow>
      RArp \<in> left \<longleftrightarrow> et_arp eenv = None \<and> (\<exists>i. ifaceByAddr (et_ifs eenv) laddr = Inr i)"
  by (auto simp: server_new_def srv_sender_def srv_close_def NewClient_def cli_capturer_def cli_close_def
      NewDefaultCapture_def cap_close_def NewETHSender_def Let_def split: option.splits if_splits sum.splits)

end
