(* ===== verification/Gonet_Close.thy ===== *)
theory Gonet_Close
  imports Gonet_Conn Netip
begin

text \<open>
  Closing and addresses in \<open>ustack/gonet/gonet.go\<close>: \<open>Close\<close> and \<open>Shutdown\<close> of the listener,
  the half-closes of a connection, and the address accessors. The endpoint is its state, the
  directions that are shut down and whether it is closed; its answers are arguments.
\<close>

section \<open>Addresses\<close>

text \<open>A \<open>FullAddress\<close> of gVisor and an address of the standard library hold the bytes of
  the IP address and the port.\<close>

record full_addr =
  fa_addr :: bytes
  fa_port :: u16

definition toFullAddr :: "addrport \<Rightarrow> full_addr" where
  "toFullAddr a = \<lparr>fa_addr = addr_slice (ap_addr a), fa_port = ap_port a\<rparr>"

definition fullToTCPAddr :: "full_addr \<Rightarrow> bytes \<times> int" where
  "fullToTCPAddr a = (fa_addr a, uint (fa_port a))"

text \<open>\<open>LocalAddr\<close>, \<open>RemoteAddr\<close>, \<open>Addr\<close>: nil when the endpoint has none.\<close>

definition ep_address :: "ep_error + full_addr \<Rightarrow> (bytes \<times> int) option" where
  "ep_address r = (case r of Inl err \<Rightarrow> None | Inr a \<Rightarrow> Some (fullToTCPAddr a))"

record op_err =
  oe_op :: string
  oe_net :: string
  oe_source :: "(bytes \<times> int) option"
  oe_addr :: "(bytes \<times> int) option"
  oe_err :: ep_error

definition newOpError :: "ep_error + full_addr \<Rightarrow> ep_error + full_addr \<Rightarrow> string \<Rightarrow> ep_error \<Rightarrow> op_err" where
  "newOpError local remote op err =
     \<lparr>oe_op = op, oe_net = ''tcp'', oe_source = ep_address local, oe_addr = ep_address remote, oe_err = err\<rparr>"

lemma toFullAddr_back:
  "addr_valid (ap_addr a) \<Longrightarrow> addr_from_slice (fst (fullToTCPAddr (toFullAddr a))) = Some (addr_no_zone (ap_addr a))
     \<and> word_of_int (snd (fullToTCPAddr (toFullAddr a))) = ap_port a"
  by (simp add: fullToTCPAddr_def toFullAddr_def addr_from_slice_slice)

section \<open>Closing\<close>

datatype direction = DRead | DWrite

record endpoint =
  en_down :: "direction set"
  en_closed :: bool

definition ep_Shutdown :: "endpoint \<Rightarrow> direction set \<Rightarrow> ep_error option \<Rightarrow> endpoint" where
  "ep_Shutdown e d err = (if err = None then e\<lparr>en_down := en_down e \<union> d\<rparr> else e)"

definition ep_Close :: "endpoint \<Rightarrow> endpoint" where
  "ep_Close e = e\<lparr>en_closed := True\<rparr>"

text \<open>\<open>tn_once\<close> is the state of \<open>cancelOnce\<close>, \<open>tn_cancel\<close> says whether the channel is closed;
  closing it again would be a panic.\<close>

record TCPListener =
  tn_ep :: endpoint
  tn_once :: bool
  tn_cancel :: bool

definition NewTCPListener :: "endpoint \<Rightarrow> TCPListener" where
  "NewTCPListener e = \<lparr>tn_ep = e, tn_once = False, tn_cancel = False\<rparr>"

definition tn_Close :: "TCPListener \<Rightarrow> TCPListener" where
  "tn_Close l = l\<lparr>tn_ep := ep_Close (tn_ep l)\<rparr>"

definition tn_Shutdown :: "TCPListener \<Rightarrow> ep_error option \<Rightarrow> TCPListener option" where
  "tn_Shutdown l err =
     (let l = l\<lparr>tn_ep := ep_Shutdown (tn_ep l) {DRead, DWrite} err\<rparr> in
      if tn_once l then Some l
      else if tn_cancel l then None
      else Some (l\<lparr>tn_once := True, tn_cancel := True\<rparr>))"

text \<open>\<open>TCPConn\<close>: \<open>Close\<close> and the half-closes.\<close>

definition tc_Close :: "endpoint \<Rightarrow> endpoint" where
  "tc_Close e = ep_Close e"

definition tc_CloseRead :: "endpoint \<Rightarrow> ep_error option \<Rightarrow> (ep_error \<Rightarrow> op_err) \<Rightarrow> endpoint \<times> op_err option" where
  "tc_CloseRead e terr wrap = (ep_Shutdown e {DRead} terr, map_option wrap terr)"

definition tc_CloseWrite :: "endpoint \<Rightarrow> ep_error option \<Rightarrow> (ep_error \<Rightarrow> op_err) \<Rightarrow> endpoint \<times> op_err option" where
  "tc_CloseWrite e terr wrap = (ep_Shutdown e {DWrite} terr, map_option wrap terr)"

section \<open>A waiting accept\<close>

text \<open>The operations on a listener, in any order.\<close>

datatype ln_op = OpClose | OpShutdown "ep_error option"

fun tn_run :: "TCPListener \<Rightarrow> ln_op list \<Rightarrow> TCPListener option" where
  "tn_run l [] = Some l"
| "tn_run l (OpClose # ops) = tn_run (tn_Close l) ops"
| "tn_run l (OpShutdown err # ops) = Option.bind (tn_Shutdown l err) (\<lambda>l. tn_run l ops)"

lemma tn_run_ok:
  "tn_once l = tn_cancel l \<Longrightarrow> \<exists>l'. tn_run l ops = Some l' \<and> tn_once l' = tn_cancel l'
     \<and> tn_cancel l' = (tn_cancel l \<or> (\<exists>err. OpShutdown err \<in> set ops))
     \<and> en_closed (tn_ep l') = (en_closed (tn_ep l) \<or> OpClose \<in> set ops)"
proof (induction ops arbitrary: l)
  case (Cons op ops)
  show ?case
  proof (cases op)
    case OpClose
    have "tn_once (tn_Close l) = tn_cancel (tn_Close l)" using Cons.prems by (simp add: tn_Close_def)
    from Cons.IH [OF this] show ?thesis using OpClose by (auto simp: tn_Close_def ep_Close_def)
  next
    case (OpShutdown err)
    obtain l1 where l1: "tn_Shutdown l err = Some l1" "tn_once l1" "tn_cancel l1"
      "en_closed (tn_ep l1) = en_closed (tn_ep l)"
      using Cons.prems by (auto simp: tn_Shutdown_def Let_def ep_Shutdown_def)
    then have "tn_once l1 = tn_cancel l1" by simp
    from Cons.IH [OF this] l1 OpShutdown show ?thesis by auto
  qed
qed simp

text \<open>
  No sequence of \<open>Close\<close> and \<open>Shutdown\<close> closes the cancel channel twice, and only
  \<open>Shutdown\<close> closes it: an accept that waits is cancelled by it, while \<open>Close\<close> alone leaves
  the accept to the endpoint and, in \<open>AcceptBy\<close>, to its context.
\<close>

theorem listener_cancel:
  "\<exists>l. tn_run (NewTCPListener e) ops = Some l \<and> tn_cancel l = (\<exists>err. OpShutdown err \<in> set ops)
     \<and> en_closed (tn_ep l) = (en_closed e \<or> OpClose \<in> set ops)"
  using tn_run_ok [of "NewTCPListener e" ops] by (auto simp: NewTCPListener_def)

end
