(* ===== verification/Link_Race.thy ===== *)
theory Link_Race
  imports Link_Props
begin

text \<open>
  The link manager as the goroutines of \<open>server.go\<close> use it. A goroutine of \<open>serveConn\<close> looks
  an uplink up and, when there is none, adds it: two calls of \<open>links/maps/maps.go\<close> with the
  lock released in between, so the calls of several connections interleave. One goroutine runs
  per connection; an uplink names the address of its client, not the connection.

  Here a step is a whole call, so these are the runs in which no two calls overlap: some of the
  runs of the program, enough to show that a lookup and an addition are not one operation.
  \<open>Link_Steps\<close> has all of them, with the sections of \<open>Add\<close> interleaved too.
\<close>

section \<open>Steps\<close>

datatype 'c lk_pc =
    LkIdle
  | LkStart Uplink 'c
  | LkMiss Uplink 'c
  | LkDone Uplink u16

record 'c lk_state =
  lk_ap :: ap_state
  lk_t :: "'c linkManager"
  lk_pcs :: "nat \<Rightarrow> 'c lk_pc"

text \<open>What a goroutine of the client \<open>a\<close> can ask for, and the room a counter needs for one
  more use.\<close>

definition lk_asks :: "addr \<Rightarrow> Uplink \<Rightarrow> bool" where
  "lk_asks a up \<longleftrightarrow> ap_addr (up_process up) = a \<and> addr_valid a \<and> (up_proto up = TCP \<or> up_proto up = UDP)"

definition lk_room :: "'c linkManager \<Rightarrow> Uplink \<Rightarrow> bool" where
  "lk_room t up = (case uplinkMap t up of None \<Rightarrow> True | Some d \<Rightarrow> port_uses d < 2 ^ 48 - 1)"

inductive lk_step :: "nat set \<Rightarrow> (nat \<Rightarrow> addr) \<Rightarrow> 'c lk_state \<Rightarrow> 'c lk_state \<Rightarrow> bool" for N cl where
  packet: "i \<in> N \<Longrightarrow> lk_pcs s i = LkIdle \<Longrightarrow> lk_asks (cl i) up \<Longrightarrow>
     lk_step N cl s (s\<lparr>lk_pcs := (lk_pcs s)(i := LkStart up c)\<rparr>)"
| hit: "lk_pcs s i = LkStart up c \<Longrightarrow> lk_room (lk_t s) up \<Longrightarrow> lm_Uplink (lk_t s) up = (t, Some p) \<Longrightarrow>
     lk_step N cl s (s\<lparr>lk_t := t, lk_pcs := (lk_pcs s)(i := LkDone up p)\<rparr>)"
| miss: "lk_pcs s i = LkStart up c \<Longrightarrow> lm_Uplink (lk_t s) up = (t, None) \<Longrightarrow>
     lk_step N cl s (s\<lparr>lk_t := t, lk_pcs := (lk_pcs s)(i := LkMiss up c)\<rparr>)"
| add: "lk_pcs s i = LkMiss up c \<Longrightarrow> add_env_ok (lk_ap s) env (lk_t s) up \<Longrightarrow>
     lm_Add (lk_ap s) env (lk_t s) up c = Some (ap, t, r) \<Longrightarrow>
     lk_step N cl s (s\<lparr>lk_ap := ap, lk_t := t,
       lk_pcs := (lk_pcs s)(i := (case r of Inl err \<Rightarrow> LkIdle | Inr p \<Rightarrow> LkDone up p))\<rparr>)"
| sent: "lk_pcs s i = LkDone up p \<Longrightarrow>
     lk_step N cl s (s\<lparr>lk_pcs := (lk_pcs s)(i := LkIdle)\<rparr>)"

inductive lk_reach :: "nat set \<Rightarrow> (nat \<Rightarrow> addr) \<Rightarrow> 'c lk_state \<Rightarrow> 'c lk_state \<Rightarrow> bool" for N cl s0 where
  start: "lk_reach N cl s0 s0"
| step: "lk_reach N cl s0 s \<Longrightarrow> lk_step N cl s s' \<Longrightarrow> lk_reach N cl s0 s'"

definition lk_init :: "'c lk_state \<Rightarrow> bool" where
  "lk_init s \<longleftrightarrow> lm_inv (lk_ap s) (lk_t s) \<and> lk_pcs s = (\<lambda>_. LkIdle)"

text \<open>A goroutine whose next call panics.\<close>

definition lk_panics :: "'c lk_state \<Rightarrow> nat \<Rightarrow> bool" where
  "lk_panics s i \<longleftrightarrow> (\<exists>up c env. lk_pcs s i = LkMiss up c \<and> add_env_ok (lk_ap s) env (lk_t s) up
     \<and> lm_Add (lk_ap s) env (lk_t s) up c = None)"

section \<open>Clients with different addresses\<close>

definition lk_pc_ok :: "'c linkManager \<Rightarrow> addr \<Rightarrow> 'c lk_pc \<Rightarrow> bool" where
  "lk_pc_ok t a pc \<longleftrightarrow>
     (case pc of LkStart up c \<Rightarrow> lk_asks a up
      | LkMiss up c \<Rightarrow> lk_asks a up \<and> uplinkMap t up = None
      | _ \<Rightarrow> True)"

definition lk_inv :: "nat set \<Rightarrow> (nat \<Rightarrow> addr) \<Rightarrow> 'c lk_state \<Rightarrow> bool" where
  "lk_inv N cl s \<longleftrightarrow> lm_inv (lk_ap s) (lk_t s) \<and> (\<forall>i. lk_pc_ok (lk_t s) (cl i) (lk_pcs s i))
     \<and> (\<forall>i. i \<notin> N \<longrightarrow> lk_pcs s i = LkIdle)"

lemma lk_pc_ok_mono: "lk_pc_ok t a pc \<Longrightarrow> dom (uplinkMap t') \<subseteq> dom (uplinkMap t) \<Longrightarrow> lk_pc_ok t' a pc"
  by (auto simp: lk_pc_ok_def domIff subset_iff split: lk_pc.splits)

text \<open>What another client adds does not touch the uplinks that this one waits for.\<close>

lemma lk_pc_ok_other:
  assumes "lk_pc_ok t a pc" "lk_asks b up" "a \<noteq> b" "dom (uplinkMap t') \<subseteq> insert up (dom (uplinkMap t))"
  shows "lk_pc_ok t' a pc"
  using assms by (auto simp: lk_pc_ok_def lk_asks_def domIff subset_iff split: lk_pc.splits)

lemma lk_inv_update:
  assumes "lk_inv N cl s" "lm_inv ap t" "lk_pc_ok t (cl i) pc" "lk_pcs s i \<noteq> LkIdle"
    and "\<And>j. j \<noteq> i \<Longrightarrow> lk_pc_ok (lk_t s) (cl j) (lk_pcs s j) \<Longrightarrow> lk_pc_ok t (cl j) (lk_pcs s j)"
  shows "lk_inv N cl (s\<lparr>lk_ap := ap, lk_t := t, lk_pcs := (lk_pcs s)(i := pc)\<rparr>)"
  using assms by (auto simp: lk_inv_def)

lemma lk_inv_pc: "lk_inv N cl s \<Longrightarrow> lk_pcs s i = pc \<Longrightarrow> lm_inv (lk_ap s) (lk_t s) \<and> lk_pc_ok (lk_t s) (cl i) pc"
  by (auto simp: lk_inv_def)

lemma lk_asks_valid: "lk_asks a up \<Longrightarrow> (up_proto up = TCP \<or> up_proto up = UDP) \<and> ap_valid (up_process up)"
  by (auto simp: lk_asks_def ap_valid_def)

lemma lk_Add_ok:
  assumes inv: "lk_inv N cl s" and pc: "lk_pcs s i = LkMiss up c" and env: "add_env_ok (lk_ap s) env (lk_t s) up"
  shows "\<exists>ap t r. lm_Add (lk_ap s) env (lk_t s) up c = Some (ap, t, r) \<and> lm_inv ap t
    \<and> dom (uplinkMap t) \<subseteq> insert up (dom (uplinkMap (lk_t s)))
    \<and> (case r of Inr p \<Rightarrow> routed t up p c | Inl err \<Rightarrow> True)"
proof -
  have m: "lm_inv (lk_ap s) (lk_t s)" "lk_asks (cl i) up" "uplinkMap (lk_t s) up = None"
    using lk_inv_pc [OF inv pc] by (simp_all add: lk_pc_ok_def)
  note v = lk_asks_valid [OF m(2)]
  obtain ap t r where a: "lm_Add (lk_ap s) env (lk_t s) up c = Some (ap, t, r)" "lm_inv ap t"
    "dom (uplinkMap t) \<subseteq> insert up (dom (uplinkMap (lk_t s)))"
    "case r of Inr p \<Rightarrow> uplinkMap t up = Some (NewPort p) \<and> routed t up p c
           \<and> (\<forall>x j. x \<noteq> down_key (lm_addr (lk_t s)) up p \<longrightarrow> lm_Downlink t x = Some j \<longrightarrow> lm_Downlink (lk_t s) x = Some j)
       | Inl e \<Rightarrow> uplinkMap t up = None"
    using lm_Add_ok [OF m(1) env conjunct1 [OF v] m(3) conjunct2 [OF v], of c]
    by (elim exE conjE) (rule that; assumption)
  from a(4) have "case r of Inr p \<Rightarrow> routed t up p c | Inl err \<Rightarrow> True" by (cases r) simp_all
  with a(1-3) show ?thesis by blast
qed

lemma lk_step_inv [inv_intros]:
  assumes "lk_step N cl s s'" "inj_on cl N" "lk_inv N cl s"
  shows "lk_inv N cl s'"
  using assms
proof (induction rule: lk_step.induct)
  case (packet s i up c)
  then show ?case by (auto simp: lk_inv_def lk_pc_ok_def)
next
  case (hit s i up c t p)
  note m = lk_inv_pc [OF hit.prems(2) hit.hyps(1)]
  have d: "dom (uplinkMap t) = dom (uplinkMap (lk_t s))"
    using hit.hyps(3) by (auto simp: lm_Uplink_def Let_def case_prod_unfold split: option.splits if_splits)
  have "lm_inv (lk_ap s) (fst (lm_Uplink (lk_t s) up))"
    using lm_Uplink_ok [OF conjunct1 [OF m], of up] hit.hyps(2,3) by (auto simp: lk_room_def split: option.splits)
  then have "lm_inv (lk_ap s) t" using hit.hyps(3) by simp
  from lk_inv_update [OF hit.prems(2) this, of i "LkDone up p"] show ?case
    using lk_pc_ok_mono [OF _ equalityD1 [OF d]] hit.hyps(1) by (simp add: lk_pc_ok_def)
next
  case (miss s i up c t)
  note m = lk_inv_pc [OF miss.prems(2) miss.hyps(1)]
  have "t = lk_t s" "uplinkMap (lk_t s) up = None"
    using miss.hyps(2) by (auto simp: lm_Uplink_def Let_def case_prod_unfold split: option.splits)
  moreover have "i \<in> N" using miss.prems(2) miss.hyps(1) by (force simp: lk_inv_def)
  ultimately show ?case using miss.prems(2) m by (auto simp: lk_inv_def lk_pc_ok_def)
next
  case (add s i up c env ap t r)
  have a: "lk_asks (cl i) up" using lk_inv_pc [OF add.prems(2) add.hyps(1)] by (simp add: lk_pc_ok_def)
  have t: "lm_inv ap t" "dom (uplinkMap t) \<subseteq> insert up (dom (uplinkMap (lk_t s)))"
    using lk_Add_ok [OF add.prems(2) add.hyps(1,2)] add.hyps(3) by auto
  show ?case
  proof (rule lk_inv_update [OF add.prems(2) t(1)])
    show "lk_pc_ok t (cl i) (case r of Inl err \<Rightarrow> LkIdle | Inr p \<Rightarrow> LkDone up p)"
      by (simp add: lk_pc_ok_def split: sum.splits)
    show "lk_pcs s i \<noteq> LkIdle" using add.hyps(1) by simp
    fix j assume j: "j \<noteq> i" "lk_pc_ok (lk_t s) (cl j) (lk_pcs s j)"
    show "lk_pc_ok t (cl j) (lk_pcs s j)"
    proof (cases "j \<in> N")
      case True
      moreover have "i \<in> N" using add.prems(2) add.hyps(1) by (force simp: lk_inv_def)
      ultimately have "cl j \<noteq> cl i" using j(1) add.prems(1) by (auto dest: inj_onD)
      from lk_pc_ok_other [OF j(2) a this t(2)] show ?thesis .
    next
      case False
      with add.prems(2) show ?thesis by (simp add: lk_inv_def lk_pc_ok_def)
    qed
  qed
next
  case (sent s i up p)
  then show ?case by (auto simp: lk_inv_def lk_pc_ok_def)
qed

lemma lk_reach_inv: "lk_reach N cl s0 s \<Longrightarrow> inj_on cl N \<Longrightarrow> lk_inv N cl s0 \<Longrightarrow> lk_inv N cl s"
  by (induction rule: lk_reach.induct) (auto intro: lk_step_inv)

lemma lk_init_inv: "lk_init s \<Longrightarrow> lk_inv N cl s"
  by (simp add: lk_init_def lk_inv_def lk_pc_ok_def)

section \<open>Properties\<close>

text \<open>
  As long as no two calls overlap, the connections of clients with pairwise different
  addresses do not disturb each other, whatever the order of their lookups and additions: the
  invariant of the links holds, no call panics, and an addition that returns a port has routed
  the link in both directions to the connection it was made for.
\<close>

theorem link_calls_safe:
  assumes "inj_on cl N" "lk_init s0" "lk_reach N cl s0 s"
  shows "lm_inv (lk_ap s) (lk_t s) \<and> \<not> lk_panics s i
    \<and> (\<forall>up c env ap t p. lk_pcs s i = LkMiss up c \<longrightarrow> add_env_ok (lk_ap s) env (lk_t s) up \<longrightarrow>
         lm_Add (lk_ap s) env (lk_t s) up c = Some (ap, t, Inr p) \<longrightarrow> routed t up p c)"
proof -
  have inv: "lk_inv N cl s" by (rule lk_reach_inv [OF assms(3,1) lk_init_inv [OF assms(2)]])
  then have "lm_inv (lk_ap s) (lk_t s)" by (simp add: lk_inv_def)
  moreover have "\<not> lk_panics s i" using lk_Add_ok [OF inv] by (fastforce simp: lk_panics_def)
  moreover have "routed t up p c" if "lk_pcs s i = LkMiss up c" "add_env_ok (lk_ap s) env (lk_t s) up"
    "lm_Add (lk_ap s) env (lk_t s) up c = Some (ap, t, Inr p)" for up c env ap t p
    using lk_Add_ok [OF inv that(1,2)] that(3) by simp
  ultimately show ?thesis by blast
qed

text \<open>Two connections of one client with the same packet, and two more clients' packets later.\<close>

definition w_lk_t0 :: "string linkManager" where
  "w_lk_t0 = \<lparr>lm_addr = w_addr, duration = 100, uplinkMap = Map.empty,
     ttl = \<lparr>vals = replicate 4 zero_ttlkey, sart = 0, hsize = 0\<rparr>, downlinkMap = Map.empty\<rparr>"

definition w_lk :: "'c lk_pc list \<Rightarrow> ap_state \<Rightarrow> 'c linkManager \<Rightarrow> 'c lk_state" where
  "w_lk pcs ap t = \<lparr>lk_ap = ap, lk_t = t, lk_pcs = (\<lambda>i. if i < length pcs then pcs ! i else LkIdle)\<rparr>"

definition w_cl :: "nat \<Rightarrow> addr" where "w_cl i = Addr4 192 168 0 7"

lemma w_lk_t0_inv: "lm_inv w_ap0 w_lk_t0"
  using w_ap0_inv
  by (simp add: lm_inv_def own_def queue_inv_def links_inv_def heap_inv_def heap_list_def w_lk_t0_def)

lemma w_lk_init: "lk_init (w_lk [] w_ap0 w_lk_t0)"
  using w_lk_t0_inv by (simp add: lk_init_def w_lk_def)

lemma w_asks: "lk_asks (Addr4 192 168 0 7) (w_up p n)"
  by (simp add: lk_asks_def w_up_def)

theorem link_calls_safe_witness:
  "\<exists>s. lk_reach {0} w_cl (w_lk [] w_ap0 w_lk_t0) s \<and> lk_pcs s 0 = LkMiss (w_up 4001 9) ''conn'' \<and> \<not> lk_panics s 0"
proof -
  let ?s0 = "w_lk [] w_ap0 w_lk_t0 :: string lk_state" and ?up = "w_up 4001 9"
  let ?s1 = "?s0\<lparr>lk_pcs := (lk_pcs ?s0)(0 := LkStart ?up ''conn'')\<rparr>"
  let ?s2 = "?s1\<lparr>lk_t := lk_t ?s1, lk_pcs := (lk_pcs ?s1)(0 := LkMiss ?up ''conn'')\<rparr>"
  have "lk_step {0} w_cl ?s0 ?s1" by (rule lk_step.packet) (simp_all add: w_asks w_cl_def w_lk_def)
  moreover have "lk_step {0} w_cl ?s1 ?s2"
    by (rule lk_step.miss) (simp_all add: lm_Uplink_def w_lk_def w_lk_t0_def)
  ultimately have reach: "lk_reach {0} w_cl ?s0 ?s2" by (meson lk_reach.start lk_reach.step)
  from link_calls_safe [OF _ w_lk_init reach, of 0] reach show ?thesis by (intro exI [of _ ?s2]) simp
qed

text \<open>The adapter with TCP ports in use, each for a list of remotes.\<close>

definition w_ad :: "(u16 \<times> addrport list) list \<Rightarrow> ap_state" where
  "w_ad ps = (\<lparr>mgr = \<lparr>tcpAddr = [10, 0, 0, 1], tcp = map_of (map (\<lambda>(p, _). (p, Listener TCP p)) ps),
       udpAddr = [10, 0, 0, 1], udp = Map.empty\<rparr>,
     ports = map_of (map (\<lambda>(p, rs). (PortKey 6 p, \<lparr>addrs = rs\<rparr>)) ps)\<rparr>, (\<lambda>(p, _). Listener TCP p) ` set ps)"

definition w_ord :: "(u16 \<times> addrport list) list \<Rightarrow> (portKey \<times> AddrSet) list" where
  "w_ord ps = map (\<lambda>(p, rs). (PortKey 6 p, \<lparr>addrs = rs\<rparr>)) ps"

definition w_ae :: "(u16 \<times> addrport list) list \<Rightarrow> u16 \<Rightarrow> time \<Rightarrow> add_env" where
  "w_ae ps p now = \<lparr>ae_close = w_close, ae_clock = (\<lambda>k. now), ae_now = now, ae_port = (w_ord ps, w_listen TCP p)\<rparr>"

definition w_lm :: "(Uplink \<times> u16 \<times> string) list \<Rightarrow> (Uplink \<times> u16 \<times> string) list \<Rightarrow> ttlkey list \<Rightarrow> nat \<Rightarrow> nat \<Rightarrow> string linkManager" where
  "w_lm ups downs q st n = \<lparr>lm_addr = w_addr, duration = 100, uplinkMap = map_of (map (\<lambda>(u, p, _). (u, NewPort p)) ups),
     ttl = \<lparr>vals = q, sart = st, hsize = n\<rparr>,
     downlinkMap = map_of (map (\<lambda>(u, p, c). (down_key w_addr u p, \<lparr>dk_conn = c, dk_port = ap_port (up_process u)\<rparr>)) downs)\<rparr>"

abbreviation w_tk :: "Uplink \<Rightarrow> time \<Rightarrow> ttlkey" where "w_tk u n \<equiv> \<lparr>tk_up = u, tk_start = n\<rparr>"

lemma w_remote_valid [simp]: "ap_valid (w_remote n)" "addr_valid (ap_addr (w_remote n))"
  by (simp_all add: w_remote_def ap_valid_def)

lemma w_sets:
  "as_Add as_empty (w_remote n) = \<lparr>addrs = [w_remote n]\<rparr>"
  "as_Add \<lparr>addrs = [w_remote 9]\<rparr> (w_remote 8) = \<lparr>addrs = [w_remote 8, w_remote 9]\<rparr>"
  "as_Del \<lparr>addrs = [w_remote n]\<rparr> (w_remote n) = \<lparr>addrs = []\<rparr>"
proof -
  have e: "as_Has as_empty (w_remote n) = False"
    by (subst as_Has_iff) (auto simp: as_inv_def as_elems_def as_empty_def)
  then show "as_Add as_empty (w_remote n) = \<lparr>addrs = [w_remote n]\<rparr>" by (simp add: as_Add_def as_empty_def)
  show "as_Add \<lparr>addrs = [w_remote 9]\<rparr> (w_remote 8) = \<lparr>addrs = [w_remote 8, w_remote 9]\<rparr>"
    by (simp add: as_Add_def) code_simp
  show "as_Del \<lparr>addrs = [w_remote n]\<rparr> (w_remote n) = \<lparr>addrs = []\<rparr>"
    by (simp add: as_Del_def as_Find_def sort_search.simps go_copy_def)
qed

lemmas w_eval = lm_Add_def w_ae_def w_ad_def w_ord_def w_lm_def Cleanup_def cleanup_loop.simps h_Size_def
  GetPort_def getport_alloc_def GetTCPPort_def setFilterAll_def getport_record_def w_filter_def w_listen_def
  h_Put_def h_Pop_def slice_simps w_sets tk_valid_def w_up_def ap_valid_def

lemma w_add1: "lm_Add (w_ad []) (w_ae [] 5000 60) (w_lm [] [] [zero_ttlkey, zero_ttlkey, zero_ttlkey, zero_ttlkey] 0 0) (w_up 4001 9) ''c1''
    = Some (w_ad [(5000, [w_remote 9])],
        w_lm [(w_up 4001 9, 5000, ''c1'')] [(w_up 4001 9, 5000, ''c1'')] [w_tk (w_up 4001 9) 60, zero_ttlkey, zero_ttlkey, zero_ttlkey] 0 1, Inr 5000)"
  by (simp add: w_eval)

lemma w_add2: "lm_Add (w_ad [(5000, [w_remote 9])]) (w_ae [(5000, [w_remote 9])] 5001 70)
      (w_lm [(w_up 4001 9, 5000, ''c1'')] [(w_up 4001 9, 5000, ''c1'')] [w_tk (w_up 4001 9) 60, zero_ttlkey, zero_ttlkey, zero_ttlkey] 0 1) (w_up 4001 9) ''c2''
    = Some (w_ad [(5001, [w_remote 9]), (5000, [w_remote 9])],
        w_lm [(w_up 4001 9, 5001, ''c2'')] [(w_up 4001 9, 5001, ''c2''), (w_up 4001 9, 5000, ''c1'')]
          [w_tk (w_up 4001 9) 60, w_tk (w_up 4001 9) 70, w_tk (w_up 4001 9) 70, zero_ttlkey] 1 2, Inr 5001)"
  by (simp add: w_eval)
lemma w_new_port: "port_Idle (NewPort p) = (True, NewPort p)" "fst (port_Port (NewPort p)) = p"
  using port_Idle_eq [of "NewPort p"] port_Idle_reset [of "NewPort p"] port_Port_eq [of "NewPort p"]
  by (simp_all add: prod_eq_iff port_num_NewPort port_uses_NewPort)

lemma w_add3: "lm_Add (w_ad [(5001, [w_remote 9]), (5000, [w_remote 9])]) (w_ae [(5000, [w_remote 9])] 5002 1000)
      (w_lm [(w_up 4001 9, 5001, ''c2'')] [(w_up 4001 9, 5001, ''c2''), (w_up 4001 9, 5000, ''c1'')]
          [w_tk (w_up 4001 9) 60, w_tk (w_up 4001 9) 70, w_tk (w_up 4001 9) 70, zero_ttlkey] 1 2) (w_up 4002 8) ''c3''
    = Some (w_ad [(5000, [w_remote 8, w_remote 9])],
        w_lm [(w_up 4002 8, 5000, ''c3'')] [(w_up 4002 8, 5000, ''c3''), (w_up 4001 9, 5000, ''c1'')]
          [w_tk (w_up 4001 9) 60, w_tk (w_up 4001 9) 70, w_tk (w_up 4001 9) 70, w_tk (w_up 4002 8) 1000] 2 2, Inr 5000)"
  by (simp add: w_eval cleanup_downlinks_eq w_new_port link_triple_def down_of_def DelPort_def DelTCPPort_def as_Len_def w_close_def)
    (auto simp: fun_eq_iff)

lemma w_add4: "lm_Add ap (w_ae ps p 2000)
      (w_lm [(w_up 4002 8, 5000, ''c3'')] ds [t0, w_tk (w_up 4001 9) 70, w_tk (w_up 4001 9) 70, w_tk (w_up 4002 8) 1000] 2 2) up c = None"
  by (simp add: w_eval)

text \<open>The state after three additions: two by connections of the one client, one more, which
  sweeps.\<close>

definition w_race_end :: "string lk_state" where
  "w_race_end = w_lk [LkDone (w_up 4001 9) 5000, LkDone (w_up 4001 9) 5001, LkDone (w_up 4002 8) 5000, LkMiss (w_up 4003 8) ''c4'']
     (w_ad [(5000, [w_remote 8, w_remote 9])])
     (w_lm [(w_up 4002 8, 5000, ''c3'')] [(w_up 4002 8, 5000, ''c3''), (w_up 4001 9, 5000, ''c1'')]
        [w_tk (w_up 4001 9) 60, w_tk (w_up 4001 9) 70, w_tk (w_up 4001 9) 70, w_tk (w_up 4002 8) 1000] 2 2)"

lemma w_lk_upd: "i < length pcs \<Longrightarrow> (w_lk pcs ap t)\<lparr>lk_pcs := (lk_pcs (w_lk pcs ap t))(i := pc)\<rparr> = w_lk (pcs[i := pc]) ap t"
  "i < length pcs \<Longrightarrow> (w_lk pcs ap t)\<lparr>lk_ap := ap', lk_t := t', lk_pcs := (lk_pcs (w_lk pcs ap t))(i := pc)\<rparr> = w_lk (pcs[i := pc]) ap' t'"
  "i < length pcs \<Longrightarrow> (w_lk pcs ap t)\<lparr>lk_t := t', lk_pcs := (lk_pcs (w_lk pcs ap t))(i := pc)\<rparr> = w_lk (pcs[i := pc]) ap t'"
  by (auto simp: w_lk_def nth_list_update)

lemma w_lk_fields [simp]: "i < length pcs \<Longrightarrow> lk_pcs (w_lk pcs ap t) i = pcs ! i" "lk_ap (w_lk pcs ap t) = ap" "lk_t (w_lk pcs ap t) = t"
  by (simp_all add: w_lk_def)

text \<open>A goroutine comes to the point where it has missed, and adds.\<close>

lemma w_lk_missed:
  assumes "i < length pcs" "pcs ! i = LkIdle" "uplinkMap t (w_up p n) = None"
  shows "lk_reach UNIV w_cl s0 (w_lk pcs ap t) \<Longrightarrow> lk_reach UNIV w_cl s0 (w_lk (pcs[i := LkMiss (w_up p n) c]) ap t)"
proof -
  assume r: "lk_reach UNIV w_cl s0 (w_lk pcs ap t)"
  have "lk_step UNIV w_cl (w_lk pcs ap t) (w_lk (pcs[i := LkStart (w_up p n) c]) ap t)"
    using lk_step.packet [of i UNIV "w_lk pcs ap t" w_cl "w_up p n" c] assms(1,2)
    by (simp add: w_lk_upd w_asks w_cl_def)
  with r have r1: "lk_reach UNIV w_cl s0 (w_lk (pcs[i := LkStart (w_up p n) c]) ap t)" by (rule lk_reach.step)
  have "lk_step UNIV w_cl (w_lk (pcs[i := LkStart (w_up p n) c]) ap t) (w_lk (pcs[i := LkMiss (w_up p n) c]) ap t)"
    using lk_step.miss [of "w_lk (pcs[i := LkStart (w_up p n) c]) ap t" i "w_up p n" c t UNIV w_cl] assms(1,3)
    by (simp add: lm_Uplink_def w_lk_upd)
  with r1 show ?thesis by (rule lk_reach.step)
qed

lemma w_lk_added:
  assumes "i < length pcs" "pcs ! i = LkMiss up c" "add_env_ok ap env t up" "lm_Add ap env t up c = Some (ap', t', Inr p)"
  shows "lk_reach UNIV w_cl s0 (w_lk pcs ap t) \<Longrightarrow> lk_reach UNIV w_cl s0 (w_lk (pcs[i := LkDone up p]) ap' t')"
  using lk_step.add [of "w_lk pcs ap t" i up c env ap' t' "Inr p" UNIV w_cl] assms
  by (auto simp: w_lk_upd intro: lk_reach.step)

lemma w_lk_t0_eq: "w_lk_t0 = w_lm [] [] [zero_ttlkey, zero_ttlkey, zero_ttlkey, zero_ttlkey] 0 0" "w_ap0 = w_ad []"
  by (simp_all add: w_lk_t0_def w_lm_def w_ap0_def w_ad_def numeral_eq_Suc)

lemma w_lk_more: "w_lk [] ap t = w_lk [LkIdle, LkIdle, LkIdle, LkIdle] ap t"
  by (auto simp: w_lk_def fun_eq_iff nth_Cons split: nat.splits)

lemma w_race_envs:
  "add_env_ok (w_ad []) (w_ae [] 5000 60) (w_lm [] [] [zero_ttlkey, zero_ttlkey, zero_ttlkey, zero_ttlkey] 0 0) (w_up 4001 9)"
  "add_env_ok (w_ad [(5000, [w_remote 9])]) (w_ae [(5000, [w_remote 9])] 5001 70)
      (w_lm [(w_up 4001 9, 5000, ''c1'')] [(w_up 4001 9, 5000, ''c1'')] [w_tk (w_up 4001 9) 60, zero_ttlkey, zero_ttlkey, zero_ttlkey] 0 1) (w_up 4001 9)"
  "add_env_ok (w_ad [(5001, [w_remote 9]), (5000, [w_remote 9])]) (w_ae [(5000, [w_remote 9])] 5002 1000)
      (w_lm [(w_up 4001 9, 5001, ''c2'')] [(w_up 4001 9, 5001, ''c2''), (w_up 4001 9, 5000, ''c1'')]
          [w_tk (w_up 4001 9) 60, w_tk (w_up 4001 9) 70, w_tk (w_up 4001 9) 70, zero_ttlkey] 1 2) (w_up 4002 8)"
  by (simp_all add: add_env_ok_def w_eval cleanup_downlinks_eq w_new_port link_triple_def DelPort_def DelTCPPort_def as_Len_def w_close_def
      get_env_def range_of_def listen_ok_def)

text \<open>
  C32. Two connections of one client can crash the server. When both look up the same new
  uplink before either adds it, both add it: the map keeps the second port, the queue gets two
  entries for the one link, and the first port stays allocated. Once a later sweep has
  removed the link with its first entry, the sweep that meets the second entry finds no
  counter in the map and panics, whatever is being added.
\<close>

theorem link_add_race_panics:
  "lk_reach UNIV w_cl (w_lk [] w_ap0 w_lk_t0) w_race_end \<and> lk_panics w_race_end 3"
proof
  let ?R = "lk_reach UNIV w_cl (w_lk [] w_ap0 w_lk_t0)"
  have "?R (w_lk [LkIdle, LkIdle, LkIdle, LkIdle] (w_ad []) (w_lm [] [] [zero_ttlkey, zero_ttlkey, zero_ttlkey, zero_ttlkey] 0 0))"
    using lk_reach.start [of UNIV w_cl "w_lk [] w_ap0 w_lk_t0"] unfolding w_lk_t0_eq w_lk_more .
  note r1 = w_lk_missed [of 0, OF _ _ _ this, of 4001 9 "''c1''"]
  note r2 = w_lk_missed [of 1, OF _ _ _ r1, of 4001 9 "''c2''"]
  note r3 = w_lk_added [of 0, OF _ _ w_race_envs(1) w_add1 r2]
  note r4 = w_lk_added [of 1, OF _ _ w_race_envs(2) w_add2 r3]
  note r5 = w_lk_missed [of 2, OF _ _ _ r4, of 4002 8 "''c3''"]
  note r6 = w_lk_added [of 2, OF _ _ w_race_envs(3) w_add3 r5]
  note r7 = w_lk_missed [of 3, OF _ _ _ r6, of 4003 8 "''c4''"]
  then show "?R w_race_end" by (simp add: w_race_end_def w_lm_def)
next
  have "add_env_ok (lk_ap w_race_end) (w_ae [] 5003 2000) (lk_t w_race_end) (w_up 4003 8)"
    by (simp add: w_race_end_def add_env_ok_def w_eval)
  moreover have "lm_Add (lk_ap w_race_end) (w_ae [] 5003 2000) (lk_t w_race_end) (w_up 4003 8) ''c4'' = None"
    by (simp add: w_race_end_def w_add4)
  ultimately show "lk_panics w_race_end 3" by (auto simp: lk_panics_def w_race_end_def)
qed


end
