(* ===== verification/Server_Run.thy ===== *)
theory Server_Run
  imports Server_Props Link_Race
begin

text \<open>
  Whole runs of the proxy server: any number of rounds of \<open>serveConn\<close> on any connections and of
  \<open>recvService\<close>, in any order, with a history of what came on which connection. A round is
  one step; \<open>Link_Race\<close> has the steps within one. A run ends when a loop has closed the
  server.
\<close>

section \<open>Rounds\<close>

datatype ('c, 'p) event =
    FromClient 'c defaultSession 'p sv_env
  | FromNet 'p sv_env

definition sv_round :: "gvisor \<Rightarrow> 'p packet_api \<Rightarrow> ('c \<Rightarrow> addr) \<Rightarrow> 'c server \<Rightarrow> ('c, 'p) event \<Rightarrow> ('c server \<times> flow) option" where
  "sv_round G P raddr s ev =
     (case ev of
        FromClient conn peer pkt env \<Rightarrow> serve_packet G P s (raddr conn) conn peer pkt env
      | FromNet ip env \<Rightarrow> recv_packet G P s ip env)"

text \<open>The uplink that a packet of a connection names.\<close>

fun ev_up :: "'p packet_api \<Rightarrow> ('c \<Rightarrow> addr) \<Rightarrow> ('c, 'p) event \<Rightarrow> ('c \<times> Uplink) set" where
  "ev_up P raddr (FromClient conn peer pkt env) = {(conn, payload_up (raddr conn) peer (p_bytes P pkt))}"
| "ev_up P raddr (FromNet ip env) = {}"

inductive sv_run :: "gvisor \<Rightarrow> 'p packet_api \<Rightarrow> ('c \<Rightarrow> addr) \<Rightarrow> ('c server \<Rightarrow> ('c, 'p) event \<Rightarrow> bool)
    \<Rightarrow> 'c server \<Rightarrow> 'c server \<times> ('c \<times> Uplink) set \<Rightarrow> bool" for G P raddr ok s0 where
  start: "sv_run G P raddr ok s0 (s0, {})"
| round: "sv_run G P raddr ok s0 (s, H) \<Longrightarrow> \<not> sv_closed s \<Longrightarrow> ok s ev \<Longrightarrow> sv_round G P raddr s ev = Some (s', f) \<Longrightarrow>
     sv_run G P raddr ok s0 (s', ev_up P raddr ev \<union> H)"

lemmas sv_run_induct = sv_run.induct [split_format (complete)]

section \<open>What a round does to the routes\<close>

lemma cleanup_loop_routes:
  "cleanup_loop clk k i t ls = Some (t', ls') \<Longrightarrow> downlinkMap t' = downlinkMap t \<and> lm_addr t' = lm_addr t"
proof (induction clk k i t ls rule: cleanup_loop.induct)
  case (1 clk k i t ls)
  show ?case
    using 1(1) [OF _ _ refl _ _ refl] 1(2) [OF _ _ refl _ _ refl] 1(3)
    by (subst (asm) cleanup_loop.simps)
      (auto simp: Let_def split: if_splits option.splits prod.splits)
qed

lemma cleanup_downlinks_routes:
  "downlinkMap (cleanup_downlinks t ls) \<subseteq>\<^sub>m downlinkMap t \<and> lm_addr (cleanup_downlinks t ls) = lm_addr t"
  by (simp add: cleanup_downlinks_eq map_le_def dom_def)

lemma Cleanup_routes:
  assumes "Cleanup ap cl clk t = Some (ap', t', ls)"
  shows "downlinkMap t' \<subseteq>\<^sub>m downlinkMap t \<and> lm_addr t' = lm_addr t"
proof -
  obtain t1 ls1 where l: "cleanup_loop clk 0 0 t [] = Some (t1, ls1)" "t' = t1 \<or> t' = cleanup_downlinks t1 ls1"
    using assms by (auto simp: Cleanup_def Let_def bind_eq_Some_conv split: if_splits)
  with cleanup_loop_routes [OF l(1)] cleanup_downlinks_routes [of t1 ls1] show ?thesis by auto
qed

text \<open>\<open>Add\<close> makes one route at most, for the uplink and the connection it was called with.\<close>

lemma lm_Add_routes:
  assumes "lm_Add ap env t up conn = Some (ap', t', r)"
  shows "lm_addr t' = lm_addr t
    \<and> (\<forall>x k. downlinkMap t' x = Some k \<longrightarrow> downlinkMap t x = Some k
        \<or> (\<exists>p. r = Inr p \<and> x = down_key (lm_addr t) up p \<and> k = \<lparr>dk_conn = conn, dk_port = ap_port (up_process up)\<rparr>))"
proof -
  obtain ap1 t1 ls where c: "Cleanup ap (ae_close env) (ae_clock env) t = Some (ap1, t1, ls)"
    using assms by (auto simp: lm_Add_def bind_eq_Some_conv)
  have t1: "\<forall>x k. downlinkMap t1 x = Some k \<longrightarrow> downlinkMap t x = Some k" "lm_addr t1 = lm_addr t"
    using Cleanup_routes [OF c] by (auto simp: map_le_def dom_def)
  obtain ap2 g where g: "GetPort ap1 (ae_port env) (up_proto up) (up_server up) = Some (ap2, g)"
    using assms c by (auto simp: lm_Add_def bind_eq_Some_conv)
  show ?thesis using assms c g t1 by (cases g) (auto simp: lm_Add_def bind_eq_Some_conv split: if_splits)
qed

definition sv_routes :: "'c server \<Rightarrow> ('c \<times> Uplink) set \<Rightarrow> bool" where
  "sv_routes s H \<longleftrightarrow> (\<forall>x conn port. lm_Downlink (sv_links s) x = Some (conn, port) \<longrightarrow>
     (\<exists>up p. (conn, up) \<in> H \<and> x = down_key (lm_addr (sv_links s)) up p \<and> port = ap_port (up_process up)))"

lemma sv_link_routes:
  assumes "sv_link s env up conn = Some (s', r)" "sv_routes s H"
  shows "sv_routes s' (insert (conn, up) H) \<and> sv_back s' = sv_back s"
proof (cases "uplinkMap (sv_links s) up")
  case (Some d)
  then have "s' = s\<lparr>sv_links := fst (lm_Uplink (sv_links s) up)\<rparr>"
    using assms(1) by (auto simp: sv_link_def lm_Uplink_def Let_def case_prod_unfold)
  moreover have "lm_Downlink (fst (lm_Uplink (sv_links s) up)) = lm_Downlink (sv_links s)"
    "lm_addr (fst (lm_Uplink (sv_links s) up)) = lm_addr (sv_links s)"
    using Some by (auto simp: lm_Uplink_def lm_Downlink_def Let_def case_prod_unfold fun_eq_iff)
  ultimately show ?thesis using assms(2) by (fastforce simp: sv_routes_def)
next
  case None
  then obtain ap t where t: "lm_Add (sv_ap s) env (sv_links s) up conn = Some (ap, t, r)" "s' = s\<lparr>sv_ap := ap, sv_links := t\<rparr>"
    using assms(1) by (auto simp: sv_link_def lm_Uplink_def bind_eq_Some_conv)
  have "\<exists>up' p. (c, up') \<in> insert (conn, up) H \<and> x = down_key (lm_addr (sv_links s)) up' p \<and> port = ap_port (up_process up')"
    if x: "lm_Downlink t x = Some (c, port)" for x c port
  proof -
    from x obtain k where k: "downlinkMap t x = Some k" "c = dk_conn k" "port = dk_port k"
      by (auto simp: lm_Downlink_def split: option.splits)
    from conjunct2 [OF lm_Add_routes [OF t(1)], rule_format, OF k(1)]
    consider "downlinkMap (sv_links s) x = Some k"
      | p where "x = down_key (lm_addr (sv_links s)) up p" "k = \<lparr>dk_conn = conn, dk_port = ap_port (up_process up)\<rparr>" by blast
    then show ?thesis
    proof cases
      case 1
      then have "lm_Downlink (sv_links s) x = Some (c, port)" using k by (simp add: lm_Downlink_def)
      with assms(2) show ?thesis unfolding sv_routes_def by blast
    next
      case 2
      with k assms(2) show ?thesis by (auto simp: sv_routes_def)
    qed
  qed
  with t(2) lm_Add_routes [OF t(1)] assms(2) show ?thesis by (simp add: sv_routes_def)
qed

lemma sv_routes_mono: "sv_routes s H \<Longrightarrow> H \<subseteq> H' \<Longrightarrow> sv_routes s H'"
  unfolding sv_routes_def by blast

lemma sv_routes_frame: "sv_routes s H \<Longrightarrow> sv_links s' = sv_links s \<Longrightarrow> sv_routes s' H"
  by (simp add: sv_routes_def)

lemma sv_close_frame [simp]: "sv_links (sv_close s env) = sv_links s" "sv_laddr (sv_close s env) = sv_laddr s"
  "sv_back (sv_close s env) = sv_back s" "sv_closed (sv_close s env)"
  by (simp_all add: sv_close_def)

text \<open>A round of \<open>serveConn\<close> makes routes for its own connection only and sends nothing back.\<close>

lemma serve_packet_routes:
  assumes G: "gvisor_laws G" "short_laws G"
    and run: "serve_packet G P s client conn peer pkt env = Some (s', f)" and inv: "sv_routes s H"
  shows "sv_routes s' (insert (conn, payload_up client peer (p_bytes P pkt)) H) \<and> sv_back s' = sv_back s"
proof (cases "ds_proto peer = TCP \<or> ds_proto peer = UDP")
  case False
  with run have "s' = s" by (simp add: serve_packet_def Let_def)
  with sv_routes_mono [OF inv] show ?thesis by auto
next
  case True
  let ?b = "p_bytes P pkt" and ?up = "payload_up client peer (p_bytes P pkt)"
  have len: "4 \<le> length ?b"
  proof (rule ccontr)
    assume "\<not> 4 \<le> length ?b"
    then have "g_DestinationPort G (ds_proto peer) ?b = None" using G(2) by (simp add: short_laws_def)
    with run True show False by (auto simp: serve_packet_def Let_def bind_eq_Some_conv)
  qed
  note ports = transport_lawsD(1,2) [OF G(1) True len]
  obtain s1 r where l: "sv_link s (it_add env) ?up conn = Some (s1, r)"
    using run True ports by (auto simp: serve_packet_def Let_def payload_up_def bind_eq_Some_conv)
  note s1 = sv_link_routes [OF l inv]
  have "sv_links s' = sv_links s1 \<and> sv_back s' = sv_back s1"
    using run True ports l by (cases r) (auto simp: serve_packet_def Let_def payload_up_def bind_eq_Some_conv split: if_splits)
  with s1 show ?thesis using sv_routes_frame by metis
qed

text \<open>What the kernel gives to a raw socket: a whole packet, of a transport that is not
  forwarded or with a complete transport header.\<close>

definition net_ok :: "bytes \<Rightarrow> bool" where
  "net_ok b \<longleftrightarrow> 20 \<le> length b \<and> (drop_bit 4 (b ! 0) = 4 \<longrightarrow> v4_wf b
     \<and> (ucast (b ! 9) = TCP \<or> ucast (b ! 9) = (UDP :: proto) \<longrightarrow> min_hdr (ucast (b ! 9)) \<le> v4_total b - v4_hl b))"

definition net_link :: "bytes \<Rightarrow> Downlink" where
  "net_link b = \<lparr>dn_server = s_src (v4_tuple b), dn_proto = s_proto (v4_tuple b), dn_local = s_dst (v4_tuple b)\<rparr>"

lemma StripIP_refuses:
  assumes G: "gvisor_laws G" and b: "20 \<le> length (p_bytes P ip)"
    and n: "drop_bit 4 (p_bytes P ip ! 0) \<noteq> 4 \<or> \<not> (ucast (p_bytes P ip ! 9) = TCP \<or> ucast (p_bytes P ip ! 9) = (UDP :: proto))"
  shows "\<exists>err. link_StripIP G P ip = Some (ip, Inl err)"
proof -
  have "p_bytes P ip \<noteq> []" using b by auto
  then have v: "g_IPVersion G (p_bytes P ip) = 4 \<longleftrightarrow> drop_bit 4 (p_bytes P ip ! 0) = 4"
    using v4_lawsD(1) [OF G] by (simp add: word_uint_eq_iff)
  show ?thesis
  proof (cases "drop_bit 4 (p_bytes P ip ! 0) = 4")
    case True
    with v n v4_lawsD(2) [OF G b] show ?thesis by (simp add: link_StripIP_def Let_def)
  next
    case False
    with v show ?thesis by (simp add: link_StripIP_def Let_def)
  qed
qed

lemma get16_seg: "v4_wf b \<Longrightarrow> k + 2 \<le> v4_total b - v4_hl b \<Longrightarrow> get16 (drop (v4_hl b) b) k = get16 (v4_seg b) k"
  by (simp add: v4_seg_def window_def get16_def)

text \<open>A round of \<open>recvService\<close>: the packet is ignored, given back on the route it names, or the
  server is closed because the trace file cannot be written.\<close>

definition net_flow :: "bytes \<Rightarrow> bool" where
  "net_flow b \<longleftrightarrow> drop_bit 4 (b ! 0) = 4 \<and> (ucast (b ! 9) = TCP \<or> ucast (b ! 9) = (UDP :: proto))"

lemma recv_packet_cases:
  assumes G: "gvisor_laws G" "update_laws G" and P: "packet_laws P" and b: "net_ok (p_bytes P ip)"
  shows "recv_packet G P s ip env = Some (s, Next)
        \<and> (net_flow (p_bytes P ip) \<longrightarrow> lm_Downlink (sv_links s) (net_link (p_bytes P ip)) = None)
    \<or> recv_packet G P s ip env = Some (sv_close s env, Stop) \<and> it_pcap env \<noteq> None
    \<or> (\<exists>conn port y. recv_packet G P s ip env = Some (s\<lparr>sv_back := sv_back s @ [(conn,
           \<lparr>ds_proto = dn_proto (net_link (p_bytes P ip)), ds_dst = ap_addr (dn_server (net_link (p_bytes P ip)))\<rparr>, y)]\<rparr>, Next)
        \<and> net_flow (p_bytes P ip) \<and> lm_Downlink (sv_links s) (net_link (p_bytes P ip)) = Some (conn, port)
        \<and> (dn_proto (net_link (p_bytes P ip)) = TCP \<or> dn_proto (net_link (p_bytes P ip)) = UDP)
        \<and> addr_is4 (ap_addr (dn_server (net_link (p_bytes P ip)))) \<and> min_hdr (dn_proto (net_link (p_bytes P ip))) \<le> length y
        \<and> get16 y 0 = ap_port (dn_server (net_link (p_bytes P ip))) \<and> get16 y 2 = port)"
proof (cases "net_flow (p_bytes P ip)")
  case False
  then obtain err where "link_StripIP G P ip = Some (ip, Inl err)"
    using StripIP_refuses [OF G(1), of P ip] b by (auto simp: net_ok_def net_flow_def)
  with False show ?thesis by (simp add: recv_packet_def)
next
  case True
  let ?b = "p_bytes P ip" and ?pr = "ucast (p_bytes P ip ! 9) :: proto"
  have wf: "v4_wf ?b" and pr: "?pr = TCP \<or> ?pr = UDP" and len: "min_hdr ?pr \<le> v4_total ?b - v4_hl ?b"
    using b True by (auto simp: net_ok_def net_flow_def)
  have l4: "4 \<le> v4_total ?b - v4_hl ?b" using len by (simp add: min_hdr_def split: if_splits)
  have strip: "link_StripIP G P ip = Some (p_SetHead P ip (p_head P ip + v4_hl ?b), Inr (net_link ?b))"
    using link_StripIP_v4 [OF G(1) wf pr l4] by (simp add: net_link_def)
  have seg: "p_bytes P (p_SetHead P ip (p_head P ip + v4_hl ?b)) = drop (v4_hl ?b) ?b"
    using packet_lawsD(3) [OF P] v4_wfD(5) [OF wf] by simp
  have llen: "min_hdr ?pr \<le> length (drop (v4_hl ?b) ?b)" using len wf by (auto simp: v4_wf_def)
  have d: "dn_proto (net_link ?b) = ?pr" "addr_is4 (ap_addr (dn_server (net_link ?b)))"
    "ap_port (dn_server (net_link ?b)) = get16 (drop (v4_hl ?b) ?b) 0"
    using get16_seg [OF wf, of 0] l4 by (simp_all add: net_link_def v4_tuple_def v4_addr_def)
  have put: "g_SetDestinationPort G ?pr (drop (v4_hl ?b) ?b) v = Some (set16 (drop (v4_hl ?b) ?b) 2 v)" for v
    by (rule update_lawD [OF G(2) pr llen])
  have "4 \<le> length (drop (v4_hl ?b) ?b)" using llen by (simp add: min_hdr_def split: if_splits)
  then have ports: "get16 (set16 (drop (v4_hl ?b) ?b) 2 v) 0 = get16 (drop (v4_hl ?b) ?b) 0"
    "get16 (set16 (drop (v4_hl ?b) ?b) 2 v) 2 = v" for v
    by (simp_all add: get16_set16_other get16_set16)
  show ?thesis
  proof (cases "lm_Downlink (sv_links s) (net_link ?b)")
    case None
    with strip show ?thesis by (simp add: recv_packet_def)
  next
    case (Some r)
    then obtain conn port where r: "lm_Downlink (sv_links s) (net_link ?b) = Some (conn, port)" by (cases r) auto
    show ?thesis
    proof (cases "sv_pcap s \<and> it_pcap env \<noteq> None")
      case True
      with strip r show ?thesis by (simp add: recv_packet_def)
    next
      case False
      then have "recv_packet G P s ip env = Some (s\<lparr>sv_back := sv_back s @ [(conn,
           \<lparr>ds_proto = dn_proto (net_link ?b), ds_dst = ap_addr (dn_server (net_link ?b))\<rparr>, set16 (drop (v4_hl ?b) ?b) 2 port)]\<rparr>, Next)"
        using strip r seg d(1) pr put by (auto simp: recv_packet_def Let_def)
      moreover have "min_hdr (dn_proto (net_link ?b)) \<le> length (set16 (drop (v4_hl ?b) ?b) 2 port)" using llen d(1) by simp
      ultimately show ?thesis using r pr d ports True by metis
    qed
  qed
qed

section \<open>Replies go home\<close>

text \<open>What was sent back is owed to a packet of the same connection.\<close>

definition sent_home :: "('c \<Rightarrow> addr) \<Rightarrow> ('c \<times> Uplink) set \<Rightarrow> 'c \<times> defaultSession \<times> bytes \<Rightarrow> bool" where
  "sent_home raddr H e \<longleftrightarrow> (case e of (conn, peer, b) \<Rightarrow>
     \<exists>up. (conn, up) \<in> H \<and> ap_addr (up_process up) = raddr conn
       \<and> peer = \<lparr>ds_proto = up_proto up, ds_dst = ap_addr (up_server up)\<rparr>
       \<and> get16 b 0 = ap_port (up_server up) \<and> get16 b 2 = ap_port (up_process up))"

definition home_inv :: "('c \<Rightarrow> addr) \<Rightarrow> 'c server \<Rightarrow> ('c \<times> Uplink) set \<Rightarrow> bool" where
  "home_inv raddr s H \<longleftrightarrow> sv_routes s H \<and> (\<forall>(conn, up) \<in> H. ap_addr (up_process up) = raddr conn)
     \<and> (\<forall>e \<in> set (sv_back s). sent_home raddr H e)"

lemma sent_home_mono: "sent_home raddr H e \<Longrightarrow> H \<subseteq> H' \<Longrightarrow> sent_home raddr H' e"
  unfolding sent_home_def by (cases e) blast

lemma NewServer_fields:
  assumes "NewServer laddr pcap n = Some s"
  shows "lm_addr (sv_links s) = addr_no_zone laddr" "sv_laddr s = laddr" "lm_Downlink (sv_links s) x = None" "uplinkMap (sv_links s) = Map.empty"
    "sv_back s = []" "sv_sent s = []" "\<not> sv_closed s"
  using assms
  by (auto simp: NewServer_def NewLinkManager_def newLinkManager_def ap_Addr_def NewAdapter_def NewMgr_def mgr_Addr_def
      lm_Downlink_def bind_eq_Some_conv addr_from_slice_slice split: if_splits)

lemma home_round:
  assumes G: "gvisor_laws G" "update_laws G" "short_laws G" and P: "packet_laws P"
    and inv: "home_inv raddr s H" and ok: "\<And>ip env. ev = FromNet ip env \<Longrightarrow> net_ok (p_bytes P ip)"
    and run: "sv_round G P raddr s ev = Some (s', f)"
  shows "home_inv raddr s' (ev_up P raddr ev \<union> H)"
proof (cases ev)
  case (FromClient conn peer pkt env)
  let ?up = "payload_up (raddr conn) peer (p_bytes P pkt)"
  have "sv_routes s' (insert (conn, ?up) H) \<and> sv_back s' = sv_back s"
    using serve_packet_routes [OF G(1,3), of P s "raddr conn" conn peer pkt env s' f H] run inv FromClient
    by (simp add: sv_round_def home_inv_def)
  moreover have "ap_addr (up_process ?up) = raddr conn" by (simp add: payload_up_def)
  moreover have "sent_home raddr (insert (conn, ?up) H) e" if "e \<in> set (sv_back s)" for e
    using inv that by (auto simp: home_inv_def intro: sent_home_mono)
  ultimately show ?thesis using inv FromClient by (auto simp: home_inv_def)
next
  case (FromNet ip env)
  let ?l = "net_link (p_bytes P ip)"
  have r: "recv_packet G P s ip env = Some (s', f)" using run FromNet by (simp add: sv_round_def)
  have inv': "home_inv raddr (s\<lparr>sv_back := sv_back s @ [(conn, \<lparr>ds_proto = dn_proto ?l, ds_dst = ap_addr (dn_server ?l)\<rparr>, y)]\<rparr>) H"
    if d: "lm_Downlink (sv_links s) ?l = Some (conn, port)" "get16 y 0 = ap_port (dn_server ?l)" "get16 y 2 = port" for conn port y
  proof -
    obtain up p where u: "(conn, up) \<in> H" "?l = down_key (lm_addr (sv_links s)) up p" "port = ap_port (up_process up)"
      using inv d(1) unfolding home_inv_def sv_routes_def by blast
    then have "sent_home raddr H (conn, \<lparr>ds_proto = dn_proto ?l, ds_dst = ap_addr (dn_server ?l)\<rparr>, y)"
      using inv d(2,3) by (auto simp: sent_home_def home_inv_def down_key_def intro!: exI [of _ up])
    with inv show ?thesis by (auto simp: home_inv_def intro: sv_routes_frame)
  qed
  have "home_inv raddr (sv_close s env) H" using inv by (auto simp: home_inv_def intro: sv_routes_frame)
  with recv_packet_cases [OF G(1,2) P ok [OF FromNet], of s env] r inv inv' FromNet show ?thesis by auto
qed

text \<open>
  C3. Replies go home. In every run of a server, whatever packets its connections send and
  whatever well-formed packets arrive from the network, each reply handed to a connection
  answers a packet that came on that same connection: it names the remote the packet went
  to, comes from the remote's port, and is addressed to the port of the process that sent it.
  No connection ever sees the traffic of another.
\<close>

theorem server_replies_go_home:
  assumes "gvisor_laws G" "update_laws G" "short_laws G" "packet_laws P"
    and "NewServer laddr pcap n = Some s0"
    and "\<forall>s ip env. ok s (FromNet ip env) \<longrightarrow> net_ok (p_bytes P ip)"
    and "sv_run G P raddr ok s0 (s, H)" "(conn, peer, b) \<in> set (sv_back s)"
  shows "\<exists>up. (conn, up) \<in> H \<and> ap_addr (up_process up) = raddr conn
    \<and> peer = \<lparr>ds_proto = up_proto up, ds_dst = ap_addr (up_server up)\<rparr>
    \<and> get16 b 0 = ap_port (up_server up) \<and> get16 b 2 = ap_port (up_process up)"
proof -
  have "home_inv raddr s H" using assms(7)
  proof (induction rule: sv_run_induct)
    case start
    show ?case using NewServer_fields [OF assms(5)] by (simp add: home_inv_def sv_routes_def)
  next
    case (round s H ev s' f)
    then show ?case using home_round [OF assms(1-4) round.IH _ round.hyps(4)] assms(6) by blast
  qed
  with assms(8) show ?thesis by (auto simp: home_inv_def sent_home_def)
qed

section \<open>Well-typed servers\<close>

text \<open>Everything that the server keeps or has given away is what the rest of the program takes
  it for.\<close>

definition sv_typed :: "'c server \<Rightarrow> bool" where
  "sv_typed s \<longleftrightarrow> addr_is4 (sv_laddr s) \<and> lm_addr (sv_links s) = sv_laddr s \<and> lm_inv (sv_ap s) (sv_links s)
     \<and> (\<forall>ip \<in> set (sv_sent s). v4_wf ip \<and> hdr_sum_ok ip \<and> window (12, 4) ip = addr_slice (sv_laddr s))
     \<and> (\<forall>(conn, peer, b) \<in> set (sv_back s). ds_Valid (Some peer) \<and> min_hdr (ds_proto peer) \<le> length b)"

text \<open>Input that the other parts promise: a client's segment with a complete header, answers of
  the system to an allocation, and packets of the kernel. The last line is the room of a use
  counter.\<close>

definition ev_ok :: "'p packet_api \<Rightarrow> ('c \<Rightarrow> addr) \<Rightarrow> 'c server \<Rightarrow> ('c, 'p) event \<Rightarrow> bool" where
  "ev_ok P raddr s ev = (case ev of
     FromNet ip env \<Rightarrow> net_ok (p_bytes P ip)
   | FromClient conn peer pkt env \<Rightarrow>
       let b = p_bytes P pkt; up = payload_up (raddr conn) peer b in
       addr_valid (raddr conn) \<and> addr_is4 (ds_dst peer) \<and> min_hdr (ds_proto peer) \<le> length b \<and> length b + 20 < 65536
       \<and> (case uplinkMap (sv_links s) up of
            None \<Rightarrow> add_env_ok (sv_ap s) (it_add env) (sv_links s) up
          | Some d \<Rightarrow> port_uses d < 2 ^ 48 - 1))"

lemma NewServer_typed: "NewServer laddr pcap n = Some s \<Longrightarrow> addr_is4 laddr \<Longrightarrow> sv_typed s"
proof -
  assume n: "NewServer laddr pcap n = Some s" and a: "addr_is4 laddr"
  note f = NewServer_fields [OF n]
  obtain ap t where t: "NewAdapter laddr = Some ap" "newLinkManager ap (30 * 10 ^ 9) = Some t" "sv_ap s = (ap, {})" "sv_links s = t"
    using n by (auto simp: NewServer_def NewLinkManager_def bind_eq_Some_conv)
  have "lm_inv (ap, {}) t" using newLinkManager_inv [of "(ap, {})" "30 * 10 ^ 9" t] NewAdapter_inv [OF t(1), of "{}"] t(2) by simp
  with f t a show ?thesis by (cases laddr) (simp_all add: sv_typed_def)
qed

text \<open>The link of a well-typed server for input that is well-typed.\<close>

lemma sv_link_typed:
  assumes s: "sv_typed s" and up: "up_proto up = TCP \<or> up_proto up = UDP" "ap_valid (up_process up)"
    and env: "case uplinkMap (sv_links s) up of None \<Rightarrow> add_env_ok (sv_ap s) e (sv_links s) up | Some d \<Rightarrow> port_uses d < 2 ^ 48 - 1"
  shows "\<exists>s' r. sv_link s e up conn = Some (s', r) \<and> sv_typed s' \<and> sv_sent s' = sv_sent s \<and> sv_laddr s' = sv_laddr s
    \<and> sv_ip4id s' = sv_ip4id s \<and> sv_pcap s' = sv_pcap s"
proof (cases "uplinkMap (sv_links s) up")
  case None
  have inv: "lm_inv (sv_ap s) (sv_links s)" using s by (simp add: sv_typed_def)
  obtain ap t r where l: "sv_link s e up conn = Some (s\<lparr>sv_ap := ap, sv_links := t\<rparr>, r)" "lm_inv ap t" "lm_addr t = lm_addr (sv_links s)"
    using sv_link_new [OF inv _ up(1) None up(2), of e conn] env None by auto
  then show ?thesis using s by (intro exI [of _ "s\<lparr>sv_ap := ap, sv_links := t\<rparr>"]) (auto simp: sv_typed_def)
next
  case (Some d)
  let ?t = "fst (lm_Uplink (sv_links s) up)"
  have inv: "lm_inv (sv_ap s) ?t" and r: "snd (lm_Uplink (sv_links s) up) = Some (port_num d)"
    using lm_Uplink_ok [of "sv_ap s" "sv_links s" up] s env Some by (simp_all add: sv_typed_def)
  have "lm_addr ?t = lm_addr (sv_links s)" using Some by (simp add: lm_Uplink_def Let_def case_prod_unfold)
  moreover have "sv_link s e up conn = Some (s\<lparr>sv_links := ?t\<rparr>, Inr (port_num d))"
    using r by (simp add: sv_link_def case_prod_unfold)
  ultimately show ?thesis using s inv by (intro exI [of _ "s\<lparr>sv_links := ?t\<rparr>"]) (auto simp: sv_typed_def)
qed

text \<open>Progress and preservation of one round.\<close>

definition round_typed :: "('c server \<times> flow) option \<Rightarrow> bool" where
  "round_typed r \<longleftrightarrow> (\<exists>s f. r = Some (s, f) \<and> (if f = Next then sv_typed s else sv_closed s))"

lemma round_typed_simps [simp]: "round_typed (Some (s, Next)) \<longleftrightarrow> sv_typed s" "round_typed (Some (s, Stop)) \<longleftrightarrow> sv_closed s"
  by (simp_all add: round_typed_def)

text \<open>Errors of the environment end a round that goes well without them by closing.\<close>

lemma serve_env:
  assumes run: "serve_packet G P s client conn peer pkt (env\<lparr>it_pcap := None, it_send := None\<rparr>) = Some (s', Next)"
  shows "serve_packet G P s client conn peer pkt env = Some (s', Next)
    \<or> (\<exists>t. serve_packet G P s client conn peer pkt env = Some (sv_close t env, Stop))"
proof (cases "ds_proto peer = TCP \<or> ds_proto peer = UDP")
  case False
  with run show ?thesis by (simp add: serve_packet_def Let_def)
next
  case pr: True
  let ?b = "p_bytes P pkt"
  obtain sp dp s1 r where l: "g_SourcePort G (ds_proto peer) ?b = Some sp" "g_DestinationPort G (ds_proto peer) ?b = Some dp"
    "sv_link s (it_add env) \<lparr>up_process = AddrPort client sp, up_proto = ds_proto peer, up_server = AddrPort (ds_dst peer) dp\<rparr> conn = Some (s1, r)"
    using run pr by (auto simp: serve_packet_def Let_def bind_eq_Some_conv)
  show ?thesis
  proof (cases r)
    case (Inl e)
    with run pr l show ?thesis by (auto simp: serve_packet_def Let_def)
  next
    case (Inr port)
    obtain n ip where "ck_Server G P (sv_ip4id s1) pkt \<lparr>dn_server = AddrPort (ds_dst peer) dp, dn_proto = ds_proto peer, dn_local = AddrPort (sv_laddr s1) port\<rparr> = Some (n, ip)"
      using run pr l Inr by (auto simp: serve_packet_def Let_def bind_eq_Some_conv)
    with run pr l Inr show ?thesis by (auto simp: serve_packet_def Let_def split: if_splits)
  qed
qed

text \<open>A round of \<open>serveConn\<close> on well-typed input: the link is found or made, or refused; with a
  link the packet goes out from its port, or an error closes the server.\<close>

lemma serve_packet_cases:
  assumes G: "gvisor_laws G" and P: "packet_laws P" and s: "sv_typed s"
    and ok: "ev_ok P raddr s (FromClient conn peer pkt env)" and pr: "ds_proto peer = TCP \<or> ds_proto peer = UDP"
  shows "\<exists>s1 r. sv_link s (it_add env) (payload_up (raddr conn) peer (p_bytes P pkt)) conn = Some (s1, r)
    \<and> sv_typed s1 \<and> sv_sent s1 = sv_sent s \<and> sv_laddr s1 = sv_laddr s
    \<and> (case r of
         Inl err \<Rightarrow> serve_packet G P s (raddr conn) conn peer pkt env = Some (s1, Next)
       | Inr port \<Rightarrow> \<exists>ip. forwarded (sv_laddr s) port peer (p_bytes P pkt) ip
           \<and> (serve_packet G P s (raddr conn) conn peer pkt env
                = Some (s1\<lparr>sv_ip4id := sv_ip4id s + 1, sv_sent := sv_sent s @ [ip]\<rparr>, Next)
              \<or> (\<exists>t. serve_packet G P s (raddr conn) conn peer pkt env = Some (sv_close t env, Stop))))"
proof -
  let ?b = "p_bytes P pkt" and ?up = "payload_up (raddr conn) peer (p_bytes P pkt)"
  let ?env = "env\<lparr>it_pcap := None, it_send := None\<rparr>"
  have i: "addr_valid (raddr conn)" "addr_is4 (ds_dst peer)" "min_hdr (ds_proto peer) \<le> length ?b" "length ?b + 20 < 65536"
    "case uplinkMap (sv_links s) ?up of None \<Rightarrow> add_env_ok (sv_ap s) (it_add env) (sv_links s) ?up | Some d \<Rightarrow> port_uses d < 2 ^ 48 - 1"
    using ok by (simp_all add: ev_ok_def Let_def)
  have up: "up_proto ?up = TCP \<or> up_proto ?up = UDP" "ap_valid (up_process ?up)"
    using pr i(1) by (simp_all add: payload_up_def ap_valid_def)
  have "4 \<le> length ?b" using i(3) by (simp add: min_hdr_def split: if_splits)
  note ports = transport_lawsD(1,2) [OF G pr this]
  obtain s1 r where l: "sv_link s (it_add env) ?up conn = Some (s1, r)" "sv_typed s1" "sv_sent s1 = sv_sent s"
    "sv_laddr s1 = sv_laddr s" "sv_ip4id s1 = sv_ip4id s" "sv_pcap s1 = sv_pcap s"
    using sv_link_typed [OF s up i(5), of conn] by (elim exE conjE)
  show ?thesis
  proof (cases r)
    case (Inl err)
    have "serve_packet G P s (raddr conn) conn peer pkt env = Some (s1, Next)"
      using pr ports l(1) Inl by (auto simp: serve_packet_def payload_up_def Let_def)
    with l Inl show ?thesis by auto
  next
    case (Inr port)
    have a: "addr_is4 (sv_laddr s)" using s by (simp add: sv_typed_def)
    have l': "sv_link s (it_add ?env) ?up conn = Some (s1, Inr port)" using l(1) Inr by simp
    obtain ip where ip: "serve_packet G P s (raddr conn) conn peer pkt ?env
        = Some (s1\<lparr>sv_ip4id := sv_ip4id s + 1, sv_sent := sv_sent s @ [ip]\<rparr>, Next)" "forwarded (sv_laddr s) port peer ?b ip"
      using serve_forwards [OF G P pr a i(2-4) _ _ l' l(4-6,3)] by auto
    with serve_env [OF ip(1)] l Inr show ?thesis by auto
  qed
qed

lemma serve_packet_typed:
  assumes "gvisor_laws G" "packet_laws P" "sv_typed s" "ev_ok P raddr s (FromClient conn peer pkt env)"
  shows "round_typed (serve_packet G P s (raddr conn) conn peer pkt env)"
proof (cases "ds_proto peer = TCP \<or> ds_proto peer = UDP")
  case False
  then have "serve_packet G P s (raddr conn) conn peer pkt env = Some (s, Next)" by (simp add: serve_packet_def Let_def)
  with assms(3) show ?thesis by (simp add: round_typed_def)
next
  case True
  obtain s1 r where l: "sv_link s (it_add env) (payload_up (raddr conn) peer (p_bytes P pkt)) conn = Some (s1, r)"
    and s1: "sv_typed s1" "sv_sent s1 = sv_sent s" "sv_laddr s1 = sv_laddr s"
    "case r of
         Inl err \<Rightarrow> serve_packet G P s (raddr conn) conn peer pkt env = Some (s1, Next)
       | Inr port \<Rightarrow> \<exists>ip. forwarded (sv_laddr s) port peer (p_bytes P pkt) ip
           \<and> (serve_packet G P s (raddr conn) conn peer pkt env
                = Some (s1\<lparr>sv_ip4id := sv_ip4id s + 1, sv_sent := sv_sent s @ [ip]\<rparr>, Next)
              \<or> (\<exists>t. serve_packet G P s (raddr conn) conn peer pkt env = Some (sv_close t env, Stop)))"
    using serve_packet_cases [OF assms True] by (elim exE conjE)
  have "sv_typed (s1\<lparr>sv_ip4id := n, sv_sent := sv_sent s @ [ip]\<rparr>)" if "forwarded (sv_laddr s) port peer b ip" for n ip port b
    using that s1(1-3) by (auto simp: sv_typed_def forwarded_def)
  with s1(1,4) show ?thesis by (cases r) auto
qed

lemma recv_packet_typed:
  assumes G: "gvisor_laws G" "update_laws G" and P: "packet_laws P" and s: "sv_typed s" and ok: "net_ok (p_bytes P ip)"
  shows "round_typed (recv_packet G P s ip env)"
proof -
  let ?l = "net_link (p_bytes P ip)"
  let ?s = "\<lambda>conn y. s\<lparr>sv_back := sv_back s @ [(conn, \<lparr>ds_proto = dn_proto ?l, ds_dst = ap_addr (dn_server ?l)\<rparr>, y)]\<rparr>"
  have t: "sv_typed (?s conn y)" if "min_hdr (dn_proto ?l) \<le> length y" "addr_is4 (ap_addr (dn_server ?l))"
    "dn_proto ?l = TCP \<or> dn_proto ?l = UDP" for conn y
    using that s by (auto simp: sv_typed_def ds_Valid_def)
  consider "recv_packet G P s ip env = Some (s, Next)" | "recv_packet G P s ip env = Some (sv_close s env, Stop)"
    | conn y where "recv_packet G P s ip env = Some (?s conn y, Next)" "sv_typed (?s conn y)"
    using recv_packet_cases [OF G P ok, of s env] t by blast
  then show ?thesis using s by cases (simp_all add: round_typed_def)
qed

lemma round_progress:
  assumes "gvisor_laws G" "update_laws G" "packet_laws P" "sv_typed s" "ev_ok P raddr s ev"
  shows "round_typed (sv_round G P raddr s ev)"
proof (cases ev)
  case (FromClient conn peer pkt env)
  with serve_packet_typed [OF assms(1,3,4), of raddr conn peer pkt env] assms(5) show ?thesis by (simp add: sv_round_def)
next
  case (FromNet ip env)
  with recv_packet_typed [OF assms(1-4)] assms(5) show ?thesis by (simp add: sv_round_def ev_ok_def)
qed

lemma run_typed:
  assumes "gvisor_laws G" "update_laws G" "packet_laws P" "sv_typed s0" "sv_run G P raddr (ev_ok P raddr) s0 (s, H)"
  shows "sv_closed s \<or> sv_typed s"
  using assms(5)
proof (induction rule: sv_run_induct)
  case start
  show ?case using assms(4) ..
next
  case (round s H ev s' f)
  then have "round_typed (sv_round G P raddr s ev)" using round_progress [OF assms(1-3)] by blast
  with round.hyps(4) show ?case by (auto simp: round_typed_def split: if_splits)
qed

text \<open>
  C5. Well-typed servers do not go wrong. A server made for an IPv4 address stays well-typed in
  every run over well-typed input until it is closed: the invariant of the links holds, every
  packet sent is a well-formed IPv4 packet of the server's with a valid header checksum, and
  every reply handed to a connection is for a valid peer and has a complete transport header.
  And the next round on well-typed input does not panic; it ends well-typed or closes the server.
\<close>

theorem server_type_sound:
  assumes "gvisor_laws G" "update_laws G" "packet_laws P"
    and "NewServer laddr pcap n = Some s0" "addr_is4 laddr"
    and "sv_run G P raddr (ev_ok P raddr) s0 (s, H)" "\<not> sv_closed s"
  shows "sv_typed s \<and> (\<forall>ev. ev_ok P raddr s ev \<longrightarrow>
    (\<exists>s' f. sv_round G P raddr s ev = Some (s', f) \<and> (if f = Next then sv_typed s' else sv_closed s')))"
proof -
  have "sv_closed s \<or> sv_typed s" by (rule run_typed [OF assms(1-3) NewServer_typed [OF assms(4,5)] assms(6)])
  with assms(7) have "sv_typed s" by blast
  with round_progress [OF assms(1-3) this] show ?thesis by (simp add: round_typed_def)
qed

section \<open>A run\<close>

text \<open>A new server, a segment of a client to 8.8.8.9, and the answer to port 5000.\<close>

definition w_new :: "Adapter \<Rightarrow> string linkManager \<Rightarrow> listener set \<Rightarrow> string server" where
  "w_new ap t os = \<lparr>sv_laddr = w_addr, sv_ap = (ap, os), sv_links = t, sv_ip4id = 0, sv_pcap = False,
     sv_closed = False, sv_sent = [], sv_back = []\<rparr>"

definition w_lm2 :: "(Uplink \<times> u16 \<times> string) list \<Rightarrow> ttlkey list \<Rightarrow> nat \<Rightarrow> string linkManager" where
  "w_lm2 ups q n = (w_lm ups ups q 0 n)\<lparr>duration := 30 * 10 ^ 9\<rparr>"

definition w_itn :: sv_env where
  "w_itn = w_it\<lparr>it_add := w_ae [] 5000 60\<rparr>"

lemma w_NewServer: "NewServer w_addr False 0 = Some (w_new (fst (w_ad [])) (w_lm2 [] (replicate 64 zero_ttlkey) 0) {})"
  by (simp add: NewServer_def NewLinkManager_def newLinkManager_def ap_Addr_def NewAdapter_def NewMgr_def mgr_Addr_def
      w_addr_def w_new_def w_ad_def w_lm2_def w_lm_def NewHeap_def addr_from_slice_def)

lemma w_add_new: "lm_Add (fst (w_ad []), {}) (w_ae [] 5000 60) (w_lm2 [] (replicate 64 zero_ttlkey) 0) (w_up 4001 9) ''conn''
    = Some (w_ad [(5000, [w_remote 9])], w_lm2 [(w_up 4001 9, 5000, ''conn'')] (w_tk (w_up 4001 9) 60 # replicate 63 zero_ttlkey) 1, Inr 5000)"
proof -
  have n: "(64 :: nat) = Suc 63" by simp
  have r: "replicate 64 zero_ttlkey = zero_ttlkey # replicate 63 zero_ttlkey" unfolding n by (rule replicate_Suc)
  show ?thesis unfolding r by (simp add: w_eval w_lm2_def)
qed

definition w_reply9 :: bytes where
  "w_reply9 = [0x45, 0, 0, 40, 0, 0, 0, 0, 64, 6, 0, 0, 8, 8, 8, 9, 10, 0, 0, 1]
     @ [0, 80, 19, 136, 0, 0, 0, 1, 0, 0, 0, 0, 0x50, 18, 255, 255, 0, 0, 0, 0]"

lemma w_reply9: "reply_to w_addr 5000 (w_up 4001 9) w_reply9" "net_ok w_reply9"
proof -
  have hl: "v4_hl w_reply9 = 20" by (simp add: v4_hl_def w_reply9_def)
  have t: "v4_total w_reply9 = 40" by (simp add: v4_total_def get16_def w_reply9_def be16_def)
  have l: "length w_reply9 = 40" by (simp add: w_reply9_def)
  have wf: "v4_wf w_reply9" using hl t l by (simp add: v4_wf_def) (simp add: w_reply9_def)
  have seg: "v4_seg w_reply9 = [0, 80, 19, 136, 0, 0, 0, 1, 0, 0, 0, 0, 0x50, 18, 255, 255, 0, 0, 0, 0]"
    using hl t by (simp add: v4_seg_def window_def w_reply9_def)
  show "reply_to w_addr 5000 (w_up 4001 9) w_reply9"
    unfolding reply_to_def using wf hl t l seg
    by (simp add: w_up_def w_remote_def w_addr_def min_hdr_def get16_def be16_def v4_addr_def) (simp add: w_reply9_def)
  show "net_ok w_reply9" using wf hl t l by (simp add: net_ok_def min_hdr_def)
qed

definition w_s0 :: "string server" where
  "w_s0 = w_new (fst (w_ad [])) (w_lm2 [] (replicate 64 zero_ttlkey) 0) {}"

abbreviation w_raddr :: "string \<Rightarrow> addr" where "w_raddr \<equiv> \<lambda>c. w_client"

definition w_packet :: "(string, bytes \<times> bytes) event" where
  "w_packet = FromClient ''conn'' (w_to 9) ([], w_seg 161) w_itn"

definition w_answer :: "(string, bytes \<times> bytes) event" where
  "w_answer = FromNet ([], w_reply9) w_itn"

lemma w_s0_fields: "sv_laddr w_s0 = w_addr" "sv_ip4id w_s0 = 0" "sv_pcap w_s0 = False" "sv_sent w_s0 = []" "sv_back w_s0 = []"
  "sv_closed w_s0 = False" "uplinkMap (sv_links w_s0) = Map.empty"
  by (simp_all add: w_s0_def w_new_def w_lm2_def w_lm_def)

lemma w_itn_fields: "it_add w_itn = w_ae [] 5000 60" "it_pcap w_itn = None" "it_send w_itn = None"
  by (simp_all add: w_itn_def w_it_def)

lemma w_packet_ok: "ev_ok framed w_raddr w_s0 w_packet"
proof -
  have "add_env_ok (sv_ap w_s0) (w_ae [] 5000 60) (sv_links w_s0) (w_up 4001 9)"
    by (simp add: add_env_ok_def w_s0_def w_new_def w_lm2_def w_eval get_env_def range_of_def listen_ok_def)
  with w_forward_facts show ?thesis
    by (simp add: ev_ok_def w_packet_def Let_def w_payload_up w_itn_fields w_s0_fields)
qed

lemma w_run: "\<exists>s H b. sv_run rfc framed w_raddr (ev_ok framed w_raddr) w_s0 (s, H) \<and> \<not> sv_closed s
    \<and> (''conn'', w_to 9, b) \<in> set (sv_back s)"
proof -
  note F = w_forward_facts
  let ?t = "w_lm2 [(w_up 4001 9, 5000, ''conn'')] (w_tk (w_up 4001 9) 60 # replicate 63 zero_ttlkey) 1"
  let ?s1 = "w_s0\<lparr>sv_ap := w_ad [(5000, [w_remote 9])], sv_links := ?t\<rparr>"
  have l: "sv_link w_s0 (it_add w_itn) (payload_up w_client (w_to 9) (p_bytes framed ([], w_seg 161))) ''conn'' = Some (?s1, Inr 5000)"
    using w_add_new
    by (simp add: sv_link_def lm_Uplink_def w_s0_fields F(8) w_payload_up w_itn_fields) (simp add: w_s0_def w_new_def)
  have a: "addr_is4 (sv_laddr w_s0)" by (simp add: w_s0_fields w_addr_def)
  obtain ip where ip: "serve_packet rfc framed w_s0 w_client ''conn'' (w_to 9) ([], w_seg 161) w_itn
      = Some (?s1\<lparr>sv_ip4id := sv_ip4id w_s0 + 1, sv_sent := sv_sent w_s0 @ [ip]\<rparr>, Next)"
    using serve_forwards [OF rfc_laws framed_laws F(4) a F(2) F(6,7) w_itn_fields(2,3) l] by auto
  let ?s2 = "?s1\<lparr>sv_ip4id := sv_ip4id w_s0 + 1, sv_sent := sv_sent w_s0 @ [ip]\<rparr>"
  have r1: "sv_run rfc framed w_raddr (ev_ok framed w_raddr) w_s0 (?s2, ev_up framed w_raddr w_packet \<union> {})"
    using ip by (intro sv_run.round [where s = w_s0 and s' = ?s2 and f = Next] sv_run.start w_packet_ok)
      (simp_all add: w_s0_fields sv_round_def w_packet_def)
  have d: "lm_addr (sv_links ?s2) = w_addr"
    "lm_Downlink (sv_links ?s2) (down_key (lm_addr (sv_links ?s2)) (w_up 4001 9) 5000) = Some (''conn'', 4001)"
    by (simp_all add: w_lm2_def w_lm_def lm_Downlink_def) (simp add: w_up_def)
  have up: "up_proto (w_up 4001 9) = TCP" "\<lparr>ds_proto = up_proto (w_up 4001 9), ds_dst = ap_addr (up_server (w_up 4001 9))\<rparr> = w_to 9"
    by (simp_all add: w_up_def w_remote_def w_to_def)
  have b: "p_bytes framed ([], w_reply9) = w_reply9" by (simp add: framed_def)
  have "\<exists>s3. recv_packet rfc framed ?s2 ([], w_reply9) w_itn = Some (s3, Next) \<and> sv_closed s3 = False
      \<and> sv_back s3 = [(''conn'', w_to 9, set16 (v4_seg w_reply9) 2 4001)]"
    using recv_returns [OF rfc_laws rfc_update_laws framed_laws _ _ d(2) w_itn_fields(2), of "([], w_reply9)"] w_reply9(1) up b d(1)
    by (simp add: w_s0_fields)
  then obtain s3 where s3: "recv_packet rfc framed ?s2 ([], w_reply9) w_itn = Some (s3, Next)" "sv_closed s3 = False"
      "sv_back s3 = [(''conn'', w_to 9, set16 (v4_seg w_reply9) 2 4001)]" by (elim exE conjE)
  have "ev_ok framed w_raddr ?s2 w_answer" using w_reply9(2) by (simp add: ev_ok_def w_answer_def b)
  from sv_run.round [OF r1 _ this, of s3 Next] s3 show ?thesis
    by (intro exI [of _ s3]) (auto simp: w_s0_fields sv_round_def w_answer_def)
qed

lemma w_NewServer_s0: "NewServer w_addr False 0 = Some w_s0"
  by (simp add: w_NewServer w_s0_def)

theorem server_replies_go_home_witness:
  "\<exists>s H b up. sv_run rfc framed w_raddr (ev_ok framed w_raddr) w_s0 (s, H) \<and> (''conn'', w_to 9, b) \<in> set (sv_back s)
    \<and> (''conn'', up) \<in> H \<and> get16 b 2 = ap_port (up_process up)"
proof -
  obtain s H b where r: "sv_run rfc framed w_raddr (ev_ok framed w_raddr) w_s0 (s, H)" "(''conn'', w_to 9, b) \<in> set (sv_back s)"
    using w_run by blast
  have ok: "\<forall>s ip env. ev_ok framed w_raddr s (FromNet ip env) \<longrightarrow> net_ok (p_bytes framed ip)"
    by (simp add: ev_ok_def)
  from server_replies_go_home [OF rfc_laws rfc_update_laws rfc_short_laws framed_laws w_NewServer_s0 ok r] r show ?thesis by blast
qed

theorem server_type_sound_witness:
  "\<exists>s H. sv_run rfc framed w_raddr (ev_ok framed w_raddr) w_s0 (s, H) \<and> sv_back s \<noteq> [] \<and> sv_typed s
    \<and> (\<exists>s' f. sv_round rfc framed w_raddr s w_answer = Some (s', f))"
proof -
  obtain s H b where r: "sv_run rfc framed w_raddr (ev_ok framed w_raddr) w_s0 (s, H)" "\<not> sv_closed s"
    "(''conn'', w_to 9, b) \<in> set (sv_back s)"
    using w_run by blast
  have "addr_is4 w_addr" by (simp add: w_addr_def)
  note t = server_type_sound [OF rfc_laws rfc_update_laws framed_laws w_NewServer_s0 this r(1,2)]
  have "ev_ok framed w_raddr s w_answer" using w_reply9(2) by (simp add: ev_ok_def w_answer_def framed_def)
  with t have "\<exists>s' f. sv_round rfc framed w_raddr s w_answer = Some (s', f)" by blast
  moreover have "sv_back s \<noteq> []" using r(3) by auto
  ultimately show ?thesis using t r(1) by blast
qed

end
