(* ===== verification/Server_Nat.thy ===== *)
theory Server_Nat
  imports Server_Run
begin

text \<open>
  What the proxy server promises as a network address translator, without queues, counters and
  clocks, as a step relation on a table of flows; and that the rounds of the server are its steps.
\<close>

section \<open>The translator\<close>

text \<open>A flow has the port that was allocated to it and the connection that its first packet
  came on.\<close>

type_synonym 'c flows = "Uplink \<Rightarrow> (u16 \<times> 'c) option"

text \<open>A packet of a connection for an uplink and the port it left from, if it left; a packet of
  a server to a port and the connection and process port it was given to, if any.\<close>

datatype 'c nat_label =
    Out 'c Uplink "u16 option"
  | In proto addrport u16 "('c \<times> u16) option"

inductive nat_step :: "'c flows \<Rightarrow> 'c nat_label \<Rightarrow> 'c flows \<Rightarrow> bool" where
  known: "N up = Some (p, c) \<Longrightarrow> nat_step N (Out conn up (Some p)) N"
| fresh: "N up = None \<Longrightarrow> N' \<subseteq>\<^sub>m N
    \<Longrightarrow> (\<And>u c. N' u = Some (p, c) \<Longrightarrow> up_proto u = up_proto up \<Longrightarrow> up_server u \<noteq> up_server up)
    \<Longrightarrow> nat_step N (Out conn up (Some p)) (N'(up \<mapsto> (p, conn)))"
| refused: "N up = None \<Longrightarrow> N' \<subseteq>\<^sub>m N \<Longrightarrow> nat_step N (Out conn up None) N'"
| reply: "N up = Some (p, c) \<Longrightarrow> nat_step N (In (up_proto up) (up_server up) p (Some (c, ap_port (up_process up)))) N"
| unknown: "(\<And>u c. N u = Some (p, c) \<Longrightarrow> up_proto u = pr \<Longrightarrow> up_server u \<noteq> srv) \<Longrightarrow> nat_step N (In pr srv p None) N"

inductive_cases nat_outE: "nat_step N (Out conn up r) N'"
inductive_cases nat_inE: "nat_step N (In pr srv p r) N'"

inductive nat_reach :: "'c flows \<Rightarrow> bool" where
  empty: "nat_reach Map.empty"
| step: "nat_reach N \<Longrightarrow> nat_step N l N' \<Longrightarrow> nat_reach N'"

text \<open>Two flows to the same server have different ports, in every table that is reached.\<close>

definition nat_inj :: "'c flows \<Rightarrow> bool" where
  "nat_inj N \<longleftrightarrow> (\<forall>u v p c c'. N u = Some (p, c) \<longrightarrow> N v = Some (p, c') \<longrightarrow> up_proto u = up_proto v
     \<longrightarrow> up_server u = up_server v \<longrightarrow> u = v)"

lemma nat_inj_sub: "nat_inj N \<Longrightarrow> N' \<subseteq>\<^sub>m N \<Longrightarrow> nat_inj N'"
  unfolding nat_inj_def map_le_def by (metis domI)

lemma nat_step_inj: "nat_step N l N' \<Longrightarrow> nat_inj N \<Longrightarrow> nat_inj N'"
proof (induction rule: nat_step.induct)
  case (fresh N up N' p conn)
  then have "nat_inj N'" by (blast intro: nat_inj_sub)
  note inj = this [unfolded nat_inj_def, rule_format]
  show ?case unfolding nat_inj_def
  proof (intro allI impI)
    fix u v q c c'
    assume a: "(N'(up \<mapsto> (p, conn))) u = Some (q, c)" "(N'(up \<mapsto> (p, conn))) v = Some (q, c')"
      "up_proto u = up_proto v" "up_server u = up_server v"
    show "u = v"
    proof (cases "u = up \<or> v = up")
      case True
      with a show ?thesis using fresh.hyps(3) by (auto split: if_splits)
    next
      case False
      with a show ?thesis using inj [of u q c v c'] by simp
    qed
  qed
qed (auto intro: nat_inj_sub)

lemma nat_reach_inj: "nat_reach N \<Longrightarrow> nat_inj N"
proof (induction rule: nat_reach.induct)
  case empty
  show ?case by (simp add: nat_inj_def)
qed (rule nat_step_inj)

text \<open>So the answer to a packet of a server is determined.\<close>

lemma nat_in_determined:
  assumes "nat_reach N" "nat_step N (In pr srv p r) N1" "nat_step N (In pr srv p r') N2"
  shows "r = r' \<and> N1 = N2"
  using assms(2,3) nat_reach_inj [OF assms(1), unfolded nat_inj_def, rule_format]
  by (elim nat_inE) fastforce+

section \<open>The flows of the server\<close>

definition nat_of :: "'c linkManager \<Rightarrow> 'c flows" where
  "nat_of t up =
     (case uplinkMap t up of
        None \<Rightarrow> None
      | Some d \<Rightarrow> map_option (\<lambda>k. (port_num d, dk_conn k)) (downlinkMap t (down_key (lm_addr t) up (port_num d))))"

lemma nat_of_eq: "nat_of t up = Some (p, c) \<longleftrightarrow>
    (\<exists>d k. uplinkMap t up = Some d \<and> port_num d = p \<and> downlinkMap t (down_key (lm_addr t) up p) = Some k \<and> dk_conn k = c)"
  by (auto simp: nat_of_def split: option.splits)

lemma nat_of_None: "links_inv t \<Longrightarrow> nat_of t up = None \<longleftrightarrow> uplinkMap t up = None"
  using links_down [of t up] by (auto simp: nat_of_def split: option.splits)

text \<open>The downlinks are the flows read backwards.\<close>

lemma Downlink_flows:
  assumes "links_inv t" "dn_local l = AddrPort (lm_addr t) p"
  shows "(case lm_Downlink t l of
      Some (c, port) \<Rightarrow> \<exists>up. nat_of t up = Some (p, c) \<and> up_proto up = dn_proto l \<and> up_server up = dn_server l
        \<and> port = ap_port (up_process up)
    | None \<Rightarrow> \<forall>u c. nat_of t u = Some (p, c) \<longrightarrow> up_proto u = dn_proto l \<longrightarrow> up_server u \<noteq> dn_server l)"
proof (cases "downlinkMap t l")
  case None
  have "l = down_key (lm_addr t) u p" if "up_proto u = dn_proto l" "up_server u = dn_server l" for u
    using that assms(2) by (cases l) (simp add: down_key_def)
  with None show ?thesis by (auto simp: lm_Downlink_def nat_of_eq)
next
  case (Some k)
  then obtain up d where u: "uplinkMap t up = Some d" "l = down_key (lm_addr t) up (port_num d)"
    using assms(1) unfolding links_inv_def by blast
  from links_down [OF assms(1) u(1)] u Some have "dk_port k = ap_port (up_process up)" by simp
  moreover have "port_num d = p" using u(2) assms(2) by (simp add: down_key_def)
  ultimately show ?thesis using Some u
    by (auto simp: lm_Downlink_def nat_of_eq down_key_def intro!: exI [of _ up])
qed

lemma down_key_local: "ap_addr (dn_local (down_key a u p)) = a"
  by (simp add: down_key_def)

lemma Uplink_flows:
  assumes "uplinkMap t up = Some d" "port_uses d < 2 ^ 48 - 1"
  shows "nat_of (fst (lm_Uplink t up)) = nat_of t \<and> snd (lm_Uplink t up) = Some (port_num d)"
proof -
  have "lm_Uplink t up = (t\<lparr>uplinkMap := (uplinkMap t)(up \<mapsto> d + 1)\<rparr>, Some (port_num d))"
    using assms port_Port_eq [OF assms(2)] by (simp add: lm_Uplink_def port_Port_def Let_def)
  with port_incr [OF assms(2)] assms(1) show ?thesis by (auto simp: nat_of_def fun_eq_iff split: option.splits)
qed
text \<open>\<open>Add\<close> may forget flows that are idle; it makes one flow at most, on a port that no
  other flow to the server has.\<close>

lemma Add_ports:
  assumes "lm_inv ap t" "add_env_ok ap env t up" "lm_Add ap env t up conn = Some (ap', t', r)"
    and "u \<noteq> up" "uplinkMap t' u = Some d"
  shows "\<exists>d0. uplinkMap t u = Some d0 \<and> port_num d0 = port_num d"
proof -
  have clk: "\<forall>k. ae_clock env k \<noteq> 0" using assms(2) by (simp add: add_env_ok_def)
  obtain ap1 t1 ls where c: "Cleanup ap (ae_close env) (ae_clock env) t = Some (ap1, t1, ls)"
    "\<forall>s d. uplinkMap t1 s = Some d \<longrightarrow> (\<exists>d0. uplinkMap t s = Some d0 \<and> port_num d0 = port_num d)"
    using Cleanup_ok [where clk = "ae_clock env" and cl = "ae_close env", OF assms(1) clk] by (elim exE conjE) (rule that; assumption)
  obtain ap2 g where g: "GetPort ap1 (ae_port env) (up_proto up) (up_server up) = Some (ap2, g)"
    using assms(3) c(1) by (auto simp: lm_Add_def bind_eq_Some_conv)
  have "uplinkMap t1 u = Some d"
    using assms(3-5) c(1) g by (cases g) (auto simp: lm_Add_def bind_eq_Some_conv)
  with c(2) show ?thesis by blast
qed

lemma Add_flows:
  assumes inv: "lm_inv ap t" and env: "add_env_ok ap env t up" and up: "up_proto up = TCP \<or> up_proto up = UDP"
    and new: "uplinkMap t up = None" "ap_valid (up_process up)" and add: "lm_Add ap env t up conn = Some (ap', t', r)"
  shows "nat_step (nat_of t) (Out conn up (case r of Inl err \<Rightarrow> None | Inr p \<Rightarrow> Some p)) (nat_of t')"
proof -
  have l: "links_inv t'" "lm_addr t' = lm_addr t" and res: "case r of Inr p \<Rightarrow> uplinkMap t' up = Some (NewPort p) \<and> routed t' up p conn
           \<and> (\<forall>x j. x \<noteq> down_key (lm_addr t) up p \<longrightarrow> lm_Downlink t' x = Some j \<longrightarrow> lm_Downlink t x = Some j)
       | Inl e \<Rightarrow> uplinkMap t' up = None"
    using lm_Add_ok [OF inv env up new, of conn] add by (auto simp: lm_inv_def)
  have old: "nat_of t u = Some (q, c)" if u: "u \<noteq> up" "nat_of t' u = Some (q, c)" for u q c
  proof -
    obtain d k where d: "uplinkMap t' u = Some d" "port_num d = q" "downlinkMap t' (down_key (lm_addr t) u q) = Some k" "dk_conn k = c"
      using u(2) l(2) by (auto simp: nat_of_eq)
    obtain d0 where d0: "uplinkMap t u = Some d0" "port_num d0 = q" using Add_ports [OF inv env add u(1) d(1)] d(2) by auto
    have "downlinkMap t (down_key (lm_addr t) u q) = Some k"
    proof (rule ccontr)
      assume "downlinkMap t (down_key (lm_addr t) u q) \<noteq> Some k"
      with conjunct2 [OF lm_Add_routes [OF add], rule_format, OF d(3)]
      obtain p where p: "r = Inr p" "down_key (lm_addr t) u q = down_key (lm_addr t) up p" by auto
      with res links_unique [OF l(1) d(1), of up "NewPort p"] d(2) u(1) show False by (simp add: down_key_eq)
    qed
    with d0 d(4) show ?thesis by (auto simp: nat_of_eq)
  qed
  have none: "nat_of t up = None" using new(1) inv by (simp add: nat_of_None lm_inv_def)
  show ?thesis
  proof (cases r)
    case (Inl err)
    with res l(1) have "nat_of t' up = None" by (simp add: nat_of_None)
    then have "nat_of t' \<subseteq>\<^sub>m nat_of t" using old unfolding map_le_def by (metis domD option.distinct(1) old.prod.exhaust)
    with none Inl show ?thesis by (simp add: nat_step.refused)
  next
    case (Inr p)
    let ?N = "(nat_of t')(up := None)"
    have at: "nat_of t' up = Some (p, conn)"
      using res Inr l by (auto simp: routed_def nat_of_eq lm_Downlink_def split: option.splits)
    have "?N \<subseteq>\<^sub>m nat_of t" using old by (auto simp: map_le_def dom_def)
    moreover have "up_server u \<noteq> up_server up" if "?N u = Some (p, c)" "up_proto u = up_proto up" for u c
      using that links_unique [OF l(1), of u _ up "NewPort p"] res Inr by (auto simp: nat_of_eq split: if_splits)
    ultimately have "nat_step (nat_of t) (Out conn up (Some p)) (?N(up \<mapsto> (p, conn)))"
      by (intro nat_step.fresh none)
    moreover have "?N(up \<mapsto> (p, conn)) = nat_of t'" using at by auto
    ultimately show ?thesis using Inr by simp
  qed
qed

lemma link_flows:
  assumes s: "sv_typed s" and up: "up_proto up = TCP \<or> up_proto up = UDP" "ap_valid (up_process up)"
    and env: "case uplinkMap (sv_links s) up of None \<Rightarrow> add_env_ok (sv_ap s) e (sv_links s) up | Some d \<Rightarrow> port_uses d < 2 ^ 48 - 1"
    and run: "sv_link s e up conn = Some (s', r)"
  shows "nat_step (nat_of (sv_links s)) (Out conn up (case r of Inl err \<Rightarrow> None | Inr p \<Rightarrow> Some p)) (nat_of (sv_links s'))
    \<and> sv_back s' = sv_back s"
proof (cases "uplinkMap (sv_links s) up")
  case None
  then obtain ap t where t: "lm_Add (sv_ap s) e (sv_links s) up conn = Some (ap, t, r)" "s' = s\<lparr>sv_ap := ap, sv_links := t\<rparr>"
    using run by (auto simp: sv_link_def lm_Uplink_def bind_eq_Some_conv)
  with Add_flows [OF _ _ up(1) None up(2) t(1)] s env None show ?thesis by (simp add: sv_typed_def)
next
  case (Some d)
  have li: "links_inv (sv_links s)" using s by (simp add: sv_typed_def lm_inv_def)
  have u: "port_uses d < 2 ^ 48 - 1" using env Some by simp
  note f = Uplink_flows [OF Some u]
  from links_down [OF li Some] obtain c where "nat_of (sv_links s) up = Some (port_num d, c)"
    using Some by (auto simp: nat_of_eq)
  moreover have "s' = s\<lparr>sv_links := fst (lm_Uplink (sv_links s) up)\<rparr>" "r = Inr (port_num d)"
    using run f by (auto simp: sv_link_def case_prod_unfold)
  ultimately show ?thesis using f by (simp add: nat_step.known)
qed
section \<open>Rounds are steps of the translator\<close>

definition nat_round :: "'p packet_api \<Rightarrow> ('c \<Rightarrow> addr) \<Rightarrow> 'c server \<Rightarrow> ('c, 'p) event \<Rightarrow> 'c server \<Rightarrow> bool" where
  "nat_round P raddr s ev s' \<longleftrightarrow>
     (case ev of
        FromClient conn peer pkt env \<Rightarrow>
          if ds_proto peer = TCP \<or> ds_proto peer = UDP then
            \<exists>r. nat_step (nat_of (sv_links s)) (Out conn (payload_up (raddr conn) peer (p_bytes P pkt)) r) (nat_of (sv_links s'))
              \<and> sv_back s' = sv_back s
              \<and> (case r of None \<Rightarrow> sv_sent s' = sv_sent s
                 | Some p \<Rightarrow> \<exists>ip. sv_sent s' = sv_sent s @ [ip] \<and> forwarded (sv_laddr s) p peer (p_bytes P pkt) ip)
          else s' = s
      | FromNet ip env \<Rightarrow>
          (let l = net_link (p_bytes P ip) in
           if net_flow (p_bytes P ip) \<and> ap_addr (dn_local l) = sv_laddr s then
             \<exists>r. nat_step (nat_of (sv_links s)) (In (dn_proto l) (dn_server l) (ap_port (dn_local l)) r) (nat_of (sv_links s'))
               \<and> sv_sent s' = sv_sent s
               \<and> (case r of None \<Rightarrow> sv_back s' = sv_back s
                  | Some (conn, port) \<Rightarrow> \<exists>b. sv_back s' = sv_back s
                        @ [(conn, \<lparr>ds_proto = dn_proto l, ds_dst = ap_addr (dn_server l)\<rparr>, b)]
                      \<and> get16 b 0 = ap_port (dn_server l) \<and> get16 b 2 = port)
           else s' = s))"

lemma client_round:
  assumes "gvisor_laws G" "packet_laws P" "sv_typed s" "ev_ok P raddr s (FromClient conn peer pkt env)"
    and "serve_packet G P s (raddr conn) conn peer pkt env = Some (s', Next)"
  shows "nat_round P raddr s (FromClient conn peer pkt env) s'"
proof (cases "ds_proto peer = TCP \<or> ds_proto peer = UDP")
  case False
  with assms(5) show ?thesis by (simp add: nat_round_def serve_packet_def Let_def)
next
  case True
  let ?up = "payload_up (raddr conn) peer (p_bytes P pkt)"
  obtain s1 r where l: "sv_link s (it_add env) ?up conn = Some (s1, r)" and s1: "sv_sent s1 = sv_sent s"
    and res: "case r of
         Inl err \<Rightarrow> serve_packet G P s (raddr conn) conn peer pkt env = Some (s1, Next)
       | Inr port \<Rightarrow> \<exists>ip. forwarded (sv_laddr s) port peer (p_bytes P pkt) ip
           \<and> (serve_packet G P s (raddr conn) conn peer pkt env
                = Some (s1\<lparr>sv_ip4id := sv_ip4id s + 1, sv_sent := sv_sent s @ [ip]\<rparr>, Next)
              \<or> (\<exists>t. serve_packet G P s (raddr conn) conn peer pkt env = Some (sv_close t env, Stop)))"
    using serve_packet_cases [OF assms(1-4) True] by (elim exE conjE)
  have env: "addr_valid (raddr conn)"
    "case uplinkMap (sv_links s) ?up of None \<Rightarrow> add_env_ok (sv_ap s) (it_add env) (sv_links s) ?up | Some d \<Rightarrow> port_uses d < 2 ^ 48 - 1"
    using assms(4) by (simp_all add: ev_ok_def Let_def)
  have up: "up_proto ?up = TCP \<or> up_proto ?up = UDP" "ap_valid (up_process ?up)"
    using True env(1) by (simp_all add: payload_up_def ap_valid_def)
  note f = link_flows [OF assms(3) up env(2) l]
  show ?thesis
  proof (cases r)
    case (Inl err)
    with f s1 res assms(5) True show ?thesis by (auto simp: nat_round_def)
  next
    case (Inr port)
    with res assms(5) obtain ip where ip: "forwarded (sv_laddr s) port peer (p_bytes P pkt) ip"
      "s' = s1\<lparr>sv_ip4id := sv_ip4id s + 1, sv_sent := sv_sent s @ [ip]\<rparr>" by auto
    have "nat_step (nat_of (sv_links s)) (Out conn ?up (Some port)) (nat_of (sv_links s')) \<and> sv_back s' = sv_back s
        \<and> (\<exists>ip. sv_sent s' = sv_sent s @ [ip] \<and> forwarded (sv_laddr s) port peer (p_bytes P pkt) ip)"
      using f Inr ip by simp
    with True show ?thesis by (auto simp: nat_round_def intro!: exI [of _ "Some port"])
  qed
qed

lemma net_round:
  assumes "gvisor_laws G" "update_laws G" "packet_laws P" "sv_typed s" "net_ok (p_bytes P ip)"
    and "recv_packet G P s ip env = Some (s', Next)"
  shows "nat_round P raddr s (FromNet ip env) s'"
proof -
  let ?b = "p_bytes P ip" and ?l = "net_link (p_bytes P ip)"
  have li: "links_inv (sv_links s)" and la: "lm_addr (sv_links s) = sv_laddr s"
    using assms(4) by (simp_all add: sv_typed_def lm_inv_def)
  have loc: "dn_local ?l = AddrPort (lm_addr (sv_links s)) (ap_port (dn_local ?l))" if "ap_addr (dn_local ?l) = sv_laddr s"
    using that la by (cases "dn_local ?l") simp
  consider "s' = s" "net_flow ?b \<longrightarrow> lm_Downlink (sv_links s) ?l = None"
    | conn port y where "s' = s\<lparr>sv_back := sv_back s @ [(conn, \<lparr>ds_proto = dn_proto ?l, ds_dst = ap_addr (dn_server ?l)\<rparr>, y)]\<rparr>"
        "net_flow ?b" "lm_Downlink (sv_links s) ?l = Some (conn, port)" "get16 y 0 = ap_port (dn_server ?l)" "get16 y 2 = port"
    using recv_packet_cases [OF assms(1-3,5), of s env] assms(6) by auto
  then show ?thesis
  proof cases
    case 1
    then have "nat_step (nat_of (sv_links s)) (In (dn_proto ?l) (dn_server ?l) (ap_port (dn_local ?l)) None) (nat_of (sv_links s'))"
      if "net_flow ?b" "ap_addr (dn_local ?l) = sv_laddr s"
      using that Downlink_flows [OF li loc] by (auto intro: nat_step.unknown)
    with 1(1) show ?thesis by (auto simp: nat_round_def Let_def intro!: exI [of _ None])
  next
    case 2
    from 2(3) obtain k where "downlinkMap (sv_links s) ?l = Some k" by (auto simp: lm_Downlink_def split: option.splits)
    then have a: "ap_addr (dn_local ?l) = sv_laddr s" using li la unfolding links_inv_def by (metis down_key_local)
    from Downlink_flows [OF li loc [OF a]] 2(3) obtain up where u: "nat_of (sv_links s) up = Some (ap_port (dn_local ?l), conn)"
      "up_proto up = dn_proto ?l" "up_server up = dn_server ?l" "port = ap_port (up_process up)" by auto
    from nat_step.reply [of "nat_of (sv_links s)" up, OF u(1)] u 2(1)
    have "nat_step (nat_of (sv_links s)) (In (dn_proto ?l) (dn_server ?l) (ap_port (dn_local ?l)) (Some (conn, port))) (nat_of (sv_links s'))"
      by simp
    with 2 a show ?thesis by (auto simp: nat_round_def Let_def intro!: exI [of _ "Some (conn, port)"])
  qed
qed

lemma any_round:
  assumes "gvisor_laws G" "update_laws G" "packet_laws P" "sv_typed s" "ev_ok P raddr s ev" "sv_round G P raddr s ev = Some (s', Next)"
  shows "nat_round P raddr s ev s'"
proof (cases ev)
  case (FromClient conn peer pkt env)
  with client_round [OF assms(1,3,4), of raddr conn peer pkt env s'] assms(5,6) show ?thesis by (simp add: sv_round_def)
next
  case (FromNet ip env)
  with net_round [OF assms(1-4), of ip env s' raddr] assms(5,6) show ?thesis by (simp add: sv_round_def ev_ok_def)
qed

lemma nat_round_reach: "nat_round P raddr s ev s' \<Longrightarrow> nat_reach (nat_of (sv_links s)) \<Longrightarrow> nat_reach (nat_of (sv_links s'))"
  by (cases ev) (auto simp: nat_round_def Let_def intro: nat_reach.step split: if_splits)

lemma run_reach:
  assumes "gvisor_laws G" "update_laws G" "packet_laws P" "sv_typed s0" "uplinkMap (sv_links s0) = Map.empty"
    and "sv_run G P raddr (ev_ok P raddr) s0 (s, H)"
  shows "sv_closed s \<or> nat_reach (nat_of (sv_links s))"
  using assms(6)
proof (induction rule: sv_run_induct)
  case start
  have "nat_of (sv_links s0) = Map.empty" using assms(5) by (simp add: nat_of_def fun_eq_iff)
  then show ?case by (simp add: nat_reach.empty)
next
  case (round s H ev s' f)
  then have t: "sv_typed s" using run_typed [OF assms(1-4)] by blast
  have "round_typed (sv_round G P raddr s ev)" by (rule round_progress [OF assms(1-3) t round.hyps(3)])
  with round.hyps(4) have "f = Next \<or> sv_closed s'" by (auto simp: round_typed_def split: if_splits)
  then show ?case
  proof
    assume "f = Next"
    with any_round [OF assms(1-3) t round.hyps(3)] round.hyps(4) have "nat_round P raddr s ev s'" by simp
    with nat_round_reach round.IH round.hyps(2) show ?case by blast
  qed simp
qed

text \<open>
  C4. The server is an address translator. In every run of a server over well-typed input, the
  flows of its links are a state that the abstract translator reaches, and every further round
  that goes on is a step of the translator for the same packet: a client's packet leaves once,
  from the port of its flow, which is new and unlike that of any other flow to the same server
  when there was none, or not at all when no port could be had; a packet of the network is
  given to the connection and the process of the flow it belongs to, and to nobody if there is
  none. Any other packet changes nothing.
\<close>

theorem server_refines_nat:
  assumes "gvisor_laws G" "update_laws G" "packet_laws P"
    and "NewServer laddr pcap n = Some s0" "addr_is4 laddr"
    and "sv_run G P raddr (ev_ok P raddr) s0 (s, H)" "\<not> sv_closed s"
    and "ev_ok P raddr s ev" "sv_round G P raddr s ev = Some (s', Next)"
  shows "nat_reach (nat_of (sv_links s)) \<and> nat_round P raddr s ev s'"
proof
  note t = NewServer_typed [OF assms(4,5)]
  from run_reach [OF assms(1-3) t NewServer_fields(4) [OF assms(4)] assms(6)] assms(7)
  show "nat_reach (nat_of (sv_links s))" by blast
  from run_typed [OF assms(1-3) t assms(6)] assms(7) have "sv_typed s" by blast
  from any_round [OF assms(1-3) this assms(8,9)] show "nat_round P raddr s ev s'" .
qed

theorem server_refines_nat_witness:
  "\<exists>s H s'. sv_run rfc framed w_raddr (ev_ok framed w_raddr) w_s0 (s, H) \<and> sv_back s \<noteq> []
    \<and> nat_reach (nat_of (sv_links s)) \<and> nat_round framed w_raddr s w_answer s'"
proof -
  obtain s H b where r: "sv_run rfc framed w_raddr (ev_ok framed w_raddr) w_s0 (s, H)" "\<not> sv_closed s"
    "(''conn'', w_to 9, b) \<in> set (sv_back s)"
    using w_run by blast
  have a: "addr_is4 w_addr" by (simp add: w_addr_def)
  have ok: "ev_ok framed w_raddr s w_answer" using w_reply9(2) by (simp add: ev_ok_def w_answer_def framed_def)
  obtain s' where "sv_round rfc framed w_raddr s w_answer = Some (s', Next)"
    using recv_packet_cases [OF rfc_laws rfc_update_laws framed_laws, of "([], w_reply9)" s w_itn] w_reply9(2)
    by (auto simp: sv_round_def w_answer_def framed_def w_itn_fields)
  from server_refines_nat [OF rfc_laws rfc_update_laws framed_laws w_NewServer_s0 a r(1,2) ok this] r(1,3)
  show ?thesis by (intro exI [of _ s] exI [of _ H] exI [of _ s']) auto
qed

end
