(* ===== verification/Udp_Race.thy ===== *)
theory Udp_Race
  imports Udp_Listener "HOL-Library.Sublist"
begin

text \<open>
  \<open>acceptConn.put\<close> of \<open>conn/udp/conn.go\<close> at the granularity of its channel operations. The
  listener's workers put segments while the user of the connection reads and closes it;
  \<open>put\<close> loads the flag, tries to send, and on a full channel takes the oldest segment out,
  three steps between which the others run. \<open>Udp_Listener\<close> has the same operations as one
  step each.
\<close>

section \<open>Steps\<close>

datatype put_pc =
    PutIdle
  | PutLoad bytes
  | PutSelect bytes
  | PutTake bytes
  | PutPanic

datatype close_pc = CloseNo | CloseStored | CloseDrain | CloseDone

record ur_state =
  ur_conn :: acceptConn
  ur_pcs :: "nat \<Rightarrow> put_pc"
  ur_cl :: close_pc
  ur_in :: "bytes list"
  ur_got :: "bytes list"

definition ur_init :: "addrport \<Rightarrow> ur_state" where
  "ur_init a = \<lparr>ur_conn = newAcceptConn a, ur_pcs = (\<lambda>_. PutIdle), ur_cl = CloseNo, ur_in = [], ur_got = []\<rparr>"

definition ur_pc :: "ur_state \<Rightarrow> nat \<Rightarrow> put_pc \<Rightarrow> ur_state" where
  "ur_pc s i pc = s\<lparr>ur_pcs := (ur_pcs s)(i := pc)\<rparr>"

definition ur_buff :: "ur_state \<Rightarrow> bytes list \<Rightarrow> ur_state" where
  "ur_buff s b = s\<lparr>ur_conn := (ur_conn s)\<lparr>ac_buff := b\<rparr>\<rparr>"

text \<open>The workers \<open>N\<close> and the user. A worker in \<open>take_seg\<close> waits for a segment or for the channel
  to be closed; a send on a closed channel panics, also in a \<open>select\<close> with a default.
  \<open>ur_in\<close> and \<open>ur_got\<close> record what came in and what the user has read.\<close>

inductive ur_step :: "nat set \<Rightarrow> ur_state \<Rightarrow> ur_state \<Rightarrow> bool" for N where
  arrive: "i \<in> N \<Longrightarrow> ur_pcs s i = PutIdle \<Longrightarrow>
     ur_step N s ((ur_pc s i (PutLoad seg))\<lparr>ur_in := ur_in s @ [seg]\<rparr>)"
| load_closed: "ur_pcs s i = PutLoad seg \<Longrightarrow> ac_closed (ur_conn s) \<Longrightarrow> ur_step N s (ur_pc s i PutIdle)"
| load_open: "ur_pcs s i = PutLoad seg \<Longrightarrow> \<not> ac_closed (ur_conn s) \<Longrightarrow> ur_step N s (ur_pc s i (PutSelect seg))"
| send_seg: "ur_pcs s i = PutSelect seg \<Longrightarrow> \<not> ac_chclosed (ur_conn s) \<Longrightarrow> length (ac_buff (ur_conn s)) < 128 \<Longrightarrow>
     ur_step N s (ur_buff (ur_pc s i PutIdle) (ac_buff (ur_conn s) @ [seg]))"
| send_panic: "ur_pcs s i = PutSelect seg \<Longrightarrow> ac_chclosed (ur_conn s) \<Longrightarrow> ur_step N s (ur_pc s i PutPanic)"
| send_full: "ur_pcs s i = PutSelect seg \<Longrightarrow> \<not> ac_chclosed (ur_conn s) \<Longrightarrow> length (ac_buff (ur_conn s)) \<ge> 128 \<Longrightarrow>
     ur_step N s (ur_pc s i (PutTake seg))"
| take_seg: "ur_pcs s i = PutTake seg \<Longrightarrow> ac_buff (ur_conn s) = x # rest \<Longrightarrow>
     ur_step N s (ur_buff (ur_pc s i (PutLoad seg)) rest)"
| take_closed: "ur_pcs s i = PutTake seg \<Longrightarrow> ac_buff (ur_conn s) = [] \<Longrightarrow> ac_chclosed (ur_conn s) \<Longrightarrow>
     ur_step N s (ur_pc s i (PutLoad seg))"
| user_read: "ac_buff (ur_conn s) = x # rest \<Longrightarrow> ur_step N s ((ur_buff s rest)\<lparr>ur_got := ur_got s @ [x]\<rparr>)"
| close_store: "ur_cl s = CloseNo \<Longrightarrow>
     ur_step N s (s\<lparr>ur_conn := (ur_conn s)\<lparr>ac_closed := True\<rparr>, ur_cl := CloseStored\<rparr>)"
| close_chan: "ur_cl s = CloseStored \<Longrightarrow>
     ur_step N s (s\<lparr>ur_conn := (ur_conn s)\<lparr>ac_chclosed := True\<rparr>, ur_cl := CloseDrain\<rparr>)"
| close_drain: "ur_cl s = CloseDrain \<Longrightarrow> ac_buff (ur_conn s) = x # rest \<Longrightarrow> ur_step N s (ur_buff s rest)"
| close_end: "ur_cl s = CloseDrain \<Longrightarrow> ac_buff (ur_conn s) = [] \<Longrightarrow> ur_step N s (s\<lparr>ur_cl := CloseDone\<rparr>)"

definition ur_reach :: "nat set \<Rightarrow> ur_state \<Rightarrow> ur_state \<Rightarrow> bool" where
  "ur_reach N = (ur_step N)\<^sup>*\<^sup>*"

lemmas ur_defs = ur_pc_def ur_buff_def

lemma ur_ex_conj: "P x \<Longrightarrow> Q x \<Longrightarrow> \<exists>x. P x \<and> Q x"
  by blast

lemma ur_reach_refl [intro]: "ur_reach N s s"
  by (simp add: ur_reach_def)

lemma ur_reach_step: "ur_reach N s t \<Longrightarrow> ur_step N t u \<Longrightarrow> ur_reach N s u"
  unfolding ur_reach_def by (rule rtranclp.rtrancl_into_rtrancl)

lemma ur_reach_trans: "ur_reach N s t \<Longrightarrow> ur_reach N t u \<Longrightarrow> ur_reach N s u"
  unfolding ur_reach_def by (rule rtranclp_trans)

section \<open>Invariants\<close>

text \<open>The segment a worker holds.\<close>

definition in_hand :: "put_pc \<Rightarrow> bytes list" where
  "in_hand pc = (case pc of PutLoad seg \<Rightarrow> [seg] | PutSelect seg \<Rightarrow> [seg] | PutTake seg \<Rightarrow> [seg] | _ \<Rightarrow> [])"

lemma in_hand_simps [simp]:
  "in_hand PutIdle = []" "in_hand PutPanic = []" "in_hand (PutLoad seg) = [seg]"
  "in_hand (PutSelect seg) = [seg]" "in_hand (PutTake seg) = [seg]"
  by (simp_all add: in_hand_def)

definition ur_inv :: "nat set \<Rightarrow> ur_state \<Rightarrow> bool" where
  "ur_inv N s \<longleftrightarrow> length (ac_buff (ur_conn s)) \<le> 128
     \<and> (ac_closed (ur_conn s) \<longleftrightarrow> ur_cl s \<noteq> CloseNo)
     \<and> (ac_chclosed (ur_conn s) \<longleftrightarrow> ur_cl s \<in> {CloseDrain, CloseDone})
     \<and> (\<forall>i. ur_pcs s i = PutPanic \<longrightarrow> ac_chclosed (ur_conn s))
     \<and> (\<forall>i. i \<notin> N \<longrightarrow> ur_pcs s i = PutIdle)"

lemma ur_init_inv: "ur_inv N (ur_init a)"
  by (simp add: ur_inv_def ur_init_def newAcceptConn_def)

lemma ur_step_inv: "ur_step N s s' \<Longrightarrow> ur_inv N s \<Longrightarrow> ur_inv N s'"
  by (induction rule: ur_step.induct) (auto simp: ur_inv_def ur_defs)

lemma ur_reach_inv: "ur_reach N s s' \<Longrightarrow> ur_inv N s \<Longrightarrow> ur_inv N s'"
  unfolding ur_reach_def by (induction rule: rtranclp_induct) (auto intro: ur_step_inv)

text \<open>With one worker segments are read in the order they came, some left out.\<close>

definition ur_ordered :: "ur_state \<Rightarrow> bool" where
  "ur_ordered s \<longleftrightarrow> subseq (ur_got s @ ac_buff (ur_conn s) @ in_hand (ur_pcs s 0)) (ur_in s)"

lemma subseq_middle: "subseq (xs @ y # zs) ws \<Longrightarrow> subseq (xs @ zs) ws"
  by (rule subseq_order.order_trans [of _ "xs @ y # zs"]) (auto intro: list_emb_append_mono)

lemma subseq_front: "subseq (xs @ ys @ zs) ws \<Longrightarrow> subseq (xs @ ys) ws"
  by (rule subseq_order.order_trans [of _ "xs @ ys @ zs"]) auto

lemma ur_step_ordered: "ur_step {0} s s' \<Longrightarrow> ur_inv {0} s \<Longrightarrow> ur_ordered s \<Longrightarrow> ur_ordered s'"
proof (induction rule: ur_step.induct)
  case (arrive i s seg)
  then show ?case by (auto simp: ur_ordered_def ur_defs list_emb_append_mono simp flip: append_assoc)
next
  case (take_seg s i seg x rest)
  then have "i = 0" by (force simp: ur_inv_def)
  with take_seg show ?case by (auto simp: ur_ordered_def ur_defs intro: subseq_middle)
qed (auto simp: ur_ordered_def ur_defs ur_inv_def split: if_splits dest: subseq_front subseq_middle)

lemma ur_reach_ordered: "ur_reach {0} s s' \<Longrightarrow> ur_inv {0} s \<Longrightarrow> ur_ordered s \<Longrightarrow> ur_ordered s'"
  unfolding ur_reach_def
proof (induction rule: rtranclp_induct)
  case (step t u)
  then show ?case using ur_step_ordered ur_reach_inv [of "{0}" s t] by (auto simp: ur_reach_def)
qed simp

section \<open>One \<open>put\<close> without interference\<close>

text \<open>A worker that is not interrupted does what the one-step \<open>ac_put\<close> says.\<close>

lemma ur_put_alone:
  "ac_put c seg = Some c' \<Longrightarrow> ur_conn s = c \<Longrightarrow> ur_pcs s i = PutLoad seg \<Longrightarrow> ac_chclosed c = ac_closed c \<Longrightarrow>
    ur_reach N s ((ur_pc s i PutIdle)\<lparr>ur_conn := c'\<rparr>)"
proof (induction c seg arbitrary: s rule: ac_put.induct)
  case (1 c seg)
  show ?case
  proof (cases "ac_closed c")
    case True
    then have "ur_step N s ((ur_pc s i PutIdle)\<lparr>ur_conn := c'\<rparr>)"
      using ur_step.load_closed [of s i seg N] 1(2-5) by (cases s) (simp add: ac_put.simps [of c] ur_defs)
    then show ?thesis by (simp add: ur_reach_def)
  next
    case False
    let ?s1 = "ur_pc s i (PutSelect seg)"
    have s1: "ur_reach N s ?s1"
      using ur_step.load_open [of s i seg N] 1(3,4) False by (simp add: ur_reach_def)
    show ?thesis
    proof (cases "length (ac_buff c) < 128")
      case True
      then have "ur_step N ?s1 (ur_buff (ur_pc ?s1 i PutIdle) (ac_buff c @ [seg]))"
        using ur_step.send_seg [of ?s1 i seg N] 1(3,5) False by (simp add: ur_defs)
      moreover have "ur_buff (ur_pc ?s1 i PutIdle) (ac_buff c @ [seg]) = (ur_pc s i PutIdle)\<lparr>ur_conn := c'\<rparr>"
        using True False 1(2,3,5) by (auto simp: ac_put.simps [of c] ur_defs)
      ultimately show ?thesis using s1 ur_reach_step by fastforce
    next
      case full: False
      let ?s2 = "ur_pc ?s1 i (PutTake seg)" and ?c = "c\<lparr>ac_buff := tl (ac_buff c)\<rparr>"
      let ?s3 = "ur_buff (ur_pc ?s2 i (PutLoad seg)) (tl (ac_buff c))"
      have "ur_step N ?s1 ?s2"
        using ur_step.send_full [of ?s1 i seg N] 1(3,5) False full by (simp add: ur_defs)
      moreover have "ac_buff c = hd (ac_buff c) # tl (ac_buff c)" using full by (cases "ac_buff c") auto
      then have "ur_step N ?s2 ?s3"
        using ur_step.take_seg [of ?s2 i seg "hd (ac_buff c)" "tl (ac_buff c)" N] 1(3) by (simp add: ur_defs)
      ultimately have s3: "ur_reach N s ?s3" using s1 by (meson ur_reach_step)
      have "ur_reach N ?s3 ((ur_pc ?s3 i PutIdle)\<lparr>ur_conn := c'\<rparr>)"
        using 1(2,3,5) False full by (intro 1(1)) (simp_all add: ac_put.simps [of c] ur_defs)
      with s3 have "ur_reach N s ((ur_pc ?s3 i PutIdle)\<lparr>ur_conn := c'\<rparr>)" by (rule ur_reach_trans)
      then show ?thesis by (simp add: ur_defs)
    qed
  qed
qed

section \<open>Workers that hang\<close>

definition ur_hung :: "nat set \<Rightarrow> ur_state \<Rightarrow> bool" where
  "ur_hung N s \<longleftrightarrow> (\<forall>i \<in> N. \<exists>seg. ur_pcs s i = PutTake seg) \<and> (\<forall>i. i \<notin> N \<longrightarrow> ur_pcs s i = PutIdle)
     \<and> ac_buff (ur_conn s) = [] \<and> \<not> ac_chclosed (ur_conn s)"

lemma ur_hung_pc: "ur_hung N s \<Longrightarrow> ur_pcs s i = PutIdle \<or> (\<exists>seg. ur_pcs s i = PutTake seg)"
  unfolding ur_hung_def by blast

lemma ur_hung_buff: "ur_hung N s \<Longrightarrow> ac_buff (ur_conn s) = [] \<and> \<not> ac_chclosed (ur_conn s)"
  by (simp add: ur_hung_def)

lemma ur_hung_step:
  "ur_step N s s' \<Longrightarrow> ur_hung N s \<Longrightarrow> ac_chclosed (ur_conn s') \<or> ur_hung N s' \<and> ur_in s' = ur_in s \<and> ur_got s' = ur_got s"
  proof -
  assume h: "ur_hung N s" and st: "ur_step N s s'"
  note p = ur_hung_pc [OF h] and b = ur_hung_buff [OF h]
  have n: "i \<in> N \<Longrightarrow> \<exists>seg. ur_pcs s i = PutTake seg" for i using h unfolding ur_hung_def by blast
  from st show ?thesis
  proof (cases rule: ur_step.cases)
    case (arrive i seg)
    with n [of i] show ?thesis by simp
  next
    case (load_closed i seg)
    with p [of i] show ?thesis by simp
  next
    case (load_open i seg)
    with p [of i] show ?thesis by simp
  next
    case (send_seg i seg)
    with p [of i] show ?thesis by simp
  next
    case (send_panic i seg)
    with p [of i] show ?thesis by simp
  next
    case (send_full i seg)
    with p [of i] show ?thesis by simp
  next
    case close_store
    then show ?thesis using h by (simp add: ur_hung_def)
  next
    case close_end
    then show ?thesis using h by (simp add: ur_hung_def)
  qed (use b in simp_all)
qed

lemma ur_chclosed_step: "ur_step N s s' \<Longrightarrow> ac_chclosed (ur_conn s) \<Longrightarrow> ac_chclosed (ur_conn s')"
  by (induction rule: ur_step.induct) (auto simp: ur_defs)

lemma ur_hung_reach:
  "ur_reach N s s' \<Longrightarrow> ur_hung N s \<Longrightarrow> ac_chclosed (ur_conn s') \<or> ur_hung N s' \<and> ur_in s' = ur_in s \<and> ur_got s' = ur_got s"
  unfolding ur_reach_def
proof (induction rule: rtranclp_induct)
  case (step t u)
  then show ?case using ur_chclosed_step [of N t u] ur_hung_step [of N t u] by auto
qed simp

text \<open>Filling an open connection, and reading it empty again.\<close>

lemma ur_fill:
  assumes "i \<in> N" "ur_pcs s i = PutIdle" "\<not> ac_closed (ur_conn s)" "\<not> ac_chclosed (ur_conn s)"
    "length (ac_buff (ur_conn s)) + k \<le> 128"
  shows "\<exists>s'. ur_reach N s s' \<and> ur_pcs s' = ur_pcs s \<and> \<not> ac_closed (ur_conn s') \<and> \<not> ac_chclosed (ur_conn s')
    \<and> length (ac_buff (ur_conn s')) = length (ac_buff (ur_conn s)) + k"
  using assms(5)
proof (induction k)
  case 0
  show ?case by (rule exI [of _ s]) (use assms in auto)
next
  case (Suc k)
  then obtain t where t: "ur_reach N s t" "ur_pcs t = ur_pcs s" "\<not> ac_closed (ur_conn t)" "\<not> ac_chclosed (ur_conn t)"
    "length (ac_buff (ur_conn t)) = length (ac_buff (ur_conn s)) + k" by auto
  let ?t1 = "(ur_pc t i (PutLoad []))\<lparr>ur_in := ur_in t @ [[]]\<rparr>" and ?c = "(ur_conn t)\<lparr>ac_buff := ac_buff (ur_conn t) @ [[]]\<rparr>"
  let ?t2 = "(ur_pc ?t1 i PutIdle)\<lparr>ur_conn := ?c\<rparr>"
  have "ur_step N t ?t1" using assms(1,2) t(2) by (intro ur_step.arrive) simp_all
  moreover have "ac_put (ur_conn t) [] = Some ?c" using t Suc.prems by (simp add: ac_put.simps)
  then have "ur_reach N ?t1 ?t2" by (rule ur_put_alone) (use t in \<open>simp_all add: ur_defs\<close>)
  ultimately have "ur_reach N s ?t2" using t(1) by (meson ur_reach_step ur_reach_trans)
  then show ?case using t assms(2) by (intro exI [of _ ?t2]) (auto simp: ur_defs)
qed

lemma ur_empty: "ur_reach N s (s\<lparr>ur_conn := (ur_conn s)\<lparr>ac_buff := []\<rparr>, ur_got := ur_got s @ ac_buff (ur_conn s)\<rparr>)"
proof (induction "ac_buff (ur_conn s)" arbitrary: s)
  case Nil
  then have "s\<lparr>ur_conn := (ur_conn s)\<lparr>ac_buff := []\<rparr>, ur_got := ur_got s @ ac_buff (ur_conn s)\<rparr> = s" by simp
  then show ?case by auto
next
  case (Cons x rest)
  let ?s = "(ur_buff s rest)\<lparr>ur_got := ur_got s @ [x]\<rparr>"
  have b: "ac_buff (ur_conn s) = x # rest" using Cons(2) by simp
  then have "ur_reach N s ?s" using ur_step.user_read [of s x rest N] by (auto simp: ur_reach_def)
  moreover have "ur_reach N ?s (?s\<lparr>ur_conn := (ur_conn ?s)\<lparr>ac_buff := []\<rparr>, ur_got := ur_got ?s @ ac_buff (ur_conn ?s)\<rparr>)"
    by (rule Cons(1)) (simp add: ur_defs)
  ultimately show ?case using b by (auto simp: ur_defs dest: ur_reach_trans)
qed

text \<open>A worker comes to wait for the oldest segment of a full channel.\<close>

lemma ur_waits:
  assumes "i \<in> N" "ur_pcs s i = PutIdle" "\<not> ac_closed (ur_conn s)" "\<not> ac_chclosed (ur_conn s)" "length (ac_buff (ur_conn s)) = 128"
  shows "ur_reach N s ((ur_pc s i (PutTake []))\<lparr>ur_in := ur_in s @ [[]]\<rparr>)"
proof -
  let ?s1 = "(ur_pc s i (PutLoad []))\<lparr>ur_in := ur_in s @ [[]]\<rparr>"
  have "ur_step N s ?s1" using assms by (intro ur_step.arrive) simp_all
  moreover have "ur_step N ?s1 (ur_pc ?s1 i (PutSelect []))" by (rule ur_step.load_open) (use assms in \<open>simp_all add: ur_defs\<close>)
  moreover have "ur_step N (ur_pc ?s1 i (PutSelect [])) (ur_pc (ur_pc ?s1 i (PutSelect [])) i (PutTake []))"
    by (rule ur_step.send_full) (use assms in \<open>simp_all add: ur_defs\<close>)
  ultimately have "ur_reach N s (ur_pc (ur_pc ?s1 i (PutSelect [])) i (PutTake []))" by (meson ur_reach_refl ur_reach_step)
  then show ?thesis by (cases s) (simp add: ur_defs)
qed

lemma ur_hung_reachable: "\<exists>s. ur_reach {0, 1} (ur_init a) s \<and> ur_hung {0, 1} s"
proof -
  let ?N = "{0, 1} :: nat set"
  obtain s where s: "ur_reach ?N (ur_init a) s" "ur_pcs s = (\<lambda>_. PutIdle)" "\<not> ac_closed (ur_conn s)" "\<not> ac_chclosed (ur_conn s)"
    "length (ac_buff (ur_conn s)) = 128"
    using ur_fill [of 0 ?N "ur_init a" 128] by (auto simp: ur_init_def newAcceptConn_def)
  let ?s1 = "(ur_pc s 0 (PutTake []))\<lparr>ur_in := ur_in s @ [[]]\<rparr>"
  let ?s2 = "(ur_pc ?s1 1 (PutTake []))\<lparr>ur_in := ur_in ?s1 @ [[]]\<rparr>"
  have "ur_reach ?N s ?s1" by (rule ur_waits) (use s in simp_all)
  moreover have "ur_reach ?N ?s1 ?s2" by (rule ur_waits) (use s in \<open>simp_all add: ur_defs\<close>)
  ultimately have "ur_reach ?N (ur_init a) ?s2" using s(1) by (meson ur_reach_trans)
  from ur_reach_trans [OF this ur_empty] show ?thesis
    by (rule ur_ex_conj) (use s in \<open>auto simp: ur_hung_def ur_defs\<close>)
qed

section \<open>Properties\<close>

text \<open>
  C18. However the user's \<open>Read\<close> and \<open>Close\<close> fall between the steps of a \<open>put\<close>, one worker
  delivers in order: what was read, followed by what is queued, is a subsequence of what
  arrived; at most 128 segments are queued; and no send panics before the channel is closed.
\<close>

theorem udp_put_ordered:
  assumes "ur_reach {0} (ur_init a) s"
  shows "subseq (ur_got s @ ac_buff (ur_conn s)) (ur_in s) \<and> length (ac_buff (ur_conn s)) \<le> 128
    \<and> (ur_pcs s 0 = PutPanic \<longrightarrow> ac_chclosed (ur_conn s))"
proof -
  have "ur_ordered s" by (rule ur_reach_ordered [OF assms ur_init_inv]) (simp add: ur_ordered_def ur_init_def newAcceptConn_def)
  moreover have "ur_inv {0} s" by (rule ur_reach_inv [OF assms ur_init_inv])
  ultimately show ?thesis by (auto simp: ur_ordered_def ur_inv_def dest: subseq_front)
qed

theorem udp_put_ordered_witness:
  "\<exists>s. ur_reach {0} (ur_init (AddrPort (Addr4 1 2 3 4) 5)) s \<and> length (ac_buff (ur_conn s)) = 128
    \<and> subseq (ur_got s @ ac_buff (ur_conn s)) (ur_in s)"
proof -
  obtain s where "ur_reach {0} (ur_init (AddrPort (Addr4 1 2 3 4) 5)) s" "length (ac_buff (ur_conn s)) = 128"
    using ur_fill [of 0 "{0}" "ur_init (AddrPort (Addr4 1 2 3 4) 5)" 128] by (auto simp: ur_init_def newAcceptConn_def)
  with udp_put_ordered show ?thesis by blast
qed

text \<open>
  C33. Two ways in which a user who reads and closes brings the listener down. A \<open>Close\<close>
  between the load of the flag and the send makes the send panic, which ends the process. And
  a worker that found the channel full, and then waits for the oldest segment after the user
  has read them all, waits for a sender that may be itself: once every worker does, none
  comes back, and no datagram of any client is handled, until the connection is closed.
\<close>

theorem udp_put_races:
  "(\<exists>s. ur_reach {0} (ur_init a) s \<and> ur_pcs s 0 = PutPanic)
    \<and> (\<exists>s. ur_reach {0, 1} (ur_init a) s \<and> ur_hung {0, 1} s
        \<and> (\<forall>s'. ur_reach {0, 1} s s' \<longrightarrow> ac_chclosed (ur_conn s') \<or> ur_hung {0, 1} s' \<and> ur_got s' = ur_got s))"
proof
  let ?s0 = "ur_init a"
  let ?s1 = "(ur_pc ?s0 0 (PutLoad []))\<lparr>ur_in := ur_in ?s0 @ [[]]\<rparr>"
  let ?s2 = "ur_pc ?s1 0 (PutSelect [])"
  let ?s3 = "?s2\<lparr>ur_conn := (ur_conn ?s2)\<lparr>ac_closed := True\<rparr>, ur_cl := CloseStored\<rparr>"
  let ?s4 = "?s3\<lparr>ur_conn := (ur_conn ?s3)\<lparr>ac_chclosed := True\<rparr>, ur_cl := CloseDrain\<rparr>"
  note d = ur_defs ur_init_def newAcceptConn_def
  have "ur_step {0} ?s0 ?s1" by (rule ur_step.arrive) (simp_all add: d)
  moreover have "ur_step {0} ?s1 ?s2" by (rule ur_step.load_open) (simp_all add: d)
  moreover have "ur_step {0} ?s2 ?s3" by (rule ur_step.close_store) (simp add: d)
  moreover have "ur_step {0} ?s3 ?s4" by (rule ur_step.close_chan) (simp add: d)
  moreover have "ur_step {0} ?s4 (ur_pc ?s4 0 PutPanic)" by (rule ur_step.send_panic [of _ _ "[]"]) (simp_all add: d)
  ultimately have "ur_reach {0} ?s0 (ur_pc ?s4 0 PutPanic)" by (meson ur_reach_refl ur_reach_step)
  then show "\<exists>s. ur_reach {0} ?s0 s \<and> ur_pcs s 0 = PutPanic" by (rule ur_ex_conj) (simp add: d)
next
  show "\<exists>s. ur_reach {0, 1} (ur_init a) s \<and> ur_hung {0, 1} s
        \<and> (\<forall>s'. ur_reach {0, 1} s s' \<longrightarrow> ac_chclosed (ur_conn s') \<or> ur_hung {0, 1} s' \<and> ur_got s' = ur_got s)"
    using ur_hung_reachable [of a] ur_hung_reach by meson
qed

theorem udp_put_races_witness:
  "\<exists>s. ur_reach {0, 1} (ur_init (AddrPort (Addr4 1 2 3 4) 5)) s
    \<and> \<not> (\<exists>s'. ur_step {0, 1} s s' \<and> \<not> ac_chclosed (ur_conn s') \<and> ur_got s' \<noteq> ur_got s)"
proof -
  obtain s where s: "ur_reach {0, 1} (ur_init (AddrPort (Addr4 1 2 3 4) 5)) s"
    "\<forall>s'. ur_reach {0, 1} s s' \<longrightarrow> ac_chclosed (ur_conn s') \<or> ur_hung {0, 1} s' \<and> ur_got s' = ur_got s"
    using conjunct2 [OF udp_put_races [of "AddrPort (Addr4 1 2 3 4) 5"]] by (elim exE conjE)
  moreover have "ur_reach {0, 1} s s'" if "ur_step {0, 1} s s'" for s' using that by (simp add: ur_reach_def)
  ultimately show ?thesis by (intro exI [of _ s]) blast
qed

end
