(* ===== verification/Udp_Steps.thy ===== *)
theory Udp_Steps
  imports Udp_Race
begin

text \<open>
  The listener of \<open>conn/udp\<close> with its workers and users at the granularity of their locks,
  atomics and channel operations: \<open>accpetService\<close> reads a datagram, reads the table, registers
  a new connection, puts the segment in the three steps of \<open>Udp_Race\<close> and offers the
  connection; \<open>Close\<close> of a connection stores the flag, closes the channel, asks how many
  connections there are, deletes or schedules the deletion, and drains. The functions of
  \<open>Udp_Listener\<close> are these steps without interference.
\<close>

section \<open>Steps\<close>

text \<open>A worker in \<open>WLoad\<close> is at the head of the loop of \<open>put\<close>; the flag says whether it has just
  registered the connection. \<open>WPanic\<close> is a send on the channel of a connection that is closed,
  \<open>WPanicCh\<close> one on the accept queue.\<close>

datatype us_pc =
    WIdle
  | WGot addrport bytes
  | WNew addrport bytes
  | WLoad addrport nat bytes bool
  | WSelect addrport nat bytes bool
  | WTake addrport nat bytes bool
  | WOffer nat
  | WOfferSend nat
  | WPanic nat
  | WPanicCh
  | WEnd

datatype us_close = ClNo | ClStored | ClChan | ClNow | ClLater | ClDrain | ClDone

text \<open>\<open>us_acc\<close> are the connections that have been accepted, whose users read them and close them
  once; \<open>us_in\<close> is what the socket has read, \<open>us_got\<close> what the user of a connection has read.\<close>

record us_state =
  us_l :: Listener
  us_pcs :: "nat \<Rightarrow> us_pc"
  us_cl :: "nat \<Rightarrow> us_close"
  us_acc :: "nat set"
  us_in :: "(addrport \<times> bytes) list"
  us_got :: "nat \<Rightarrow> bytes list"

definition us_init :: us_state where
  "us_init = \<lparr>us_l = u_Listen, us_pcs = (\<lambda>_. WIdle), us_cl = (\<lambda>_. ClNo), us_acc = {}, us_in = [], us_got = (\<lambda>_. [])\<rparr>"

definition us_go :: "us_state \<Rightarrow> nat \<Rightarrow> us_pc \<Rightarrow> us_state" where
  "us_go s w pc = s\<lparr>us_pcs := (us_pcs s)(w := pc)\<rparr>"

definition us_at :: "us_state \<Rightarrow> nat \<Rightarrow> us_close \<Rightarrow> us_state" where
  "us_at s i cl = s\<lparr>us_cl := (us_cl s)(i := cl)\<rparr>"

definition us_set :: "us_state \<Rightarrow> nat \<Rightarrow> acceptConn \<Rightarrow> us_state" where
  "us_set s i c = s\<lparr>us_l := (us_l s)\<lparr>u_heap := (u_heap (us_l s))(i \<mapsto> c)\<rparr>\<rparr>"

abbreviation us_heap :: "us_state \<Rightarrow> nat \<Rightarrow> acceptConn option" where
  "us_heap s \<equiv> u_heap (us_l s)"

text \<open>After a \<open>put\<close>: a new connection is offered.\<close>

definition us_after :: "nat \<Rightarrow> bool \<Rightarrow> us_pc" where
  "us_after i fresh = (if fresh then WOffer i else WIdle)"

inductive us_step :: "nat set \<Rightarrow> us_state \<Rightarrow> us_state \<Rightarrow> bool" for N where
  recv: "w \<in> N \<Longrightarrow> us_pcs s w = WIdle \<Longrightarrow> u_open (us_l s) \<Longrightarrow>
     us_step N s ((us_go s w (WGot a seg))\<lparr>us_in := us_in s @ [(a, seg)]\<rparr>)"
| recv_err: "w \<in> N \<Longrightarrow> us_pcs s w = WIdle \<Longrightarrow> us_step N s ((us_go s w WEnd)\<lparr>us_l := u_close (us_l s)\<rparr>)"
| has: "us_pcs s w = WGot a seg \<Longrightarrow> u_conns (us_l s) a = Some i \<Longrightarrow> us_step N s (us_go s w (WLoad a i seg False))"
| has_not: "us_pcs s w = WGot a seg \<Longrightarrow> u_conns (us_l s) a = None \<Longrightarrow> us_step N s (us_go s w (WNew a seg))"
| register: "us_pcs s w = WNew a seg \<Longrightarrow>
     us_step N s ((us_go s w (WLoad a (u_next (us_l s)) seg True))\<lparr>us_l := u_register (us_l s) a\<rparr>)"
| load_closed: "us_pcs s w = WLoad a i seg f \<Longrightarrow> us_heap s i = Some c \<Longrightarrow> ac_closed c \<Longrightarrow>
     us_step N s (us_go s w (us_after i f))"
| load_open: "us_pcs s w = WLoad a i seg f \<Longrightarrow> us_heap s i = Some c \<Longrightarrow> \<not> ac_closed c \<Longrightarrow>
     us_step N s (us_go s w (WSelect a i seg f))"
| send_seg: "us_pcs s w = WSelect a i seg f \<Longrightarrow> us_heap s i = Some c \<Longrightarrow> \<not> ac_chclosed c \<Longrightarrow> length (ac_buff c) < 128 \<Longrightarrow>
     us_step N s (us_set (us_go s w (us_after i f)) i (c\<lparr>ac_buff := ac_buff c @ [seg]\<rparr>))"
| send_panic: "us_pcs s w = WSelect a i seg f \<Longrightarrow> us_heap s i = Some c \<Longrightarrow> ac_chclosed c \<Longrightarrow>
     us_step N s (us_go s w (WPanic i))"
| send_full: "us_pcs s w = WSelect a i seg f \<Longrightarrow> us_heap s i = Some c \<Longrightarrow> \<not> ac_chclosed c \<Longrightarrow> 128 \<le> length (ac_buff c) \<Longrightarrow>
     us_step N s (us_go s w (WTake a i seg f))"
| take_seg: "us_pcs s w = WTake a i seg f \<Longrightarrow> us_heap s i = Some c \<Longrightarrow> ac_buff c = x # rest \<Longrightarrow>
     us_step N s (us_set (us_go s w (WLoad a i seg f)) i (c\<lparr>ac_buff := rest\<rparr>))"
| take_nil: "us_pcs s w = WTake a i seg f \<Longrightarrow> us_heap s i = Some c \<Longrightarrow> ac_buff c = [] \<Longrightarrow> ac_chclosed c \<Longrightarrow>
     us_step N s (us_go s w (WLoad a i seg f))"
| offer_no: "us_pcs s w = WOffer i \<Longrightarrow> u_closed (us_l s) \<Longrightarrow> us_step N s (us_go s w WIdle)"
| offer: "us_pcs s w = WOffer i \<Longrightarrow> \<not> u_closed (us_l s) \<Longrightarrow> us_step N s (us_go s w (WOfferSend i))"
| offer_panic: "us_pcs s w = WOfferSend i \<Longrightarrow> u_chclosed (us_l s) \<Longrightarrow> us_step N s (us_go s w WPanicCh)"
| offer_send: "us_pcs s w = WOfferSend i \<Longrightarrow> \<not> u_chclosed (us_l s) \<Longrightarrow>
     us_step N s ((us_go s w WIdle)\<lparr>us_l := (us_l s)\<lparr>u_ch := (if length (u_ch (us_l s)) < 32 then u_ch (us_l s) @ [i] else u_ch (us_l s))\<rparr>\<rparr>)"
| accept: "u_Accept (us_l s) = (l', AcceptOk i) \<Longrightarrow> us_step N s (s\<lparr>us_l := l', us_acc := insert i (us_acc s)\<rparr>)"
| stop: "us_step N s (s\<lparr>us_l := u_close (us_l s)\<rparr>)"
| read: "i \<in> us_acc s \<Longrightarrow> us_heap s i = Some c \<Longrightarrow> ac_buff c = x # rest \<Longrightarrow> ac_Read c n = (c', res) \<Longrightarrow>
     us_step N s ((us_set s i c')\<lparr>us_got := (us_got s)(i := us_got s i @ [x])\<rparr>)"
| close_store: "i \<in> us_acc s \<Longrightarrow> us_cl s i = ClNo \<Longrightarrow> us_heap s i = Some c \<Longrightarrow>
     us_step N s (us_set (us_at s i ClStored) i (c\<lparr>ac_closed := True\<rparr>))"
| close_chan: "us_cl s i = ClStored \<Longrightarrow> us_heap s i = Some c \<Longrightarrow>
     us_step N s (us_set (us_at s i ClChan) i (c\<lparr>ac_chclosed := True\<rparr>))"
| close_len: "us_cl s i = ClChan \<Longrightarrow>
     us_step N s (us_at s i (if card (dom (u_conns (us_l s))) = 1 then ClNow else ClLater))"
| close_now: "us_cl s i = ClNow \<Longrightarrow> us_heap s i = Some c \<Longrightarrow>
     us_step N s ((us_at s i ClDrain)\<lparr>us_l := u__del (us_l s) (ac_raddr c)\<rparr>)"
| close_later: "us_cl s i = ClLater \<Longrightarrow> us_heap s i = Some c \<Longrightarrow>
     us_step N s ((us_at s i ClDrain)\<lparr>us_l := (us_l s)\<lparr>u_timers := u_timers (us_l s) @ [ac_raddr c]\<rparr>\<rparr>)"
| close_drain: "us_cl s i = ClDrain \<Longrightarrow> us_heap s i = Some c \<Longrightarrow> ac_buff c = x # rest \<Longrightarrow>
     us_step N s (us_set s i (c\<lparr>ac_buff := rest\<rparr>))"
| close_end: "us_cl s i = ClDrain \<Longrightarrow> us_heap s i = Some c \<Longrightarrow> ac_buff c = [] \<Longrightarrow> us_step N s (us_at s i ClDone)"
| timer: "a \<in> set (u_timers (us_l s)) \<Longrightarrow>
     us_step N s (s\<lparr>us_l := u__del ((us_l s)\<lparr>u_timers := remove1 a (u_timers (us_l s))\<rparr>) a\<rparr>)"

inductive us_reach :: "nat set \<Rightarrow> us_state \<Rightarrow> bool" for N where
  init: "us_reach N us_init"
| step: "us_reach N s \<Longrightarrow> us_step N s t \<Longrightarrow> us_reach N t"

lemmas us_defs = us_go_def us_at_def us_set_def us_after_def

section \<open>Segments stay with their sender\<close>

text \<open>What any number of workers keep. The table names connections under their own address, the
  connection a worker holds is one of the address it read from, and everything queued for a
  connection or read from it came from its remote.\<close>

definition us_conn_ok :: "us_state \<Rightarrow> nat \<Rightarrow> acceptConn \<Rightarrow> bool" where
  "us_conn_ok s i c \<longleftrightarrow> i < u_next (us_l s) \<and> length (ac_buff c) \<le> 128 \<and> (ac_chclosed c \<longrightarrow> ac_closed c)
     \<and> (\<forall>x \<in> set (us_got s i) \<union> set (ac_buff c). (ac_raddr c, x) \<in> set (us_in s))"

definition us_pc_ok :: "us_state \<Rightarrow> us_pc \<Rightarrow> bool" where
  "us_pc_ok s pc \<longleftrightarrow>
     (case pc of
        WGot a seg \<Rightarrow> (a, seg) \<in> set (us_in s)
      | WNew a seg \<Rightarrow> (a, seg) \<in> set (us_in s)
      | WLoad a i seg f \<Rightarrow> (a, seg) \<in> set (us_in s) \<and> (\<exists>c. us_heap s i = Some c \<and> ac_raddr c = a)
      | WSelect a i seg f \<Rightarrow> (a, seg) \<in> set (us_in s) \<and> (\<exists>c. us_heap s i = Some c \<and> ac_raddr c = a)
      | WTake a i seg f \<Rightarrow> (a, seg) \<in> set (us_in s) \<and> (\<exists>c. us_heap s i = Some c \<and> ac_raddr c = a)
      | WPanic i \<Rightarrow> (\<exists>c. us_heap s i = Some c \<and> ac_closed c)
      | WPanicCh \<Rightarrow> u_closed (us_l s)
      | _ \<Rightarrow> True)"

definition us_inv :: "nat set \<Rightarrow> us_state \<Rightarrow> bool" where
  "us_inv N s \<longleftrightarrow> (\<forall>a i. u_conns (us_l s) a = Some i \<longrightarrow> (\<exists>c. us_heap s i = Some c \<and> ac_raddr c = a))
     \<and> (\<forall>i c. us_heap s i = Some c \<longrightarrow> us_conn_ok s i c)
     \<and> (\<forall>i. u_next (us_l s) \<le> i \<longrightarrow> us_got s i = [] \<and> us_cl s i = ClNo)
     \<and> (\<forall>w. us_pc_ok s (us_pcs s w)) \<and> (\<forall>w. w \<notin> N \<longrightarrow> us_pcs s w = WIdle)
     \<and> (u_chclosed (us_l s) \<longrightarrow> u_closed (us_l s))
     \<and> (\<forall>i c. us_heap s i = Some c \<longrightarrow> (ac_closed c \<longleftrightarrow> us_cl s i \<noteq> ClNo))"
lemma us_go_fields [simp]: "us_l (us_go s w pc) = us_l s" "us_in (us_go s w pc) = us_in s" "us_got (us_go s w pc) = us_got s"
  "us_cl (us_go s w pc) = us_cl s" "us_acc (us_go s w pc) = us_acc s" "us_pcs (us_go s w pc) = (us_pcs s)(w := pc)"
  by (simp_all add: us_go_def)

lemma us_at_fields [simp]: "us_l (us_at s i cl) = us_l s" "us_in (us_at s i cl) = us_in s" "us_got (us_at s i cl) = us_got s"
  "us_cl (us_at s i cl) = (us_cl s)(i := cl)" "us_acc (us_at s i cl) = us_acc s" "us_pcs (us_at s i cl) = us_pcs s"
  by (simp_all add: us_at_def)

lemma us_set_fields [simp]: "us_heap (us_set s i c) = (us_heap s)(i \<mapsto> c)" "u_conns (us_l (us_set s i c)) = u_conns (us_l s)"
  "u_next (us_l (us_set s i c)) = u_next (us_l s)" "u_closed (us_l (us_set s i c)) = u_closed (us_l s)"
  "u_chclosed (us_l (us_set s i c)) = u_chclosed (us_l s)" "u_timers (us_l (us_set s i c)) = u_timers (us_l s)"
  "us_in (us_set s i c) = us_in s" "us_got (us_set s i c) = us_got s"
  "us_cl (us_set s i c) = us_cl s" "us_acc (us_set s i c) = us_acc s" "us_pcs (us_set s i c) = us_pcs s"
  by (simp_all add: us_set_def)

lemma us_pc_ok_mono:
  assumes "us_pc_ok s pc" "set (us_in s) \<subseteq> set (us_in t)" "u_closed (us_l s) \<Longrightarrow> u_closed (us_l t)"
    and "\<And>i c. us_heap s i = Some c \<Longrightarrow> \<exists>c'. us_heap t i = Some c' \<and> ac_raddr c' = ac_raddr c \<and> (ac_closed c \<longrightarrow> ac_closed c')"
  shows "us_pc_ok t pc"
  using assms unfolding us_pc_ok_def by (cases pc) (simp_all, blast+)

lemma us_pc_ok_same:
  "us_l s = us_l t \<Longrightarrow> us_in s = us_in t \<Longrightarrow> us_pc_ok s pc = us_pc_ok t pc"
  by (simp add: us_pc_ok_def cong: us_pc.case_cong)

lemma us_invI:
  assumes "\<And>a i. u_conns (us_l s) a = Some i \<Longrightarrow> \<exists>c. us_heap s i = Some c \<and> ac_raddr c = a"
    and "\<And>i c. us_heap s i = Some c \<Longrightarrow> us_conn_ok s i c"
    and "\<And>i. u_next (us_l s) \<le> i \<Longrightarrow> us_got s i = [] \<and> us_cl s i = ClNo"
    and "\<And>w. us_pc_ok s (us_pcs s w)"
    and "\<And>w. w \<notin> N \<Longrightarrow> us_pcs s w = WIdle"
    and "u_chclosed (us_l s) \<Longrightarrow> u_closed (us_l s)"
    and "\<And>i c. us_heap s i = Some c \<Longrightarrow> ac_closed c \<longleftrightarrow> us_cl s i \<noteq> ClNo"
  shows "us_inv N s"
  unfolding us_inv_def using assms by blast

lemma us_invD:
  assumes "us_inv N s"
  shows "u_conns (us_l s) a = Some i \<Longrightarrow> \<exists>c. us_heap s i = Some c \<and> ac_raddr c = a"
    and "us_heap s i = Some c \<Longrightarrow> us_conn_ok s i c"
    and "u_next (us_l s) \<le> i \<Longrightarrow> us_got s i = [] \<and> us_cl s i = ClNo"
    and "us_pc_ok s (us_pcs s w)"
    and "us_pcs s w \<noteq> WIdle \<Longrightarrow> w \<in> N"
    and "u_chclosed (us_l s) \<Longrightarrow> u_closed (us_l s)"
    and "us_heap s i = Some c \<Longrightarrow> ac_closed c \<longleftrightarrow> us_cl s i \<noteq> ClNo"
  using assms unfolding us_inv_def by blast+

lemma us_inv_go: "us_inv N s \<Longrightarrow> us_pc_ok s pc \<Longrightarrow> w \<in> N \<Longrightarrow> us_inv N (us_go s w pc)"
proof (rule us_invI)
  assume inv: "us_inv N s" and pc: "us_pc_ok s pc" and w: "w \<in> N"
  have same: "us_pc_ok (us_go s w pc) = us_pc_ok s" by (intro ext us_pc_ok_same) simp_all
  show "us_pc_ok (us_go s w pc) (us_pcs (us_go s w pc) v)" for v using us_invD(4) [OF inv] pc by (simp add: same)
  show "us_pcs (us_go s w pc) v = WIdle" if "v \<notin> N" for v using that w us_invD(5) [OF inv, of v] by auto
  show "us_conn_ok (us_go s w pc) i c" if "us_heap (us_go s w pc) i = Some c" for i c
    using us_invD(2) [OF inv, of i c] that by (simp add: us_conn_ok_def)
qed (simp_all add: us_invD)

text \<open>A worker moves on, or does nothing but that.\<close>

lemma us_inv_move: "us_inv N s \<Longrightarrow> us_pcs s w \<noteq> WIdle \<Longrightarrow> us_pc_ok s pc \<Longrightarrow> us_inv N (us_go s w pc)"
  by (rule us_inv_go) (auto dest: us_invD(5))

text \<open>One connection changes, with the state of its \<open>Close\<close>.\<close>

lemma us_inv_set:
  assumes inv: "us_inv N s" and c: "us_heap s i = Some c" "ac_raddr c' = ac_raddr c" "us_conn_ok s i c'"
    "ac_closed c \<longrightarrow> ac_closed c'" "ac_closed c' \<longleftrightarrow> cl \<noteq> ClNo"
  shows "us_inv N (us_set (us_at s i cl) i c')"
proof -
  let ?t = "us_set (us_at s i cl) i c'"
  have pc: "us_pc_ok ?t (us_pcs s w)" for w
    by (rule us_pc_ok_mono [OF us_invD(4) [OF inv]]) (use c in auto)
  have ok: "us_conn_ok ?t j d = us_conn_ok s j d" for j d by (simp add: us_conn_ok_def)
  have "i < u_next (us_l s)" using us_invD(2) [OF inv c(1)] by (simp add: us_conn_ok_def)
  show ?thesis
  proof (rule us_invI)
    show "\<exists>d. us_heap ?t j = Some d \<and> ac_raddr d = a" if "u_conns (us_l ?t) a = Some j" for a j
      using us_invD(1) [OF inv, of a j] that c(1,2) by auto
    show "us_conn_ok ?t j d" if "us_heap ?t j = Some d" for j d
      using us_invD(2) [OF inv, of j d] that c(3) by (auto simp: ok split: if_splits)
    show "us_got ?t j = [] \<and> us_cl ?t j = ClNo" if "u_next (us_l ?t) \<le> j" for j
      using us_invD(3) [OF inv, of j] that \<open>i < u_next (us_l s)\<close> by auto
    show "us_pc_ok ?t (us_pcs ?t w)" for w using pc by simp
    show "us_pcs ?t w = WIdle" if "w \<notin> N" for w using us_invD(5) [OF inv, of w] that by auto
    show "u_closed (us_l ?t)" if "u_chclosed (us_l ?t)" using us_invD(6) [OF inv] that by simp
    show "ac_closed d \<longleftrightarrow> us_cl ?t j \<noteq> ClNo" if "us_heap ?t j = Some d" for j d
      using us_invD(7) [OF inv, of j d] that c(5) by (auto split: if_splits)
  qed
qed

lemma us_inv_set_same:
  assumes "us_inv N s" "us_heap s i = Some c" "ac_raddr c' = ac_raddr c" "us_conn_ok s i c'" "ac_closed c' = ac_closed c"
  shows "us_inv N (us_set s i c')"
proof -
  have "us_at s i (us_cl s i) = s" by (simp add: us_at_def)
  with us_inv_set [OF assms(1-4), of "us_cl s i"] assms(5) us_invD(7) [OF assms(1,2)] show ?thesis by simp
qed

text \<open>The listener changes, and no connection.\<close>

lemma us_inv_l:
  assumes inv: "us_inv N s" and l: "u_heap l = us_heap s" "u_next l = u_next (us_l s)" "u_conns l \<subseteq>\<^sub>m u_conns (us_l s)"
    "u_closed (us_l s) \<Longrightarrow> u_closed l" "u_chclosed l \<Longrightarrow> u_closed l"
  shows "us_inv N (s\<lparr>us_l := l\<rparr>)"
proof -
  have pc: "us_pc_ok (s\<lparr>us_l := l\<rparr>) (us_pcs s w)" for w
    by (rule us_pc_ok_mono [OF us_invD(4) [OF inv]]) (use l in auto)
  have conns: "u_conns l a = Some i \<Longrightarrow> u_conns (us_l s) a = Some i" for a i
    using l(3) by (metis domI map_le_def)
  show ?thesis
  proof (rule us_invI)
    show "us_pcs (s\<lparr>us_l := l\<rparr>) w = WIdle" if "w \<notin> N" for w using us_invD(5) [OF inv, of w] that by auto
    show "us_conn_ok (s\<lparr>us_l := l\<rparr>) i c" if "us_heap (s\<lparr>us_l := l\<rparr>) i = Some c" for i c
      using us_invD(2) [OF inv, of i c] that l by (simp add: us_conn_ok_def)
    show "\<exists>c. us_heap (s\<lparr>us_l := l\<rparr>) i = Some c \<and> ac_raddr c = a" if "u_conns (us_l (s\<lparr>us_l := l\<rparr>)) a = Some i" for a i
      using us_invD(1) [OF inv conns] that l by simp
  qed (use us_invD [OF inv] l pc in simp_all)
qed

lemma us_inv_at:
  assumes "us_inv N s" "us_cl s i \<noteq> ClNo" "cl \<noteq> ClNo"
  shows "us_inv N (us_at s i cl)"
proof -
  have "i < u_next (us_l s)" using us_invD(3) [OF assms(1), of i] assms(2) not_le by blast
  note inv = assms(1)
  have same: "us_pc_ok (us_at s i cl) = us_pc_ok s" by (intro ext us_pc_ok_same) simp_all
  show ?thesis
  proof (rule us_invI)
    show "us_pcs (us_at s i cl) w = WIdle" if "w \<notin> N" for w using us_invD(5) [OF inv, of w] that by auto
    show "us_conn_ok (us_at s i cl) j c" if "us_heap (us_at s i cl) j = Some c" for j c
      using us_invD(2) [OF inv, of j c] that by (simp add: us_conn_ok_def)
    show "us_got (us_at s i cl) j = [] \<and> us_cl (us_at s i cl) j = ClNo" if "u_next (us_l (us_at s i cl)) \<le> j" for j
      using us_invD(3) [OF inv, of j] that \<open>i < u_next (us_l s)\<close> by auto
    show "ac_closed c \<longleftrightarrow> us_cl (us_at s i cl) j \<noteq> ClNo" if "us_heap (us_at s i cl) j = Some c" for j c
      using us_invD(7) [OF inv, of j c] that assms(2,3) by auto
  qed (use us_invD [OF inv] same in simp_all)
qed
lemma us_conn_okD:
  "us_conn_ok s i c \<Longrightarrow> length (ac_buff c) \<le> 128" "us_conn_ok s i c \<Longrightarrow> i < u_next (us_l s)"
  by (simp_all add: us_conn_ok_def)

lemma us_after_ok [simp]: "us_pc_ok s (us_after i f)"
  by (simp add: us_after_def us_pc_ok_def)

text \<open>A connection whose channel is shorter, or longer by a segment of its remote.\<close>

lemma us_conn_ok_buff:
  "us_conn_ok s i c \<Longrightarrow> set b \<subseteq> set (ac_buff c) \<Longrightarrow> length b \<le> 128 \<Longrightarrow> us_conn_ok s i (c\<lparr>ac_buff := b\<rparr>)"
  by (auto simp: us_conn_ok_def)

lemma us_conn_ok_send:
  "us_conn_ok s i c \<Longrightarrow> (ac_raddr c, seg) \<in> set (us_in s) \<Longrightarrow> length (ac_buff c) < 128 \<Longrightarrow>
    us_conn_ok s i (c\<lparr>ac_buff := ac_buff c @ [seg]\<rparr>)"
  by (auto simp: us_conn_ok_def)

lemma us_conn_ok_same: "u_next (us_l s) = u_next (us_l t) \<Longrightarrow> us_in s = us_in t \<Longrightarrow> us_got s = us_got t \<Longrightarrow>
    us_conn_ok s i c = us_conn_ok t i c"
  by (simp add: us_conn_ok_def)

lemma us_register_inv:
  assumes inv: "us_inv N s" and pc: "us_pcs s w = WNew a seg"
  shows "us_inv N ((us_go s w (WLoad a (u_next (us_l s)) seg True))\<lparr>us_l := u_register (us_l s) a\<rparr>)"
proof -
  let ?n = "u_next (us_l s)" and ?l = "u_register (us_l s) a"
  let ?t = "(us_go s w (WLoad a ?n seg True))\<lparr>us_l := ?l\<rparr>"
  have l: "u_heap ?l = (us_heap s)(?n \<mapsto> newAcceptConn a)" "u_conns ?l = (u_conns (us_l s))(a \<mapsto> ?n)"
    "u_next ?l = ?n + 1" "u_closed ?l = u_closed (us_l s)" "u_chclosed ?l = u_chclosed (us_l s)"
    by (simp_all add: u_register_def)
  have fresh: "us_heap s i = Some c \<Longrightarrow> i \<noteq> ?n" for i c using us_invD(2) [OF inv, of i c] by (auto simp: us_conn_ok_def)
  have seg: "(a, seg) \<in> set (us_in s)" using us_invD(4) [OF inv, of w] pc by (simp add: us_pc_ok_def)
  have mono: "us_pc_ok ?t pc" if "us_pc_ok s pc" for pc
    by (rule us_pc_ok_mono [OF that]) (use l fresh in auto)
  have new: "us_pc_ok ?t (WLoad a ?n seg True)" using seg l by (simp add: us_pc_ok_def newAcceptConn_def)
  show ?thesis
  proof (rule us_invI)
    show "\<exists>c. us_heap ?t i = Some c \<and> ac_raddr c = b" if "u_conns (us_l ?t) b = Some i" for b i
      using that us_invD(1) [OF inv, of b i] fresh l by (cases "b = a") (auto simp: newAcceptConn_def)
    show "us_conn_ok ?t i c" if "us_heap ?t i = Some c" for i c
      using that us_invD(2) [OF inv, of i c] us_invD(3) [OF inv, of ?n] l
      by (auto simp: us_conn_ok_def newAcceptConn_def split: if_splits)
    show "us_got ?t i = [] \<and> us_cl ?t i = ClNo" if "u_next (us_l ?t) \<le> i" for i
      using that us_invD(3) [OF inv, of i] l by simp
    show "us_pc_ok ?t (us_pcs ?t v)" for v using us_invD(4) [OF inv] mono new by simp
    show "us_pcs ?t v = WIdle" if "v \<notin> N" for v using us_invD(5) [OF inv] that pc by force
    show "u_closed (us_l ?t)" if "u_chclosed (us_l ?t)" using us_invD(6) [OF inv] that l by simp
    show "ac_closed c \<longleftrightarrow> us_cl ?t i \<noteq> ClNo" if "us_heap ?t i = Some c" for i c
      using that us_invD(7) [OF inv, of i c] us_invD(3) [OF inv, of ?n] l by (auto simp: newAcceptConn_def split: if_splits)
  qed
qed

lemma us_recv_inv:
  assumes inv: "us_inv N s" and w: "w \<in> N"
  shows "us_inv N ((us_go s w (WGot a seg))\<lparr>us_in := us_in s @ [(a, seg)]\<rparr>)"
proof -
  let ?t = "(us_go s w (WGot a seg))\<lparr>us_in := us_in s @ [(a, seg)]\<rparr>"
  have mono: "us_pc_ok ?t pc" if "us_pc_ok s pc" for pc by (rule us_pc_ok_mono [OF that]) auto
  have new: "us_pc_ok ?t (WGot a seg)" by (simp add: us_pc_ok_def)
  show ?thesis
  proof (rule us_invI)
    show "us_conn_ok ?t i c" if "us_heap ?t i = Some c" for i c
      using that us_invD(2) [OF inv, of i c] by (auto simp: us_conn_ok_def)
    show "us_pc_ok ?t (us_pcs ?t v)" for v using us_invD(4) [OF inv] mono new by simp
    show "us_pcs ?t v = WIdle" if "v \<notin> N" for v using us_invD(5) [OF inv] that w by force
  qed (simp_all add: us_invD [OF inv])
qed

lemma us_read_inv:
  assumes inv: "us_inv N s" and c: "us_heap s i = Some c" "ac_buff c = x # rest" "ac_Read c n = (c', res)"
  shows "us_inv N ((us_set s i c')\<lparr>us_got := (us_got s)(i := us_got s i @ [x])\<rparr>)"
proof -
  have c': "c' = c\<lparr>ac_buff := rest\<rparr>" using c(2,3) by (auto simp: ac_Read_def Let_def split: if_splits)
  have ok: "us_conn_ok s i c" by (rule us_invD(2) [OF inv c(1)])
  have x: "(ac_raddr c, x) \<in> set (us_in s)" using ok c(2) by (simp add: us_conn_ok_def)
  have "us_conn_ok s i c'" unfolding c' using us_conn_okD(1) [OF ok] c(2) by (intro us_conn_ok_buff [OF ok]) auto
  from us_inv_set_same [OF inv c(1) _ this] have set: "us_inv N (us_set s i c')" by (simp add: c')
  let ?t = "(us_set s i c')\<lparr>us_got := (us_got s)(i := us_got s i @ [x])\<rparr>"
  have same: "us_pc_ok ?t = us_pc_ok (us_set s i c')" by (intro ext us_pc_ok_same) simp_all
  show ?thesis
  proof (rule us_invI)
    show "us_conn_ok ?t j d" if "us_heap ?t j = Some d" for j d
      using that us_invD(2) [OF set, of j d] x c' by (auto simp: us_conn_ok_def split: if_splits)
    show "us_got ?t j = [] \<and> us_cl ?t j = ClNo" if "u_next (us_l ?t) \<le> j" for j
      using that us_invD(3) [OF set, of j] us_conn_okD(2) [OF ok] by auto
    show "us_pc_ok ?t (us_pcs ?t v)" for v using us_invD(4) [OF set] by (simp add: same)
  qed (use us_invD [OF set] in force)+
qed

lemma us_step_inv: "us_step N s t \<Longrightarrow> us_inv N s \<Longrightarrow> us_inv N t"
proof (induction rule: us_step.induct)
  case (recv w s a seg)
  then show ?case by (simp add: us_recv_inv)
next
  case (recv_err w s)
  then have "us_inv N (us_go s w WEnd)" by (intro us_inv_go) (simp_all add: us_pc_ok_def)
  from us_inv_l [OF this, of "u_close (us_l s)"] recv_err.prems show ?case
    by (auto simp: u_close_def dest: us_invD(6))
next
  case (has s w a seg i)
  with us_invD(1) [OF has.prems has.hyps(2)] us_invD(4) [OF has.prems, of w] show ?case
    by (intro us_inv_move) (auto simp: us_pc_ok_def)
next
  case (has_not s w a seg)
  with us_invD(4) [OF has_not.prems, of w] show ?case by (intro us_inv_move) (auto simp: us_pc_ok_def)
next
  case (register s w a seg)
  then show ?case by (simp add: us_register_inv)
next
  case (load_closed s w a i seg f c)
  then show ?case by (intro us_inv_move) simp_all
next
  case (load_open s w a i seg f c)
  with us_invD(4) [OF load_open.prems, of w] show ?case by (intro us_inv_move) (auto simp: us_pc_ok_def)
next
  case (send_seg s w a i seg f c)
  have pc: "us_pc_ok s (WSelect a i seg f)" using us_invD(4) [OF send_seg.prems, of w] send_seg.hyps(1) by simp
  then have seg: "(ac_raddr c, seg) \<in> set (us_in s)" using send_seg.hyps(2) by (auto simp: us_pc_ok_def)
  have "us_inv N (us_go s w (us_after i f))" using send_seg by (intro us_inv_move) simp_all
  then show ?case
    by (rule us_inv_set_same) (use send_seg seg us_invD(2) [OF send_seg.prems send_seg.hyps(2)] in \<open>auto simp: us_conn_ok_def\<close>)
next
  case (send_panic s w a i seg f c)
  with us_invD(2) [OF send_panic.prems send_panic.hyps(2)] show ?case
    by (intro us_inv_move) (auto simp: us_pc_ok_def us_conn_ok_def)
next
  case (send_full s w a i seg f c)
  with us_invD(4) [OF send_full.prems, of w] show ?case by (intro us_inv_move) (auto simp: us_pc_ok_def)
next
  case (take_seg s w a i seg f c x rest)
  with us_invD(4) [OF take_seg.prems, of w] have "us_inv N (us_go s w (WLoad a i seg f))"
    by (intro us_inv_move) (auto simp: us_pc_ok_def)
  then show ?case
    by (rule us_inv_set_same) (use take_seg us_invD(2) [OF take_seg.prems take_seg.hyps(2)] in \<open>auto simp: us_conn_ok_def\<close>)
next
  case (take_nil s w a i seg f c)
  with us_invD(4) [OF take_nil.prems, of w] show ?case by (intro us_inv_move) (auto simp: us_pc_ok_def)
next
  case (offer_no s w i)
  then show ?case by (intro us_inv_move) (simp_all add: us_pc_ok_def)
next
  case (offer s w i)
  then show ?case by (intro us_inv_move) (simp_all add: us_pc_ok_def)
next
  case (offer_panic s w i)
  then show ?case by (intro us_inv_move) (auto simp: us_pc_ok_def dest: us_invD(6))
next
  case (offer_send s w i)
  then have "us_inv N (us_go s w WIdle)" by (intro us_inv_move) (simp_all add: us_pc_ok_def)
  then show ?case by (rule us_inv_l) (use offer_send.prems in \<open>auto dest: us_invD(6)\<close>)
next
  case (accept s l' i)
  then have "us_inv N (s\<lparr>us_l := l'\<rparr>)"
    by (intro us_inv_l) (auto simp: u_Accept_def split: list.splits if_splits dest: us_invD(6))
  then show ?case by (simp add: us_inv_def us_conn_ok_def us_pc_ok_def cong: us_pc.case_cong)
next
  case (stop s)
  then show ?case by (intro us_inv_l) (auto simp: u_close_def dest: us_invD(6))
next
  case (read i s c x rest n c' res)
  then show ?case by (simp add: us_read_inv)
next
  case (close_store i s c)
  then show ?case
    by (intro us_inv_set) (use us_invD(2) [OF close_store.prems close_store.hyps(3)] in \<open>auto simp: us_conn_ok_def\<close>)
next
  case (close_chan s i c)
  then show ?case
    by (intro us_inv_set)
      (use us_invD(2) [OF close_chan.prems close_chan.hyps(2)] us_invD(7) [OF close_chan.prems close_chan.hyps(2)] in \<open>auto simp: us_conn_ok_def\<close>)
next
  case (close_len s i)
  then show ?case by (intro us_inv_at) simp_all
next
  case (close_now s i c)
  then have "us_inv N (us_at s i ClDrain)" by (intro us_inv_at) simp_all
  then show ?case by (rule us_inv_l) (use close_now.prems in \<open>auto simp: map_le_def dest: us_invD(6)\<close>)
next
  case (close_later s i c)
  then have "us_inv N (us_at s i ClDrain)" by (intro us_inv_at) simp_all
  then show ?case by (rule us_inv_l) (use close_later.prems in \<open>auto dest: us_invD(6)\<close>)
next
  case (close_drain s i c x rest)
  then show ?case
    by (intro us_inv_set_same [OF close_drain.prems])
      (use us_invD(2) [OF close_drain.prems close_drain.hyps(2)] in \<open>auto simp: us_conn_ok_def\<close>)
next
  case (close_end s i c)
  then show ?case by (intro us_inv_at) simp_all
next
  case (timer a s)
  then show ?case by (intro us_inv_l) (auto simp: map_le_def dest: us_invD(6))
qed

lemma us_init_inv: "us_inv N us_init"
  by (simp add: us_inv_def us_init_def u_Listen_def us_pc_ok_def)

lemma us_reach_inv: "us_reach N s \<Longrightarrow> us_inv N s"
  by (induction rule: us_reach.induct) (auto intro: us_init_inv us_step_inv)
section \<open>One worker\<close>

text \<open>With one worker a connection stays in the table until its \<open>Close\<close> or its timer deletes it,
  so no second one is registered for its remote before.\<close>

definition us_live :: "us_close \<Rightarrow> bool" where
  "us_live cl \<longleftrightarrow> cl \<noteq> ClDrain \<and> cl \<noteq> ClDone"

definition us_tab :: "us_state \<Rightarrow> bool" where
  "us_tab s \<longleftrightarrow> (\<forall>i c. us_heap s i = Some c \<longrightarrow> us_live (us_cl s i) \<longrightarrow> u_conns (us_l s) (ac_raddr c) = Some i)
     \<and> distinct (u_timers (us_l s))
     \<and> (\<forall>a \<in> set (u_timers (us_l s)). \<exists>i. u_conns (us_l s) a = Some i \<and> \<not> us_live (us_cl s i))
     \<and> (\<forall>a seg. us_pcs s 0 = WNew a seg \<longrightarrow> u_conns (us_l s) a = None)"

lemma us_live_simps [simp]: "us_live ClNo" "us_live ClStored" "us_live ClChan" "us_live ClNow" "us_live ClLater"
    "\<not> us_live ClDrain" "\<not> us_live ClDone"
  by (simp_all add: us_live_def)

lemma us_tabI:
  assumes "\<And>i c. us_heap s i = Some c \<Longrightarrow> us_live (us_cl s i) \<Longrightarrow> u_conns (us_l s) (ac_raddr c) = Some i"
    and "distinct (u_timers (us_l s))"
    and "\<And>a. a \<in> set (u_timers (us_l s)) \<Longrightarrow> \<exists>i. u_conns (us_l s) a = Some i \<and> \<not> us_live (us_cl s i)"
    and "\<And>a seg. us_pcs s 0 = WNew a seg \<Longrightarrow> u_conns (us_l s) a = None"
  shows "us_tab s"
  unfolding us_tab_def using assms by blast

lemma us_tabD:
  assumes "us_tab s"
  shows "us_heap s i = Some c \<Longrightarrow> us_live (us_cl s i) \<Longrightarrow> u_conns (us_l s) (ac_raddr c) = Some i"
    and "distinct (u_timers (us_l s))"
    and "a \<in> set (u_timers (us_l s)) \<Longrightarrow> \<exists>i. u_conns (us_l s) a = Some i \<and> \<not> us_live (us_cl s i)"
    and "us_pcs s 0 = WNew a seg \<Longrightarrow> u_conns (us_l s) a = None"
  using assms unfolding us_tab_def by blast+

lemma us_tab_frame:
  assumes tab: "us_tab s" and t: "u_conns (us_l t) = u_conns (us_l s)" "u_timers (us_l t) = u_timers (us_l s)"
    "\<And>i. us_live (us_cl t i) = us_live (us_cl s i)"
    "\<And>i c. us_heap t i = Some c \<Longrightarrow> \<exists>c0. us_heap s i = Some c0 \<and> ac_raddr c0 = ac_raddr c"
    "\<And>a seg. us_pcs t 0 = WNew a seg \<Longrightarrow> u_conns (us_l s) a = None"
  shows "us_tab t"
proof (rule us_tabI)
  show "u_conns (us_l t) (ac_raddr c) = Some i" if "us_heap t i = Some c" "us_live (us_cl t i)" for i c
    using t(4) [OF that(1)] us_tabD(1) [OF tab, of i] that(2) t(1,3) by auto
qed (use us_tabD(2,3) [OF tab] t in auto)

text \<open>Deleting the entry of a connection that is not live any more.\<close>

lemma us_tab_del:
  assumes tab: "us_tab s" and a: "u_conns (us_l s) a = Some i" "\<not> us_live (cl i)" "\<And>j. j \<noteq> i \<Longrightarrow> cl j = us_cl s j"
    and ts: "distinct ts" "a \<notin> set ts" "set ts \<subseteq> set (u_timers (us_l s))" "us_live (us_cl s i) \<or> cl = us_cl s"
  shows "us_tab (s\<lparr>us_cl := cl, us_l := u__del ((us_l s)\<lparr>u_timers := ts\<rparr>) a\<rparr>)" (is "us_tab ?t")
proof (rule us_tabI)
  show "u_conns (us_l ?t) (ac_raddr c) = Some j" if "us_heap ?t j = Some c" "us_live (us_cl ?t j)" for j c
  proof -
    have "j \<noteq> i" using that(2) a(2) by auto
    with that a(3) us_tabD(1) [OF tab, of j c] have "u_conns (us_l s) (ac_raddr c) = Some j" by simp
    with a(1) \<open>j \<noteq> i\<close> show ?thesis by auto
  qed
  show "\<exists>j. u_conns (us_l ?t) b = Some j \<and> \<not> us_live (us_cl ?t j)" if "b \<in> set (u_timers (us_l ?t))" for b
  proof -
    have b: "b \<noteq> a" "b \<in> set (u_timers (us_l s))" using that ts by auto
    from us_tabD(3) [OF tab b(2)] obtain j where "u_conns (us_l s) b = Some j" "\<not> us_live (us_cl s j)" by blast
    with b(1) a(2,3) show ?thesis by (cases "j = i") auto
  qed
  show "u_conns (us_l ?t) b = None" if "us_pcs ?t 0 = WNew b seg" for b seg
    using us_tabD(4) [OF tab, of b seg] that by simp
qed (use ts in simp)

lemma us_tab_timer:
  assumes "us_tab s" "a \<in> set (u_timers (us_l s))" "u_conns (us_l s) a = Some i"
  shows "\<not> us_live (us_cl s i)"
  using us_tabD(3) [OF assms(1,2)] assms(3) by simp

lemma us_step_tab: "us_step {0} s t \<Longrightarrow> us_inv {0} s \<Longrightarrow> us_tab s \<Longrightarrow> us_tab t"
proof (induction rule: us_step.induct)
  case (has w s a seg i)
  then show ?case by (intro us_tab_frame [OF has.prems(2)]) (auto split: if_splits dest: us_tabD(4))
next
  case (has_not w s a seg)
  then show ?case by (intro us_tab_frame [OF has_not.prems(2)]) (auto split: if_splits dest: us_tabD(4))
next
  case (register s w a seg)
  have w: "w = 0" using us_invD(5) [OF register.prems(1), of w] register.hyps by simp
  have none: "u_conns (us_l s) a = None" using us_tabD(4) [OF register.prems(2)] register.hyps w by simp
  let ?t = "(us_go s w (WLoad a (u_next (us_l s)) seg True))\<lparr>us_l := u_register (us_l s) a\<rparr>"
  show ?case
  proof (rule us_tabI)
    show "u_conns (us_l ?t) (ac_raddr c) = Some i" if "us_heap ?t i = Some c" "us_live (us_cl ?t i)" for i c
      using that us_tabD(1) [OF register.prems(2), of i c] none
      by (auto simp: u_register_def newAcceptConn_def split: if_splits)
    show "\<exists>i. u_conns (us_l ?t) b = Some i \<and> \<not> us_live (us_cl ?t i)" if "b \<in> set (u_timers (us_l ?t))" for b
      using that us_tabD(3) [OF register.prems(2), of b] none by (auto simp: u_register_def)
  qed (use us_tabD(2) [OF register.prems(2)] w in \<open>simp_all add: u_register_def\<close>)
next
  case (close_store i s c)
  then show ?case by (intro us_tab_frame [OF close_store.prems(2)]) (auto split: if_splits dest: us_tabD(4))
next
  case (close_now s i c)
  have a: "u_conns (us_l s) (ac_raddr c) = Some i" using us_tabD(1) [OF close_now.prems(2) close_now.hyps(2)] close_now.hyps(1) by simp
  have "ac_raddr c \<notin> set (u_timers (us_l s))" using us_tab_timer [OF close_now.prems(2) _ a] close_now.hyps(1) by auto
  with us_tab_del [OF close_now.prems(2) a, of "(us_cl s)(i := ClDrain)" "u_timers (us_l s)"] us_tabD(2) [OF close_now.prems(2)] close_now.hyps(1)
  show ?case by (simp add: us_at_def)
next
  case (close_later s i c)
  have a: "u_conns (us_l s) (ac_raddr c) = Some i" using us_tabD(1) [OF close_later.prems(2) close_later.hyps(2)] close_later.hyps(1) by simp
  have "ac_raddr c \<notin> set (u_timers (us_l s))" using us_tab_timer [OF close_later.prems(2) _ a] close_later.hyps(1) by auto
  note nt = this and D = us_tabD [OF close_later.prems(2)]
  let ?t = "(us_at s i ClDrain)\<lparr>us_l := (us_l s)\<lparr>u_timers := u_timers (us_l s) @ [ac_raddr c]\<rparr>\<rparr>"
  show ?case
  proof (rule us_tabI)
    show "\<exists>j. u_conns (us_l ?t) b = Some j \<and> \<not> us_live (us_cl ?t j)" if "b \<in> set (u_timers (us_l ?t))" for b
    proof (cases "b = ac_raddr c")
      case True
      with a show ?thesis by simp
    next
      case False
      with that D(3) [of b] obtain j where "u_conns (us_l s) b = Some j" "\<not> us_live (us_cl s j)" by auto
      then show ?thesis by (cases "j = i") auto
    qed
    show "u_conns (us_l ?t) (ac_raddr d) = Some j" if "us_heap ?t j = Some d" "us_live (us_cl ?t j)" for j d
      using that D(1) [of j d] by (auto split: if_splits)
    show "distinct (u_timers (us_l ?t))" using D(2) nt by simp
    show "u_conns (us_l ?t) b = None" if "us_pcs ?t 0 = WNew b seg" for b seg using D(4) [of b seg] that by simp
  qed
next
  case (timer a s)
  from us_tabD(3) [OF timer.prems(2) timer.hyps] obtain i where i: "u_conns (us_l s) a = Some i" "\<not> us_live (us_cl s i)" by blast
  have "set (remove1 a (u_timers (us_l s))) \<subseteq> set (u_timers (us_l s))" by (rule set_remove1_subset)
  with us_tab_del [OF timer.prems(2) i(1), of "us_cl s" "remove1 a (u_timers (us_l s))"] i us_tabD(2) [OF timer.prems(2)]
  show ?case by simp
next
  case (accept s l' i)
  then show ?case
    by (intro us_tab_frame [OF accept.prems(2)]) (auto simp: u_Accept_def split: list.splits if_splits dest: us_tabD(4))
next
  case (read i s c x rest n c' res)
  then show ?case
    by (intro us_tab_frame [OF read.prems(2)]) (auto simp: ac_Read_def Let_def split: if_splits dest: us_tabD(4))
qed (rule us_tab_frame; auto simp: us_after_def u_close_def split: if_splits dest: us_tabD(4))+
text \<open>The segments that came from an address, and the one that the worker holds for it.\<close>

definition us_from :: "us_state \<Rightarrow> addrport \<Rightarrow> bytes list" where
  "us_from s a = map snd (filter (\<lambda>x. fst x = a) (us_in s))"

fun us_hand :: "us_pc \<Rightarrow> addrport \<Rightarrow> bytes list" where
  "us_hand (WGot b seg) a = (if b = a then [seg] else [])"
| "us_hand (WNew b seg) a = (if b = a then [seg] else [])"
| "us_hand (WLoad b i seg f) a = (if b = a then [seg] else [])"
| "us_hand (WSelect b i seg f) a = (if b = a then [seg] else [])"
| "us_hand (WTake b i seg f) a = (if b = a then [seg] else [])"
| "us_hand _ a = []"

definition us_ord :: "us_state \<Rightarrow> bool" where
  "us_ord s \<longleftrightarrow> (\<forall>i c. us_heap s i = Some c \<longrightarrow>
     subseq (us_got s i @ ac_buff c @ us_hand (us_pcs s 0) (ac_raddr c)) (us_from s (ac_raddr c)))"

lemma us_ordD: "us_ord s \<Longrightarrow> us_heap s i = Some c \<Longrightarrow>
    subseq (us_got s i @ ac_buff c @ us_hand (us_pcs s 0) (ac_raddr c)) (us_from s (ac_raddr c))"
  by (simp add: us_ord_def)

lemma us_hand_after [simp]: "us_hand (us_after i f) a = []"
  by (simp add: us_after_def)

lemma us_from_same: "us_in s = us_in t \<Longrightarrow> us_from s = us_from t"
  by (simp add: us_from_def fun_eq_iff)

lemma subseq_drop_end: "subseq (xs @ ys @ zs) ws \<Longrightarrow> subseq (xs @ ys) ws"
  by (rule subseq_front)

text \<open>A step that changes neither buffers nor what was read, and loses at most what the worker
  holds.\<close>

lemma us_ord_frame:
  assumes ord: "us_ord s" and t: "us_in t = us_in s" "us_got t = us_got s"
    "\<And>i c. us_heap t i = Some c \<Longrightarrow> \<exists>c0. us_heap s i = Some c0 \<and> ac_raddr c0 = ac_raddr c \<and> ac_buff c0 = ac_buff c"
    "\<And>a. us_hand (us_pcs t 0) a = us_hand (us_pcs s 0) a \<or> us_hand (us_pcs t 0) a = []"
  shows "us_ord t"
  unfolding us_ord_def
proof (intro allI impI)
  fix i c assume "us_heap t i = Some c"
  from t(3) [OF this] obtain c0 where c0: "us_heap s i = Some c0" "ac_raddr c0 = ac_raddr c" "ac_buff c0 = ac_buff c" by blast
  from us_ordD [OF ord c0(1)] c0 t(2,4) us_from_same [OF t(1)]
  show "subseq (us_got t i @ ac_buff c @ us_hand (us_pcs t 0) (ac_raddr c)) (us_from t (ac_raddr c))"
    using subseq_drop_end by (metis append_Nil2)
qed

lemma us_ord_move:
  "us_ord s \<Longrightarrow> us_pcs s w = pc0 \<Longrightarrow> (\<And>a. us_hand pc a = us_hand pc0 a \<or> us_hand pc a = []) \<Longrightarrow> us_ord (us_go s w pc)"
  by (rule us_ord_frame) auto

lemma us_ord_l: "us_ord s \<Longrightarrow> u_heap l = us_heap s \<Longrightarrow> us_ord (s\<lparr>us_l := l\<rparr>)"
  by (rule us_ord_frame) auto

lemma us_ord_at: "us_ord s \<Longrightarrow> us_ord (us_at s i cl)"
  by (rule us_ord_frame) auto

text \<open>The buffer of one connection changes.\<close>

lemma us_ord_set:
  assumes ord: "us_ord s" and c: "us_heap s i = Some c" "ac_raddr c' = ac_raddr c"
    and t: "us_in t = us_in s" "us_heap t = (us_heap s)(i \<mapsto> c')" "\<And>j. j \<noteq> i \<Longrightarrow> us_got t j = us_got s j"
    and hand: "\<And>a. us_hand (us_pcs t 0) a = us_hand (us_pcs s 0) a \<or> us_hand (us_pcs t 0) a = []"
    and sub: "subseq (us_got t i @ ac_buff c' @ us_hand (us_pcs t 0) (ac_raddr c)) (us_from s (ac_raddr c))"
  shows "us_ord t"
  unfolding us_ord_def
proof (intro allI impI)
  fix j d assume d: "us_heap t j = Some d"
  show "subseq (us_got t j @ ac_buff d @ us_hand (us_pcs t 0) (ac_raddr d)) (us_from t (ac_raddr d))"
  proof (cases "j = i")
    case True
    with d t(1,2) sub c(2) us_from_same [OF t(1)] show ?thesis by simp
  next
    case False
    with d t(2) have "us_heap s j = Some d" by simp
    from us_ordD [OF ord this] False t(3) hand us_from_same [OF t(1)] show ?thesis
      using subseq_drop_end by (metis append_Nil2)
  qed
qed

lemma us_step_ord: "us_step {0} s t \<Longrightarrow> us_inv {0} s \<Longrightarrow> us_ord s \<Longrightarrow> us_ord t"
proof (induction rule: us_step.induct)
  case (recv w s a seg)
  let ?t = "(us_go s w (WGot a seg))\<lparr>us_in := us_in s @ [(a, seg)]\<rparr>"
  have h: "us_hand (us_pcs s 0) b = []" for b using recv.hyps by simp
  have "subseq (us_got s i @ ac_buff c @ us_hand (WGot a seg) (ac_raddr c)) (us_from ?t (ac_raddr c))"
    if "us_heap s i = Some c" for i c
    using us_ordD [OF recv.prems(2) that] h list_emb_append_mono [of "(=)" "us_got s i @ ac_buff c" "us_from s (ac_raddr c)" "[seg]" "[seg]"]
    by (auto simp: us_from_def)
  then show ?case using recv.hyps(1) by (simp add: us_ord_def)
next
  case (register s w a seg)
  let ?t = "(us_go s w (WLoad a (u_next (us_l s)) seg True))\<lparr>us_l := u_register (us_l s) a\<rparr>" and ?n = "u_next (us_l s)"
  have w: "w = 0" using us_invD(5) [OF register.prems(1), of w] register.hyps by simp
  have "(a, seg) \<in> set (us_in s)" using us_invD(4) [OF register.prems(1), of w] register.hyps by (simp add: us_pc_ok_def)
  then have "seg \<in> set (us_from s a)" by (force simp: us_from_def)
  then have seg: "subseq [seg] (us_from s a)" by (simp add: subseq_singleton_left)
  have got: "us_got s ?n = []" using us_invD(3) [OF register.prems(1), of ?n] by simp
  have "subseq (us_got ?t i @ ac_buff c @ us_hand (us_pcs ?t 0) (ac_raddr c)) (us_from ?t (ac_raddr c))"
    if "us_heap ?t i = Some c" for i c
    using that us_ordD [OF register.prems(2), of i c] register.hyps seg got w
    by (auto simp: u_register_def newAcceptConn_def us_from_def split: if_splits)
  then show ?case by (simp add: us_ord_def)
next
  case (send_seg s w a i seg f c)
  have w: "w = 0" using us_invD(5) [OF send_seg.prems(1), of w] send_seg.hyps(1) by simp
  have a: "ac_raddr c = a" using us_invD(4) [OF send_seg.prems(1), of w] send_seg.hyps(1,2) by (simp add: us_pc_ok_def)
  show ?case
    by (rule us_ord_set [OF send_seg.prems(2) send_seg.hyps(2), where c' = "c\<lparr>ac_buff := ac_buff c @ [seg]\<rparr>"])
      (use us_ordD [OF send_seg.prems(2) send_seg.hyps(2)] send_seg.hyps(1) w a in simp_all)
next
  case (take_seg s w a i seg f c x rest)
  have w: "w = 0" using us_invD(5) [OF take_seg.prems(1), of w] take_seg.hyps(1) by simp
  show ?case
    by (rule us_ord_set [OF take_seg.prems(2) take_seg.hyps(2), where c' = "c\<lparr>ac_buff := rest\<rparr>"])
      (use us_ordD [OF take_seg.prems(2) take_seg.hyps(2)] take_seg.hyps(1,3) w in \<open>auto intro: subseq_middle\<close>)
next
  case (read i s c x rest n c' res)
  have "c' = c\<lparr>ac_buff := rest\<rparr>" using read.hyps(3,4) by (auto simp: ac_Read_def Let_def split: if_splits)
  then show ?case
    by (intro us_ord_set [OF read.prems(2) read.hyps(2), where c' = c'])
      (use us_ordD [OF read.prems(2) read.hyps(2)] read.hyps(3) in auto)
next
  case (close_store i s c)
  show ?case
    by (rule us_ord_set [OF close_store.prems(2) close_store.hyps(3), where c' = "c\<lparr>ac_closed := True\<rparr>"]) (use us_ordD [OF close_store.prems(2) close_store.hyps(3)] in auto)
next
  case (close_chan s i c)
  show ?case
    by (rule us_ord_set [OF close_chan.prems(2) close_chan.hyps(2), where c' = "c\<lparr>ac_chclosed := True\<rparr>"]) (use us_ordD [OF close_chan.prems(2) close_chan.hyps(2)] in auto)
next
  case (close_drain s i c x rest)
  show ?case
    by (rule us_ord_set [OF close_drain.prems(2) close_drain.hyps(2), where c' = "c\<lparr>ac_buff := rest\<rparr>"])
      (use us_ordD [OF close_drain.prems(2) close_drain.hyps(2)] close_drain.hyps(3) in \<open>auto intro: subseq_middle\<close>)
next
  case (accept s l' i)
  then show ?case by (intro us_ord_frame [OF accept.prems(2)]) (auto simp: u_Accept_def split: list.splits if_splits)
next
  case (recv_err w s)
  then have "us_ord (us_go s w WEnd)" by (auto intro: us_ord_move)
  then show ?case by (rule us_ord_l) (simp add: u_close_def)
next
  case (offer_send s w i)
  then have "us_ord (us_go s w WIdle)" by (auto intro: us_ord_move)
  then show ?case by (rule us_ord_l) simp
qed (auto intro: us_ord_move us_ord_l us_ord_at simp: u_close_def)

lemma us_reach_one: "us_reach {0} s \<Longrightarrow> us_tab s \<and> us_ord s"
proof (induction rule: us_reach.induct)
  case init
  show ?case by (simp add: us_tab_def us_ord_def us_init_def u_Listen_def)
next
  case (step s t)
  with us_step_tab [OF step.hyps(2)] us_step_ord [OF step.hyps(2)] us_reach_inv [OF step.hyps(1)] show ?case by blast
qed

section \<open>Demultiplexing\<close>

text \<open>
  C17. Demultiplexing, whatever the interleaving of the steps of any number of workers with
  \<open>Accept\<close>, \<open>Read\<close>, \<open>Close\<close> and the timers: every segment that a connection has queued or has
  given to its user came from the remote of this connection, at most 128 are queued, a send
  panics only on the channel of a connection that its user is closing, or on the accept queue
  of a closed listener. With one worker, besides, no two open connections have the same
  remote, and a connection delivers what came from its remote in order, some left out.
\<close>

theorem udp_demux:
  assumes "us_reach N s"
  shows "(\<forall>i c. us_heap s i = Some c \<longrightarrow> length (ac_buff c) \<le> 128
        \<and> (\<forall>seg \<in> set (us_got s i @ ac_buff c). (ac_raddr c, seg) \<in> set (us_in s)))
    \<and> (\<forall>w i. us_pcs s w = WPanic i \<longrightarrow> (\<exists>c. us_heap s i = Some c \<and> ac_closed c \<and> us_cl s i \<noteq> ClNo))
    \<and> (\<forall>w. us_pcs s w = WPanicCh \<longrightarrow> u_closed (us_l s))
    \<and> (N = {0} \<longrightarrow>
        (\<forall>i j c d. us_heap s i = Some c \<longrightarrow> us_heap s j = Some d \<longrightarrow> \<not> ac_closed c \<longrightarrow> \<not> ac_closed d \<longrightarrow>
           ac_raddr c = ac_raddr d \<longrightarrow> i = j)
      \<and> (\<forall>i c. us_heap s i = Some c \<longrightarrow> subseq (us_got s i @ ac_buff c) (us_from s (ac_raddr c))))"
proof (intro conjI allI impI ballI)
  note inv = us_reach_inv [OF assms]
  show "length (ac_buff c) \<le> 128" if "us_heap s i = Some c" for i c
    using us_invD(2) [OF inv that] by (simp add: us_conn_ok_def)
  show "(ac_raddr c, seg) \<in> set (us_in s)" if "us_heap s i = Some c" "seg \<in> set (us_got s i @ ac_buff c)" for i c seg
    using us_invD(2) [OF inv that(1)] that(2) by (auto simp: us_conn_ok_def)
  show "\<exists>c. us_heap s i = Some c \<and> ac_closed c \<and> us_cl s i \<noteq> ClNo" if "us_pcs s w = WPanic i" for w i
    using us_invD(4) [OF inv, of w] us_invD(7) [OF inv, of i] that by (auto simp: us_pc_ok_def)
  show "u_closed (us_l s)" if "us_pcs s w = WPanicCh" for w
    using us_invD(4) [OF inv, of w] that by (simp add: us_pc_ok_def)
next
  fix i j c d
  assume N: "N = {0}" and c: "us_heap s i = Some c" "us_heap s j = Some d" "\<not> ac_closed c" "\<not> ac_closed d" "ac_raddr c = ac_raddr d"
  have tab: "us_tab s" using us_reach_one assms N by blast
  note inv = us_reach_inv [OF assms]
  have "us_live (us_cl s i)" "us_live (us_cl s j)" using us_invD(7) [OF inv c(1)] us_invD(7) [OF inv c(2)] c(3,4) by auto
  with us_tabD(1) [OF tab c(1)] us_tabD(1) [OF tab c(2)] c(5) show "i = j" by simp
next
  fix i c
  assume "N = {0}" "us_heap s i = Some c"
  with us_ordD [of s i c] us_reach_one assms subseq_drop_end
  show "subseq (us_got s i @ ac_buff c) (us_from s (ac_raddr c))" by blast
qed
theorem udp_demux_witness:
  "\<exists>s c. us_reach {0} s \<and> us_heap s 0 = Some c \<and> ac_buff c = [[9]] \<and> ac_raddr c = AddrPort (Addr4 1 2 3 4) 5
    \<and> subseq (us_got s 0 @ ac_buff c) (us_from s (ac_raddr c))"
proof -
  let ?a = "AddrPort (Addr4 1 2 3 4) 5" and ?c = "newAcceptConn (AddrPort (Addr4 1 2 3 4) 5)"
  let ?s1 = "(us_go us_init 0 (WGot ?a [9]))\<lparr>us_in := us_in us_init @ [(?a, [9])]\<rparr>"
  let ?s2 = "us_go ?s1 0 (WNew ?a [9])"
  let ?s3 = "(us_go ?s2 0 (WLoad ?a (u_next (us_l ?s2)) [9] True))\<lparr>us_l := u_register (us_l ?s2) ?a\<rparr>"
  let ?s4 = "us_go ?s3 0 (WSelect ?a 0 [9] True)"
  let ?s5 = "us_set (us_go ?s4 0 (us_after 0 True)) 0 (?c\<lparr>ac_buff := ac_buff ?c @ [[9]]\<rparr>)"
  note d = us_init_def u_Listen_def newAcceptConn_def u_register_def
  have "us_step {0} us_init ?s1" by (rule us_step.recv) (simp_all add: d)
  moreover have "us_step {0} ?s1 ?s2" by (rule us_step.has_not) (simp_all add: d)
  moreover have "us_step {0} ?s2 ?s3" by (rule us_step.register) simp
  moreover have "us_step {0} ?s3 ?s4" by (rule us_step.load_open [where c = ?c]) (simp_all add: d)
  moreover have "us_step {0} ?s4 ?s5" by (rule us_step.send_seg) (simp_all add: d)
  ultimately have r: "us_reach {0} ?s5" by (meson us_reach.init us_reach.step)
  have h: "us_heap ?s5 0 = Some (?c\<lparr>ac_buff := [[9]]\<rparr>)" by (simp add: d)
  from udp_demux [OF r] have "subseq (us_got ?s5 0 @ ac_buff (?c\<lparr>ac_buff := [[9]]\<rparr>)) (us_from ?s5 (ac_raddr (?c\<lparr>ac_buff := [[9]]\<rparr>)))"
    using h by blast
  with r h show ?thesis by (intro exI [of _ ?s5] exI [of _ "?c\<lparr>ac_buff := [[9]]\<rparr>"] conjI) (assumption | simp add: newAcceptConn_def)+
qed

end
