(* ===== verification/Link_Steps.thy ===== *)
theory Link_Steps
  imports Link_Race
begin

text \<open>
  The calls of the link manager (\<open>links/maps/maps.go\<close>) taken apart at their locks. A call
  of \<open>Add\<close> is not one step for the other goroutines: it sweeps under \<open>uplinkMu\<close>, deletes
  the swept downlinks under \<open>donwlinkMu\<close>, releases the swept ports one by one, each in two
  sections of \<open>ports/adapter.go\<close>, gets a port in three, and puts the new link into the two
  maps in one section each. One step here is one such section; between any two of them every
  other goroutine may run. A panic is a section that has no result, and then no step.

  The theory \<open>Link_Race\<close> has the coarser steps, a whole call of \<open>Add\<close> each.
\<close>

section \<open>The two sections of DelPort\<close>

definition delport_map ::
  "ap_state \<Rightarrow> proto \<Rightarrow> u16 \<Rightarrow> addrport \<Rightarrow> (ap_state \<times> bool) option" where
  "delport_map s proto port remote =
     (let (a, os) = s; pk = PortKey (ucast proto) port in
      case ports a pk of None \<Rightarrow> None
      | Some v \<Rightarrow>
         (let v = as_Del v remote in
          if as_Len v \<noteq> 0
          then Some ((a\<lparr>ports := (ports a)(pk \<mapsto> v)\<rparr>, os), False)
          else Some ((a\<lparr>ports := (ports a)(pk := None)\<rparr>, os), True)))"

definition delport_close ::
  "ap_state \<Rightarrow> (listener \<Rightarrow> go_error option) \<Rightarrow> proto \<Rightarrow> u16 \<Rightarrow> ap_state \<times> go_error option" where
  "delport_close s cl proto port =
     (let (a, os) = s in
      if proto = TCP then
        (let (m, os, e) = DelTCPPort (mgr a) os cl port in ((a\<lparr>mgr := m\<rparr>, os), e))
      else if proto = UDP then
        (let (m, os, e) = DelUDPPort (mgr a) os cl port in ((a\<lparr>mgr := m\<rparr>, os), e))
      else (s, Some (ErrProtocol proto)))"

lemma DelPort_sections:
  "DelPort s cl pr p r = (case delport_map s pr p r of None \<Rightarrow> None
     | Some (s', notuse) \<Rightarrow> Some (if notuse then delport_close s' cl pr p else (s', None)))"
  by (auto simp: DelPort_def delport_map_def delport_close_def Let_def split: option.splits prod.splits)

section \<open>Steps\<close>

datatype 'c am_pc =
    AmIdle
  | AmStart Uplink 'c
  | AmMiss Uplink 'c
  | AmSwept Uplink 'c "Link list"
  | AmDel Uplink 'c "(proto \<times> u16 \<times> addrport) list"
  | AmSock Uplink 'c proto u16 "(proto \<times> u16 \<times> addrport) list"
  | AmGet Uplink 'c
  | AmScanned Uplink 'c u16
  | AmGot Uplink 'c u16
  | AmPut Uplink 'c u16
  | AmUp Uplink 'c u16
  | AmDone Uplink u16

record 'c am_state =
  am_ap :: ap_state
  am_t :: "'c linkManager"
  am_pcs :: "nat \<Rightarrow> 'c am_pc"

definition put_uplink :: "time \<Rightarrow> 'c linkManager \<Rightarrow> Uplink \<Rightarrow> u16 \<Rightarrow> 'c linkManager option" where
  "put_uplink now t s p =
     map_option (\<lambda>q. t\<lparr>uplinkMap := (uplinkMap t)(s \<mapsto> NewPort p), ttl := q\<rparr>)
       (h_Put zero_ttlkey (ttl t) \<lparr>tk_up = s, tk_start = now\<rparr>)"

definition put_downlink :: "'c linkManager \<Rightarrow> Uplink \<Rightarrow> 'c \<Rightarrow> u16 \<Rightarrow> 'c linkManager" where
  "put_downlink t s conn p = t\<lparr>downlinkMap := (downlinkMap t)(down_key (lm_addr t) s p \<mapsto>
     \<lparr>dk_conn = conn, dk_port = ap_port (up_process s)\<rparr>)\<rparr>"

text \<open>The first section of \<open>Add\<close> is the sweep; a goroutine with nothing swept goes on to
  \<open>GetPort\<close>, whose sections are those of \<open>Port_Race\<close>.\<close>

inductive am_step :: "nat set \<Rightarrow> (nat \<Rightarrow> addr) \<Rightarrow> 'c am_state \<Rightarrow> 'c am_state \<Rightarrow> bool" for N cl where
  packet: "i \<in> N \<Longrightarrow> am_pcs s i = AmIdle \<Longrightarrow> lk_asks (cl i) up \<Longrightarrow>
     am_step N cl s (s\<lparr>am_pcs := (am_pcs s)(i := AmStart up c)\<rparr>)"
| hit: "am_pcs s i = AmStart up c \<Longrightarrow> lm_Uplink (am_t s) up = (t, Some p) \<Longrightarrow>
     am_step N cl s (s\<lparr>am_t := t, am_pcs := (am_pcs s)(i := AmDone up p)\<rparr>)"
| miss: "am_pcs s i = AmStart up c \<Longrightarrow> lm_Uplink (am_t s) up = (t, None) \<Longrightarrow>
     am_step N cl s (s\<lparr>am_t := t, am_pcs := (am_pcs s)(i := AmMiss up c)\<rparr>)"
| sweep: "am_pcs s i = AmMiss up c \<Longrightarrow> \<forall>k. clk k \<noteq> 0 \<Longrightarrow>
     cleanup_loop clk 0 0 (am_t s) [] = Some (t, ls) \<Longrightarrow>
     am_step N cl s (s\<lparr>am_t := t, am_pcs := (am_pcs s)(i := AmSwept up c ls)\<rparr>)"
| none_swept: "am_pcs s i = AmSwept up c [] \<Longrightarrow>
     am_step N cl s (s\<lparr>am_pcs := (am_pcs s)(i := AmGet up c)\<rparr>)"
| downlinks: "am_pcs s i = AmSwept up c ls \<Longrightarrow> ls \<noteq> [] \<Longrightarrow>
     am_step N cl s (s\<lparr>am_t := cleanup_downlinks (am_t s) ls,
       am_pcs := (am_pcs s)(i := AmDel up c (map link_triple ls))\<rparr>)"
| release: "am_pcs s i = AmDel up c ((pr, p, r) # xs) \<Longrightarrow>
     delport_map (am_ap s) pr p r = Some (ap, notuse) \<Longrightarrow>
     am_step N cl s (s\<lparr>am_ap := ap,
       am_pcs := (am_pcs s)(i := (if notuse then AmSock up c pr p xs else AmDel up c xs))\<rparr>)"
| socket: "am_pcs s i = AmSock up c pr p xs \<Longrightarrow> delport_close (am_ap s) lc pr p = (ap, err) \<Longrightarrow>
     am_step N cl s (s\<lparr>am_ap := ap, am_pcs := (am_pcs s)(i := AmDel up c xs)\<rparr>)"
| released: "am_pcs s i = AmDel up c [] \<Longrightarrow>
     am_step N cl s (s\<lparr>am_pcs := (am_pcs s)(i := AmGet up c)\<rparr>)"
| invalid: "am_pcs s i = AmGet up c \<Longrightarrow> \<not> ap_valid (up_server up) \<Longrightarrow>
     am_step N cl s (s\<lparr>am_pcs := (am_pcs s)(i := AmIdle)\<rparr>)"
| scan: "am_pcs s i = AmGet up c \<Longrightarrow> ap_valid (up_server up) \<Longrightarrow> range_of (ports (fst (am_ap s))) ord \<Longrightarrow>
     am_step N cl s (s\<lparr>am_pcs := (am_pcs s)(i := AmScanned up c (getport_scan ord (up_proto up) (up_server up)))\<rparr>)"
| reuse: "am_pcs s i = AmScanned up c p \<Longrightarrow> p \<noteq> 0 \<Longrightarrow>
     am_step N cl s (s\<lparr>am_pcs := (am_pcs s)(i := AmGot up c p)\<rparr>)"
| alloc: "am_pcs s i = AmScanned up c 0 \<Longrightarrow> listen_ok (up_proto up) (snd (am_ap s)) ans \<Longrightarrow>
     getport_alloc (am_ap s) ans (up_proto up) = (ap, r) \<Longrightarrow>
     am_step N cl s (s\<lparr>am_ap := ap,
       am_pcs := (am_pcs s)(i := (case r of Inl err \<Rightarrow> AmIdle | Inr p \<Rightarrow> AmGot up c p))\<rparr>)"
| store: "am_pcs s i = AmGot up c p \<Longrightarrow> \<not> (up_proto up = TCP \<and> p = 443) \<Longrightarrow>
     am_step N cl s (s\<lparr>am_ap := (getport_record (fst (am_ap s)) (up_proto up) p (up_server up), snd (am_ap s)),
       am_pcs := (am_pcs s)(i := AmPut up c p)\<rparr>)"
| uplink: "am_pcs s i = AmPut up c p \<Longrightarrow> now \<noteq> 0 \<Longrightarrow> put_uplink now (am_t s) up p = Some t \<Longrightarrow>
     am_step N cl s (s\<lparr>am_t := t, am_pcs := (am_pcs s)(i := AmUp up c p)\<rparr>)"
| downlink: "am_pcs s i = AmUp up c p \<Longrightarrow>
     am_step N cl s (s\<lparr>am_t := put_downlink (am_t s) up c p, am_pcs := (am_pcs s)(i := AmDone up p)\<rparr>)"
| sent: "am_pcs s i = AmDone up p \<Longrightarrow>
     am_step N cl s (s\<lparr>am_pcs := (am_pcs s)(i := AmIdle)\<rparr>)"

inductive am_reach :: "nat set \<Rightarrow> (nat \<Rightarrow> addr) \<Rightarrow> 'c am_state \<Rightarrow> 'c am_state \<Rightarrow> bool" for N cl s0 where
  start: "am_reach N cl s0 s0"
| step: "am_reach N cl s0 s \<Longrightarrow> am_step N cl s s' \<Longrightarrow> am_reach N cl s0 s'"

definition am_init :: "'c am_state \<Rightarrow> bool" where
  "am_init s \<longleftrightarrow> lm_inv (am_ap s) (am_t s) \<and> am_pcs s = (\<lambda>_. AmIdle)"

text \<open>A goroutine whose next section panics: a missing counter in the sweep, a missing
  address set in \<open>DelPort\<close>, the port 443 in \<open>GetPort\<close>, an index out of range in the queue.\<close>

definition am_panics :: "'c am_state \<Rightarrow> nat \<Rightarrow> bool" where
  "am_panics s i \<longleftrightarrow>
     (case am_pcs s i of
        AmMiss up c \<Rightarrow> \<exists>clk. (\<forall>k. clk k \<noteq> 0) \<and> cleanup_loop clk 0 0 (am_t s) [] = None
      | AmDel up c ((pr, p, r) # xs) \<Rightarrow> delport_map (am_ap s) pr p r = None
      | AmGot up c p \<Rightarrow> up_proto up = TCP \<and> p = 443
      | AmPut up c p \<Rightarrow> \<exists>now. now \<noteq> 0 \<and> put_uplink now (am_t s) up p = None
      | _ \<Rightarrow> False)"

section \<open>What every interleaving keeps\<close>

definition keys_gt :: "Adapter \<Rightarrow> bool" where
  "keys_gt a \<longleftrightarrow> (\<forall>k v. ports a k = Some v \<longrightarrow> 1024 < pk_port k)"

fun am_adding :: "'c am_pc \<Rightarrow> Uplink option" where
  "am_adding AmIdle = None"
| "am_adding (AmStart up c) = None"
| "am_adding (AmMiss up c) = Some up"
| "am_adding (AmSwept up c ls) = Some up"
| "am_adding (AmDel up c xs) = Some up"
| "am_adding (AmSock up c pr p xs) = Some up"
| "am_adding (AmGet up c) = Some up"
| "am_adding (AmScanned up c p) = Some up"
| "am_adding (AmGot up c p) = Some up"
| "am_adding (AmPut up c p) = Some up"
| "am_adding (AmUp up c p) = None"
| "am_adding (AmDone up p) = None"

text \<open>The port a goroutine holds after the search or the allocation, and its valid server.\<close>

fun am_port_ok :: "'c am_pc \<Rightarrow> bool" where
  "am_port_ok (AmScanned up c p) \<longleftrightarrow> ap_valid (up_server up) \<and> (p = 0 \<or> 1024 < p)"
| "am_port_ok (AmGot up c p) \<longleftrightarrow> ap_valid (up_server up) \<and> 1024 < p"
| "am_port_ok (AmPut up c p) \<longleftrightarrow> ap_valid (up_server up) \<and> 1024 < p"
| "am_port_ok _ \<longleftrightarrow> True"

definition am_pc_ok :: "'c linkManager \<Rightarrow> addr \<Rightarrow> 'c am_pc \<Rightarrow> bool" where
  "am_pc_ok t a pc \<longleftrightarrow> (\<forall>up c. pc = AmStart up c \<longrightarrow> lk_asks a up)
     \<and> (\<forall>up. am_adding pc = Some up \<longrightarrow> lk_asks a up \<and> uplinkMap t up = None) \<and> am_port_ok pc"

definition am_inv :: "nat set \<Rightarrow> (nat \<Rightarrow> addr) \<Rightarrow> 'c am_state \<Rightarrow> bool" where
  "am_inv N cl s \<longleftrightarrow> queue_inv (am_t s) \<and> keys_gt (fst (am_ap s))
     \<and> (\<forall>i. am_pc_ok (am_t s) (cl i) (am_pcs s i)) \<and> (\<forall>i. i \<notin> N \<longrightarrow> am_pcs s i = AmIdle)"

lemma am_init_inv:
  assumes "am_init s"
  shows "am_inv N cl s"
proof -
  obtain a os where ap: "am_ap s = (a, os)" by (cases "am_ap s")
  have inv: "lm_inv (a, os) (am_t s)" using assms ap by (simp add: am_init_def)
  then have "adapter_inv (a, os)" by (simp add: lm_inv_def)
  then have "keys_gt a" using adapter_key_port unfolding keys_gt_def by blast
  with inv assms ap show ?thesis by (auto simp: am_inv_def am_init_def am_pc_ok_def lm_inv_def)
qed

text \<open>A step of one goroutine, told by what it leaves of the shared state.\<close>

lemma am_inv_update:
  assumes "am_inv N cl s" "am_pcs s i \<noteq> AmIdle \<or> i \<in> N" "am_pcs s' = (am_pcs s)(i := pc)"
    and "queue_inv (am_t s')" "keys_gt (fst (am_ap s'))" "am_pc_ok (am_t s') (cl i) pc"
    and "\<And>j. j \<in> N \<Longrightarrow> j \<noteq> i \<Longrightarrow> am_pc_ok (am_t s) (cl j) (am_pcs s j) \<Longrightarrow> am_pc_ok (am_t s') (cl j) (am_pcs s j)"
  shows "am_inv N cl s'"
proof -
  have "am_pc_ok (am_t s') (cl j) (am_pcs s' j)" for j
    using assms by (cases "j = i"; cases "j \<in> N") (auto simp: am_inv_def am_pc_ok_def)
  with assms show ?thesis by (auto simp: am_inv_def)
qed

lemma am_pc_ok_mono:
  "am_pc_ok t a pc \<Longrightarrow> dom (uplinkMap t') \<subseteq> dom (uplinkMap t) \<Longrightarrow> am_pc_ok t' a pc"
  by (auto simp: am_pc_ok_def domIff subset_iff)

text \<open>The three kinds of steps: the goroutine alone moves; the adapter changes; the links do.\<close>

lemma am_inv_move:
  assumes "am_inv N cl s" "am_pcs s i \<noteq> AmIdle \<or> i \<in> N" "am_pc_ok (am_t s) (cl i) pc"
  shows "am_inv N cl (s\<lparr>am_pcs := (am_pcs s)(i := pc)\<rparr>)"
  by (rule am_inv_update [OF assms(1,2)]) (use assms in \<open>auto simp: am_inv_def\<close>)

lemma am_inv_adapter:
  assumes "am_inv N cl s" "am_pcs s i \<noteq> AmIdle" "am_pc_ok (am_t s) (cl i) pc" "keys_gt (fst ap)"
  shows "am_inv N cl (s\<lparr>am_ap := ap, am_pcs := (am_pcs s)(i := pc)\<rparr>)"
  by (rule am_inv_update [OF assms(1), of i _ pc]) (use assms in \<open>auto simp: am_inv_def\<close>)

lemma am_inv_links:
  assumes "am_inv N cl s" "am_pcs s i \<noteq> AmIdle" "am_pc_ok t (cl i) pc" "queue_inv t"
    and "dom (uplinkMap t) \<subseteq> dom (uplinkMap (am_t s))"
  shows "am_inv N cl (s\<lparr>am_t := t, am_pcs := (am_pcs s)(i := pc)\<rparr>)"
  by (rule am_inv_update [OF assms(1), of i _ pc])
    (use assms am_pc_ok_mono [OF _ assms(5)] in \<open>auto simp: am_inv_def\<close>)

text \<open>What the sections do to the queue and to the ports.\<close>

lemma sweep_section:
  assumes "queue_inv t" "\<forall>k. clk k \<noteq> 0"
  shows "\<exists>t' ls. cleanup_loop clk 0 0 t [] = Some (t', ls) \<and> queue_inv t' \<and> dom (uplinkMap t') \<subseteq> dom (uplinkMap t)"
proof -
  obtain t' ls j rq where s: "cleanup_loop clk 0 0 t [] = Some (t', ls)" "sweep_inv clk t j t' ls rq"
    using cleanup_loop_ok [OF assms(1) _ sweep_start [OF assms(1)], of clk 0] assms(2) by blast
  moreover have "dom (uplinkMap t') \<subseteq> dom (uplinkMap t)" using sweep_up(1) [OF s(2)] by blast
  ultimately show ?thesis using sweep_queue_inv [OF s(2) assms(1)] by blast
qed

lemma uplink_section:
  assumes "queue_inv t" "uplinkMap t s = None" "ap_valid (up_process s)" "ap_valid (up_server s)" "now \<noteq> 0"
  shows "\<exists>t'. put_uplink now t s p = Some t' \<and> queue_inv t' \<and> uplinkMap t' = (uplinkMap t)(s \<mapsto> NewPort p)"
proof -
  let ?e = "\<lparr>tk_up = s, tk_start = now\<rparr>"
  have "heap_inv (ttl t)" using assms(1) by (simp add: queue_inv_def)
  from ring.put_ok [OF this, of zero_ttlkey ?e] obtain q where
    q: "h_Put zero_ttlkey (ttl t) ?e = Some q" "heap_inv q" "heap_list q = heap_list (ttl t) @ [?e]" by blast
  have "tk_valid ?e" using assms(3-5) by (simp add: tk_valid_def)
  moreover have "s \<notin> set (map tk_up (heap_list (ttl t)))" using assms(1,2) by (simp add: queue_inv_def domIff del: set_map)
  ultimately show ?thesis using assms(1) q by (auto simp: put_uplink_def queue_inv_def)
qed

lemma queue_inv_cong:
  "queue_inv t \<Longrightarrow> ttl t' = ttl t \<Longrightarrow> dom (uplinkMap t') = dom (uplinkMap t) \<Longrightarrow> queue_inv t'"
  by (simp add: queue_inv_def)

lemma keys_gtD: "keys_gt a \<Longrightarrow> ports a (PortKey q p) = Some v \<Longrightarrow> 1024 < p"
  by (force simp: keys_gt_def)

lemma keys_gt_upd: "keys_gt a \<Longrightarrow> x = None \<or> 1024 < p \<Longrightarrow> keys_gt (a\<lparr>ports := (ports a)(PortKey q p := x)\<rparr>)"
  by (auto simp: keys_gt_def)

lemma delport_map_gt: "keys_gt (fst s) \<Longrightarrow> delport_map s pr p r = Some (s', b) \<Longrightarrow> keys_gt (fst s')"
  by (auto simp: delport_map_def Let_def intro!: keys_gt_upd dest: keys_gtD split: prod.splits option.splits if_splits)

lemma delport_close_gt: "keys_gt (fst s) \<Longrightarrow> delport_close s cl pr p = (s', e) \<Longrightarrow> keys_gt (fst s')"
  by (auto simp: delport_close_def keys_gt_def split: prod.splits if_splits)

lemma delport_map_None: "delport_map s pr p r = None \<longleftrightarrow> ports (fst s) (PortKey (ucast pr) p) = None"
  by (auto simp: delport_map_def Let_def split: prod.splits option.splits)

lemma getport_record_gt: "keys_gt a \<Longrightarrow> 1024 < p \<Longrightarrow> keys_gt (getport_record a pr p r)"
  by (auto simp: getport_record_def keys_gt_def Let_def split: option.splits if_splits)

lemma getport_alloc_gt:
  assumes "keys_gt (fst s)" "listen_ok pr (snd s) ans" "getport_alloc s ans pr = (s', r)"
  shows "keys_gt (fst s') \<and> (case r of Inr p \<Rightarrow> 1024 < p | Inl e \<Rightarrow> True)"
  using assms by (auto simp: getport_alloc_def keys_gt_def GetTCPPort_def GetUDPPort_def listen_ok_def Let_def
      split: prod.splits sum.splits option.splits if_splits)

lemma getport_scan_gt:
  assumes "keys_gt a" "range_of (ports a) ord"
  shows "getport_scan ord pr r = 0 \<or> 1024 < getport_scan ord pr r"
proof (cases "getport_scan ord pr r = 0")
  case False
  from getport_scan_found [OF False] assms show ?thesis by (fastforce simp: range_of_mem keys_gt_def)
qed simp

text \<open>What another client adds is none of the uplinks that this one is adding.\<close>

lemma am_pc_ok_other:
  assumes "am_pc_ok t a pc" "lk_asks b up" "a \<noteq> b" "uplinkMap t' = (uplinkMap t)(up \<mapsto> d)"
  shows "am_pc_ok t' a pc"
  using assms by (auto simp: am_pc_ok_def lk_asks_def)

lemma am_inv_pc:
  "am_inv N cl s \<Longrightarrow> am_pcs s i = pc \<Longrightarrow> queue_inv (am_t s) \<and> keys_gt (fst (am_ap s)) \<and> am_pc_ok (am_t s) (cl i) pc"
  by (auto simp: am_inv_def)

lemma lm_Uplink_dom: "lm_Uplink t up = (t', r) \<Longrightarrow>
    ttl t' = ttl t \<and> dom (uplinkMap t') = dom (uplinkMap t) \<and> (r = None \<longrightarrow> t' = t \<and> uplinkMap t up = None)"
  by (auto simp: lm_Uplink_def Let_def case_prod_unfold split: option.splits if_splits)

lemma am_step_inv [inv_intros]:
  assumes "am_step N cl s s'" "inj_on cl N" "am_inv N cl s"
  shows "am_inv N cl s'"
  using assms
proof (induction rule: am_step.induct)
  case (packet i s up c)
  then show ?case by (intro am_inv_move) (auto simp: am_pc_ok_def)
next
  case (hit s i up c t p)
  note m = am_inv_pc [OF hit.prems(2) hit.hyps(1)] and u = lm_Uplink_dom [OF hit.hyps(2)]
  from m u have "queue_inv t" using queue_inv_cong by blast
  with hit u show ?case by (intro am_inv_links) (auto simp: am_pc_ok_def)
next
  case (miss s i up c t)
  note m = am_inv_pc [OF miss.prems(2) miss.hyps(1)] and u = lm_Uplink_dom [OF miss.hyps(2)]
  from m u miss show ?case by (intro am_inv_links) (auto simp: am_pc_ok_def)
next
  case (sweep s i up c clk t ls)
  note m = am_inv_pc [OF sweep.prems(2) sweep.hyps(1)]
  from sweep_section [OF conjunct1 [OF m] sweep.hyps(2)] sweep.hyps(3)
  have t: "queue_inv t" "dom (uplinkMap t) \<subseteq> dom (uplinkMap (am_t s))" by auto
  from m am_pc_ok_mono [OF _ t(2)] have "am_pc_ok t (cl i) (AmMiss up c)" by blast
  with sweep t show ?case by (intro am_inv_links) (auto simp: am_pc_ok_def)
next
  case (none_swept s i up c)
  with am_inv_pc [OF none_swept.prems(2) none_swept.hyps(1)] show ?case by (intro am_inv_move) (auto simp: am_pc_ok_def)
next
  case (downlinks s i up c ls)
  note m = am_inv_pc [OF downlinks.prems(2) downlinks.hyps(1)]
  let ?t = "cleanup_downlinks (am_t s) ls"
  have t: "ttl ?t = ttl (am_t s)" "uplinkMap ?t = uplinkMap (am_t s)" by (simp_all add: cleanup_downlinks_eq)
  with m have "queue_inv ?t" by (simp add: queue_inv_def)
  with m t downlinks show ?case by (intro am_inv_links) (auto simp: am_pc_ok_def)
next
  case (release s i up c pr p r xs ap notuse)
  note m = am_inv_pc [OF release.prems(2) release.hyps(1)]
  with delport_map_gt [OF _ release.hyps(2)] have "keys_gt (fst ap)" by blast
  with m release show ?case by (intro am_inv_adapter) (auto simp: am_pc_ok_def)
next
  case (socket s i up c pr p xs lc ap err)
  note m = am_inv_pc [OF socket.prems(2) socket.hyps(1)]
  with delport_close_gt [OF _ socket.hyps(2)] have "keys_gt (fst ap)" by blast
  with m socket show ?case by (intro am_inv_adapter) (auto simp: am_pc_ok_def)
next
  case (released s i up c)
  with am_inv_pc [OF released.prems(2) released.hyps(1)] show ?case by (intro am_inv_move) (auto simp: am_pc_ok_def)
next
  case (invalid s i up c)
  then show ?case by (intro am_inv_move) (auto simp: am_pc_ok_def)
next
  case (scan s i up c ord)
  note m = am_inv_pc [OF scan.prems(2) scan.hyps(1)]
  with getport_scan_gt [OF _ scan.hyps(3)] scan show ?case by (intro am_inv_move) (auto simp: am_pc_ok_def)
next
  case (reuse s i up c p)
  with am_inv_pc [OF reuse.prems(2) reuse.hyps(1)] show ?case by (intro am_inv_move) (auto simp: am_pc_ok_def)
next
  case (alloc s i up c ans ap r)
  note m = am_inv_pc [OF alloc.prems(2) alloc.hyps(1)]
  with getport_alloc_gt [OF _ alloc.hyps(2,3)] have "keys_gt (fst ap)" "case r of Inr p \<Rightarrow> 1024 < p | Inl e \<Rightarrow> True" by blast+
  with m alloc show ?case by (intro am_inv_adapter) (auto simp: am_pc_ok_def split: sum.splits)
next
  case (store s i up c p)
  note m = am_inv_pc [OF store.prems(2) store.hyps(1)]
  then have "keys_gt (getport_record (fst (am_ap s)) (up_proto up) p (up_server up))"
    by (intro getport_record_gt) (simp_all add: am_pc_ok_def)
  with m store show ?case by (intro am_inv_adapter) (auto simp: am_pc_ok_def)
next
  case (uplink s i up c p now t)
  note m = am_inv_pc [OF uplink.prems(2) uplink.hyps(1)]
  then have a: "lk_asks (cl i) up" "uplinkMap (am_t s) up = None" "ap_valid (up_server up)"
    by (simp_all add: am_pc_ok_def)
  from uplink_section [OF conjunct1 [OF m] a(2) _ a(3) uplink.hyps(2), of p] lk_asks_valid [OF a(1)] uplink.hyps(3)
  have t: "queue_inv t" "uplinkMap t = (uplinkMap (am_t s))(up \<mapsto> NewPort p)" by auto
  have iN: "i \<in> N" using uplink.prems(2) uplink.hyps(1) by (force simp: am_inv_def)
  show ?case
  proof (rule am_inv_update [OF uplink.prems(2), of i _ "AmUp up c p"])
    fix j assume j: "j \<in> N" "j \<noteq> i" "am_pc_ok (am_t s) (cl j) (am_pcs s j)"
    then have "cl j \<noteq> cl i" using uplink.prems(1) iN by (auto dest: inj_onD)
    from am_pc_ok_other [OF j(3) a(1) this t(2)]
    show "am_pc_ok (am_t (s\<lparr>am_t := t, am_pcs := (am_pcs s)(i := AmUp up c p)\<rparr>)) (cl j) (am_pcs s j)" by simp
  qed (use uplink.hyps(1) t m in \<open>simp_all add: am_pc_ok_def\<close>)
next
  case (downlink s i up c p)
  note m = am_inv_pc [OF downlink.prems(2) downlink.hyps(1)]
  then have "queue_inv (put_downlink (am_t s) up c p)" by (simp add: queue_inv_def put_downlink_def)
  with downlink show ?case by (intro am_inv_links) (auto simp: am_pc_ok_def put_downlink_def)
next
  case (sent s i up p)
  then show ?case by (intro am_inv_move) (auto simp: am_pc_ok_def)
qed

lemma am_reach_inv: "am_reach N cl s0 s \<Longrightarrow> inj_on cl N \<Longrightarrow> am_inv N cl s0 \<Longrightarrow> am_inv N cl s"
  by (induction rule: am_reach.induct) (auto intro: am_step_inv)

text \<open>Of the sections that may panic, only the release can.\<close>

lemma am_inv_panics:
  assumes "am_inv N cl s"
  shows "am_panics s i \<longleftrightarrow> (\<exists>up c pr p r xs. am_pcs s i = AmDel up c ((pr, p, r) # xs)
    \<and> ports (fst (am_ap s)) (PortKey (ucast pr) p) = None)"
proof -
  note m = am_inv_pc [OF assms refl, of i]
  show ?thesis
  proof (cases "am_pcs s i")
    case (AmMiss up c)
    have "\<nexists>clk. (\<forall>k. clk k \<noteq> 0) \<and> cleanup_loop clk 0 0 (am_t s) [] = None"
      using sweep_section [OF conjunct1 [OF m]] by (metis option.distinct(1))
    then show ?thesis unfolding am_panics_def AmMiss am_pc.simps by simp
  next
    case (AmDel up c ys)
    show ?thesis
    proof (cases ys)
      case (Cons y xs)
      obtain pr p r where "y = (pr, p, r)" by (cases y)
      with AmDel Cons show ?thesis by (simp add: am_panics_def delport_map_None)
    qed (simp add: am_panics_def AmDel)
  next
    case (AmGot up c p)
    then show ?thesis using m by (auto simp: am_panics_def am_pc_ok_def)
  next
    case (AmPut up c p)
    with m have a: "lk_asks (cl i) up" "uplinkMap (am_t s) up = None" "ap_valid (up_server up)"
      by (simp_all add: am_pc_ok_def)
    have "\<nexists>now. now \<noteq> 0 \<and> put_uplink now (am_t s) up p = None"
      using uplink_section [OF conjunct1 [OF m] a(2) _ a(3)] lk_asks_valid [OF a(1)] by (metis option.distinct(1))
    then show ?thesis unfolding am_panics_def AmPut am_pc.simps by simp
  qed (simp_all add: am_panics_def)
qed

section \<open>Two clients and one port\<close>

text \<open>A client that has a link to one server, a second client with another address, and a
  second server that both of them ask for at once.\<close>

definition w_cl2 :: "nat \<Rightarrow> addr" where "w_cl2 i = Addr4 192 168 0 (if i = 0 then 7 else 8)"

definition w_ub :: "u16 \<Rightarrow> u8 \<Rightarrow> Uplink" where
  "w_ub p n = \<lparr>up_process = AddrPort (Addr4 192 168 0 8) p, up_proto = TCP, up_server = w_remote n\<rparr>"

definition w_am :: "'c am_pc list \<Rightarrow> ap_state \<Rightarrow> 'c linkManager \<Rightarrow> 'c am_state" where
  "w_am pcs ap t = \<lparr>am_ap = ap, am_t = t, am_pcs = (\<lambda>i. if i < length pcs then pcs ! i else AmIdle)\<rparr>"

lemma w_am_fields [simp]: "i < length pcs \<Longrightarrow> am_pcs (w_am pcs ap t) i = pcs ! i" "am_ap (w_am pcs ap t) = ap" "am_t (w_am pcs ap t) = t"
  by (simp_all add: w_am_def)

lemma w_am_upd:
  assumes "i < length pcs"
  shows "(w_am pcs ap t)\<lparr>am_pcs := (am_pcs (w_am pcs ap t))(i := pc)\<rparr> = w_am (pcs[i := pc]) ap t"
    and "(w_am pcs ap t)\<lparr>am_ap := ap', am_pcs := (am_pcs (w_am pcs ap t))(i := pc)\<rparr> = w_am (pcs[i := pc]) ap' t"
    and "(w_am pcs ap t)\<lparr>am_t := t', am_pcs := (am_pcs (w_am pcs ap t))(i := pc)\<rparr> = w_am (pcs[i := pc]) ap t'"
  using assms by (auto simp: w_am_def nth_list_update)

abbreviation w_run :: "string am_state \<Rightarrow> string am_state \<Rightarrow> bool" where "w_run \<equiv> am_reach {0, 1} w_cl2"

text \<open>The steps on these states.\<close>

lemma w_miss:
  assumes "w_run s0 (w_am pcs ap t)" "i < length pcs" "i \<in> {0, 1}" "pcs ! i = AmIdle" "lk_asks (w_cl2 i) up" "uplinkMap t up = None"
  shows "w_run s0 (w_am (pcs[i := AmMiss up c]) ap t)"
proof -
  have "am_step {0, 1} w_cl2 (w_am pcs ap t) (w_am (pcs[i := AmStart up c]) ap t)"
    using am_step.packet [of i "{0, 1}" "w_am pcs ap t" w_cl2 up c] assms by (simp add: w_am_upd)
  with assms(1) have r: "w_run s0 (w_am (pcs[i := AmStart up c]) ap t)" by (rule am_reach.step)
  have "am_step {0, 1} w_cl2 (w_am (pcs[i := AmStart up c]) ap t) (w_am (pcs[i := AmMiss up c]) ap t)"
    using am_step.miss [of "w_am (pcs[i := AmStart up c]) ap t" i up c t "{0, 1}" w_cl2] assms
    by (simp add: w_am_upd lm_Uplink_def)
  with r show ?thesis by (rule am_reach.step)
qed

lemma w_sweep:
  assumes "w_run s0 (w_am pcs ap t)" "i < length pcs" "pcs ! i = AmMiss up c" "n \<noteq> 0"
    and "cleanup_loop (\<lambda>_. n) 0 0 t [] = Some (t', ls)"
  shows "w_run s0 (w_am (pcs[i := AmSwept up c ls]) ap t')"
  using am_step.sweep [of "w_am pcs ap t" i up c "\<lambda>_. n" t' ls "{0, 1}" w_cl2] assms
  by (auto simp: w_am_upd intro: am_reach.step)

text \<open>From the sweep that removes nothing to the port that is to be reused.\<close>

lemma w_got:
  assumes r: "w_run s0 (w_am pcs ap t)" and i: "i < length pcs" and pc: "pcs ! i = AmSwept up c []"
    and v: "ap_valid (up_server up)" "range_of (ports (fst ap)) ord"
    and p: "getport_scan ord (up_proto up) (up_server up) = p" "p \<noteq> 0"
  shows "w_run s0 (w_am (pcs[i := AmGot up c p]) ap t)"
proof -
  have "am_step {0, 1} w_cl2 (w_am pcs ap t) (w_am (pcs[i := AmGet up c]) ap t)"
    using am_step.none_swept [of "w_am pcs ap t" i up c] i pc by (simp add: w_am_upd)
  with r have r: "w_run s0 (w_am (pcs[i := AmGet up c]) ap t)" by (rule am_reach.step)
  have "am_step {0, 1} w_cl2 (w_am (pcs[i := AmGet up c]) ap t) (w_am (pcs[i := AmScanned up c p]) ap t)"
    using am_step.scan [of "w_am (pcs[i := AmGet up c]) ap t" i up c ord "{0, 1}" w_cl2] i v p by (simp add: w_am_upd)
  with r have r: "w_run s0 (w_am (pcs[i := AmScanned up c p]) ap t)" by (rule am_reach.step)
  have "am_step {0, 1} w_cl2 (w_am (pcs[i := AmScanned up c p]) ap t) (w_am (pcs[i := AmGot up c p]) ap t)"
    using am_step.reuse [of "w_am (pcs[i := AmScanned up c p]) ap t" i up c p] i p by (simp add: w_am_upd)
  with r show ?thesis by (rule am_reach.step)
qed

lemma w_store:
  assumes "w_run s0 (w_am pcs ap t)" "i < length pcs" "pcs ! i = AmGot up c p" "p \<noteq> 443"
    and "(getport_record (fst ap) (up_proto up) p (up_server up), snd ap) = ap'"
  shows "w_run s0 (w_am (pcs[i := AmPut up c p]) ap' t)"
  using am_step.store [of "w_am pcs ap t" i up c p "{0, 1}" w_cl2] assms
  by (auto simp: w_am_upd intro: am_reach.step)

lemma w_put:
  assumes r: "w_run s0 (w_am pcs ap t)" and i: "i < length pcs" "pcs ! i = AmPut up c p" and t: "n \<noteq> 0" "put_uplink n t up p = Some t'"
  shows "w_run s0 (w_am (pcs[i := AmDone up p]) ap (put_downlink t' up c p))"
proof -
  have "am_step {0, 1} w_cl2 (w_am pcs ap t) (w_am (pcs[i := AmUp up c p]) ap t')"
    using am_step.uplink [of "w_am pcs ap t" i up c p n t' "{0, 1}" w_cl2] i t by (simp add: w_am_upd)
  with r have r: "w_run s0 (w_am (pcs[i := AmUp up c p]) ap t')" by (rule am_reach.step)
  have "am_step {0, 1} w_cl2 (w_am (pcs[i := AmUp up c p]) ap t') (w_am (pcs[i := AmDone up p]) ap (put_downlink t' up c p))"
    using am_step.downlink [of "w_am (pcs[i := AmUp up c p]) ap t'" i up c p "{0, 1}" w_cl2] i by (simp add: w_am_upd)
  with r show ?thesis by (rule am_reach.step)
qed

lemma w_sent:
  assumes "w_run s0 (w_am pcs ap t)" "i < length pcs" "pcs ! i = AmDone up p"
  shows "w_run s0 (w_am (pcs[i := AmIdle]) ap t)"
  using am_step.sent [of "w_am pcs ap t" i up p "{0, 1}" w_cl2] assms
  by (auto simp: w_am_upd intro: am_reach.step)

lemma w_downlinks:
  assumes "w_run s0 (w_am pcs ap t)" "i < length pcs" "pcs ! i = AmSwept up c ls" "ls \<noteq> []"
  shows "w_run s0 (w_am (pcs[i := AmDel up c (map link_triple ls)]) ap (cleanup_downlinks t ls))"
  using am_step.downlinks [of "w_am pcs ap t" i up c ls "{0, 1}" w_cl2] assms
  by (auto simp: w_am_upd intro: am_reach.step)

lemma w_release:
  assumes "w_run s0 (w_am pcs ap t)" "i < length pcs" "pcs ! i = AmDel up c ((pr, p, r) # xs)"
    and "delport_map ap pr p r = Some (ap', b)"
  shows "w_run s0 (w_am (pcs[i := (if b then AmSock up c pr p xs else AmDel up c xs)]) ap' t)"
  using am_step.release [of "w_am pcs ap t" i up c pr p r xs ap' b "{0, 1}" w_cl2] assms
  by (auto simp: w_am_upd intro: am_reach.step)

text \<open>The links: the one of the first client, then both new ones on the same port.\<close>

definition w_l9 :: "Uplink \<times> u16 \<times> string" where "w_l9 = (w_up 4001 9, 5000, ''c1'')"
definition w_la :: "Uplink \<times> u16 \<times> string" where "w_la = (w_up 4002 8, 5000, ''c1'')"
definition w_lb :: "Uplink \<times> u16 \<times> string" where "w_lb = (w_ub 4002 8, 5000, ''c2'')"

definition w_tm0 :: "string linkManager" where
  "w_tm0 = w_lm [w_l9] [w_l9] [w_tk (w_up 4001 9) 60, zero_ttlkey, zero_ttlkey, zero_ttlkey] 0 1"

definition w_tm1 :: "string linkManager" where
  "w_tm1 = w_lm [w_l9] [w_l9] [w_tk (w_up 4001 9) 60, w_tk (w_up 4001 9) 70, zero_ttlkey, zero_ttlkey] 1 1"

definition w_tm2 :: "string linkManager" where
  "w_tm2 = w_lm [w_l9] [w_l9] [w_tk (w_up 4001 9) 60, w_tk (w_up 4001 9) 70, w_tk (w_up 4001 9) 70, zero_ttlkey] 2 1"

definition w_tm3 :: "string linkManager" where
  "w_tm3 = w_lm [w_la, w_l9] [w_la, w_l9]
     [w_tk (w_up 4001 9) 60, w_tk (w_up 4001 9) 70, w_tk (w_up 4001 9) 70, w_tk (w_up 4002 8) 70] 2 2"

definition w_tm4 :: "string linkManager" where
  "w_tm4 = w_lm [w_lb, w_la, w_l9] [w_lb, w_la, w_l9]
     [w_tk (w_ub 4002 8) 70, w_tk (w_up 4001 9) 70, w_tk (w_up 4001 9) 70, w_tk (w_up 4002 8) 70] 2 3"

definition w_tm5 :: "string linkManager" where
  "w_tm5 = w_lm [w_lb] [w_lb, w_la, w_l9]
     [w_tk (w_ub 4002 8) 70, w_tk (w_up 4001 9) 70, w_tk (w_up 4001 9) 70, w_tk (w_up 4002 8) 70] 0 1"

definition w_tm6 :: "string linkManager" where
  "w_tm6 = w_lm [] [w_lb, w_la, w_l9]
     [w_tk (w_ub 4002 8) 70, w_tk (w_up 4001 9) 70, w_tk (w_up 4001 9) 70, w_tk (w_up 4002 8) 70] 1 0"

definition w_lk5 :: "Uplink \<Rightarrow> Link" where "w_lk5 u = \<lparr>link_up = u, link_local = AddrPort w_addr 5000\<rparr>"

lemmas w_am_eval = w_lm_def w_l9_def w_la_def w_lb_def cleanup_loop.simps h_Size_def h_Put_def h_Pop_def slice_simps
  tk_valid_def w_up_def w_ub_def ap_valid_def w_new_port w_lk5_def put_uplink_def put_downlink_def

lemma w_sweeps:
  "cleanup_loop (\<lambda>_. 70) 0 0 w_tm0 [] = Some (w_tm1, [])"
  "cleanup_loop (\<lambda>_. 70) 0 0 w_tm1 [] = Some (w_tm2, [])"
  "cleanup_loop (\<lambda>_. 1000) 0 0 w_tm4 [] = Some (w_tm5, [w_lk5 (w_up 4001 9), w_lk5 (w_up 4002 8)])"
  "cleanup_loop (\<lambda>_. 1000) 0 0 w_tm5 [] = Some (w_tm6, [w_lk5 (w_ub 4002 8)])"
     apply (simp add: w_tm0_def w_tm1_def w_am_eval)
    apply (simp add: w_tm1_def w_tm2_def w_am_eval)
   apply (simp add: w_tm4_def w_tm5_def w_am_eval; auto simp: fun_eq_iff)
  apply (simp add: w_tm5_def w_tm6_def w_am_eval; auto simp: fun_eq_iff)
  done

lemma w_puts:
  "put_uplink 70 w_tm2 (w_up 4002 8) 5000 = Some t \<Longrightarrow> put_downlink t (w_up 4002 8) ''c1'' 5000 = w_tm3"
  "put_uplink 70 w_tm3 (w_ub 4002 8) 5000 = Some t \<Longrightarrow> put_downlink t (w_ub 4002 8) ''c2'' 5000 = w_tm4"
  "put_uplink 70 w_tm2 (w_up 4002 8) 5000 \<noteq> None" "put_uplink 70 w_tm3 (w_ub 4002 8) 5000 \<noteq> None"
  by (auto simp: w_tm2_def w_tm3_def w_tm4_def w_am_eval)

lemma w_tm_free:
  "uplinkMap w_tm0 (w_up 4002 8) = None" "uplinkMap w_tm0 (w_ub 4002 8) = None"
  "uplinkMap w_tm4 (w_up 4003 7) = None" "uplinkMap w_tm4 (w_ub 4003 7) = None"
  by (simp_all add: w_tm0_def w_tm4_def w_am_eval w_remote_def)

lemma w_tm0_inv: "lm_inv (w_ad [(5000, [w_remote 9])]) w_tm0"
proof -
  have i: "lm_inv (w_ad []) (w_lm [] [] [zero_ttlkey, zero_ttlkey, zero_ttlkey, zero_ttlkey] 0 0)"
    using w_lk_t0_inv unfolding w_lk_t0_eq .
  have "up_proto (w_up 4001 9) = TCP" "ap_valid (up_process (w_up 4001 9))" by (simp_all add: w_up_def ap_valid_def)
  then obtain ap t r where a: "lm_Add (w_ad []) (w_ae [] 5000 60) (w_lm [] [] [zero_ttlkey, zero_ttlkey, zero_ttlkey, zero_ttlkey] 0 0)
      (w_up 4001 9) ''c1'' = Some (ap, t, r)" "lm_inv ap t"
    using lm_Add_ok [OF i w_race_envs(1), of "''c1''"] by (auto simp: w_lm_def)
  with w_add1 show ?thesis unfolding w_tm0_def w_l9_def by simp
qed

definition w_am0 :: "string am_state" where
  "w_am0 = w_am [AmIdle, AmIdle] (w_ad [(5000, [w_remote 9])]) w_tm0"

definition w_am_shared :: "string am_state" where
  "w_am_shared = w_am [AmDone (w_up 4002 8) 5000, AmDone (w_ub 4002 8) 5000] (w_ad [(5000, [w_remote 8, w_remote 9])]) w_tm4"

text \<open>The second client is about to release the port that the first has released already.\<close>

definition w_am_end :: "string am_state" where
  "w_am_end = w_am [AmSock (w_up 4003 7) ''c1'' TCP 5000 [], AmDel (w_ub 4003 7) ''c2'' [(TCP, 5000, w_remote 8)]]
     (\<lparr>mgr = mgr (fst (w_ad [(5000, [])])), ports = Map.empty\<rparr>, snd (w_ad [(5000, [])]))
     (cleanup_downlinks (cleanup_downlinks w_tm6 [w_lk5 (w_up 4001 9), w_lk5 (w_up 4002 8)]) [w_lk5 (w_ub 4002 8)])"

lemma w_am0_init: "am_init w_am0"
  using w_tm0_inv by (auto simp: am_init_def w_am0_def w_am_def nth_Cons fun_eq_iff split: nat.splits)

lemma w_cl2_inj: "inj_on w_cl2 {0, 1}"
  by (simp add: w_cl2_def)

lemma w_cl2_asks: "lk_asks (w_cl2 0) (w_up p n)" "lk_asks (w_cl2 1) (w_ub p n)"
  by (simp_all add: lk_asks_def w_cl2_def w_up_def w_ub_def)

lemma w_am_fst [simp]: "up_proto (w_up p n) = TCP" "up_proto (w_ub p n) = TCP"
  "up_server (w_up p n) = w_remote n" "up_server (w_ub p n) = w_remote n"
  by (simp_all add: w_up_def w_ub_def)

lemma w_am_ranges: "range_of (ports (fst (w_ad [(5000, [w_remote 9])]))) (w_ord [(5000, [w_remote 9])])"
  "getport_scan (w_ord [(5000, [w_remote 9])]) TCP (w_remote 8) = 5000"
  by (simp_all add: w_ad_def w_ord_def range_of_def)

lemma w_am_stores:
  "getport_record (fst (w_ad [(5000, [w_remote 9])])) TCP 5000 (w_remote 8) = fst (w_ad [(5000, [w_remote 8, w_remote 9])])"
  "getport_record (fst (w_ad [(5000, [w_remote 8, w_remote 9])])) TCP 5000 (w_remote 8) = fst (w_ad [(5000, [w_remote 8, w_remote 9])])"
proof -
  have "as_Add \<lparr>addrs = [w_remote 8, w_remote 9]\<rparr> (w_remote 8) = \<lparr>addrs = [w_remote 8, w_remote 9]\<rparr>"
    by (simp add: as_Add_def) code_simp
  then show "getport_record (fst (w_ad [(5000, [w_remote 8, w_remote 9])])) TCP 5000 (w_remote 8) = fst (w_ad [(5000, [w_remote 8, w_remote 9])])"
    by (simp add: getport_record_def w_ad_def)
qed (simp add: getport_record_def w_ad_def w_sets)

lemma w_am_dels:
  "delport_map (w_ad [(5000, [w_remote 8, w_remote 9])]) TCP 5000 (w_remote 9) = Some (w_ad [(5000, [w_remote 8])], False)"
  "delport_map (w_ad [(5000, [w_remote 8])]) TCP 5000 (w_remote 8)
     = Some ((\<lparr>mgr = mgr (fst (w_ad [(5000, [])])), ports = Map.empty\<rparr>, snd (w_ad [(5000, [])])), True)"
proof -
  have "as_Del \<lparr>addrs = [w_remote 8, w_remote 9]\<rparr> (w_remote 9) = \<lparr>addrs = [w_remote 8]\<rparr>"
    by (simp add: as_Del_def as_Find_def sort_search.simps go_copy_def) code_simp
  then show "delport_map (w_ad [(5000, [w_remote 8, w_remote 9])]) TCP 5000 (w_remote 9) = Some (w_ad [(5000, [w_remote 8])], False)"
    by (simp add: delport_map_def w_ad_def as_Len_def)
  show "delport_map (w_ad [(5000, [w_remote 8])]) TCP 5000 (w_remote 8)
     = Some ((\<lparr>mgr = mgr (fst (w_ad [(5000, [])])), ports = Map.empty\<rparr>, snd (w_ad [(5000, [])])), True)"
    by (simp add: delport_map_def w_ad_def as_Len_def w_sets)
qed

lemma w_run_shared: "w_run w_am0 w_am_shared"
proof -
  let ?a = "w_up 4002 8" and ?b = "w_ub 4002 8"
  let ?ap = "w_ad [(5000, [w_remote 9])]" and ?ap' = "w_ad [(5000, [w_remote 8, w_remote 9])]"
  have st: "(getport_record (fst ?ap) TCP 5000 (w_remote 8), snd ?ap) = ?ap'"
    "(getport_record (fst ?ap') TCP 5000 (w_remote 8), snd ?ap') = ?ap'"
    unfolding w_am_stores by (simp_all add: w_ad_def)
  obtain t3 t4 where t: "put_uplink 70 w_tm2 ?a 5000 = Some t3" "put_uplink 70 w_tm3 ?b 5000 = Some t4"
    using w_puts(3,4) by blast
  have "w_run w_am0 (w_am [AmIdle, AmIdle] ?ap w_tm0)" unfolding w_am0_def by (rule am_reach.start)
  from w_miss [OF this, of 0 ?a "''c1''"] have "w_run w_am0 (w_am [AmMiss ?a ''c1'', AmIdle] ?ap w_tm0)"
    by (simp add: w_cl2_asks w_tm_free)
  from w_miss [OF this, of 1 ?b "''c2''"] have "w_run w_am0 (w_am [AmMiss ?a ''c1'', AmMiss ?b ''c2''] ?ap w_tm0)"
    by (simp add: w_cl2_asks [unfolded One_nat_def] w_tm_free)
  from w_sweep [OF this, of 0, OF _ _ _ w_sweeps(1)] have "w_run w_am0 (w_am [AmSwept ?a ''c1'' [], AmMiss ?b ''c2''] ?ap w_tm1)"
    by simp
  from w_sweep [OF this, of 1, OF _ _ _ w_sweeps(2)] have "w_run w_am0 (w_am [AmSwept ?a ''c1'' [], AmSwept ?b ''c2'' []] ?ap w_tm2)"
    by simp
  from w_got [OF this, of 0, OF _ _ _ w_am_ranges(1)] have "w_run w_am0 (w_am [AmGot ?a ''c1'' 5000, AmSwept ?b ''c2'' []] ?ap w_tm2)"
    by (simp add: w_am_ranges)
  from w_got [OF this, of 1, OF _ _ _ w_am_ranges(1)] have "w_run w_am0 (w_am [AmGot ?a ''c1'' 5000, AmGot ?b ''c2'' 5000] ?ap w_tm2)"
    by (simp add: w_am_ranges)
  from w_store [OF this, of 0 ?a "''c1''" 5000 ?ap'] st have "w_run w_am0 (w_am [AmPut ?a ''c1'' 5000, AmGot ?b ''c2'' 5000] ?ap' w_tm2)"
    by simp
  from w_store [OF this, of 1 ?b "''c2''" 5000 ?ap'] st have "w_run w_am0 (w_am [AmPut ?a ''c1'' 5000, AmPut ?b ''c2'' 5000] ?ap' w_tm2)"
    by simp
  from w_put [OF this, of 0, OF _ _ _ t(1)] have "w_run w_am0 (w_am [AmDone ?a 5000, AmPut ?b ''c2'' 5000] ?ap' w_tm3)"
    by (simp add: w_puts(1) [OF t(1)])
  from w_put [OF this, of 1, OF _ _ _ t(2)] show ?thesis
    by (simp add: w_am_shared_def w_puts(2) [OF t(2)])
qed

lemma w_run_end: "w_run w_am_shared w_am_end"
proof -
  let ?a = "w_up 4003 7" and ?b = "w_ub 4003 7" and ?ap = "w_ad [(5000, [w_remote 8, w_remote 9])]"
  let ?la = "[w_lk5 (w_up 4001 9), w_lk5 (w_up 4002 8)]" and ?lb = "[w_lk5 (w_ub 4002 8)]"
  let ?ta = "[(TCP, 5000 :: u16, w_remote 9), (TCP, 5000, w_remote 8)]" and ?tb = "[(TCP, 5000 :: u16, w_remote 8)]"
  have tr: "map link_triple ?la = ?ta" "map link_triple ?lb = ?tb" by (simp_all add: link_triple_def w_lk5_def)
  have "w_run w_am_shared w_am_shared" by (rule am_reach.start)
  then have "w_run w_am_shared (w_am [AmDone (w_up 4002 8) 5000, AmDone (w_ub 4002 8) 5000] ?ap w_tm4)" by (simp add: w_am_shared_def)
  from w_sent [OF this, of 0] have "w_run w_am_shared (w_am [AmIdle, AmDone (w_ub 4002 8) 5000] ?ap w_tm4)" by simp
  from w_sent [OF this, of 1] have "w_run w_am_shared (w_am [AmIdle, AmIdle] ?ap w_tm4)" by simp
  from w_miss [OF this, of 0 ?a "''c1''"] have "w_run w_am_shared (w_am [AmMiss ?a ''c1'', AmIdle] ?ap w_tm4)"
    by (simp add: w_cl2_asks w_tm_free)
  from w_miss [OF this, of 1 ?b "''c2''"] have "w_run w_am_shared (w_am [AmMiss ?a ''c1'', AmMiss ?b ''c2''] ?ap w_tm4)"
    by (simp add: w_cl2_asks [unfolded One_nat_def] w_tm_free)
  from w_sweep [OF this, of 0, OF _ _ _ w_sweeps(3)] have "w_run w_am_shared (w_am [AmSwept ?a ''c1'' ?la, AmMiss ?b ''c2''] ?ap w_tm5)"
    by simp
  from w_sweep [OF this, of 1, OF _ _ _ w_sweeps(4)] have "w_run w_am_shared (w_am [AmSwept ?a ''c1'' ?la, AmSwept ?b ''c2'' ?lb] ?ap w_tm6)"
    by simp
  from w_downlinks [OF this, of 0]
  have "w_run w_am_shared (w_am [AmDel ?a ''c1'' ?ta, AmSwept ?b ''c2'' ?lb] ?ap (cleanup_downlinks w_tm6 ?la))"
    by (simp add: tr del: cleanup_downlinks.simps list.map)
  from w_downlinks [OF this, of 1]
  have "w_run w_am_shared (w_am [AmDel ?a ''c1'' ?ta, AmDel ?b ''c2'' ?tb] ?ap (cleanup_downlinks (cleanup_downlinks w_tm6 ?la) ?lb))"
    by (simp add: tr del: cleanup_downlinks.simps list.map)
  from w_release [OF this, of 0, OF _ _ w_am_dels(1)]
  have "w_run w_am_shared (w_am [AmDel ?a ''c1'' ?tb, AmDel ?b ''c2'' ?tb] (w_ad [(5000, [w_remote 8])]) (cleanup_downlinks (cleanup_downlinks w_tm6 ?la) ?lb))"
    by (simp del: cleanup_downlinks.simps)
  from w_release [OF this, of 0, OF _ _ w_am_dels(2)] show ?thesis
    by (simp add: w_am_end_def del: cleanup_downlinks.simps)
qed

section \<open>Property\<close>

text \<open>
  C16. The calls of clients with pairwise different addresses, interleaved at every lock of the
  manager and of its port adapter: each live uplink keeps exactly one entry of the queue, and
  of all the sections that could panic (the sweep, the insertion, the search for a port) only
  one can, the release of a port whose record is gone. That one does happen: two clients with
  different addresses that ask for one server at once can both be handed one port; the
  replies to the first then go to the connection of the second, and when both links have
  expired the second release of the port finds no record and panics.
\<close>

theorem link_sections_interleave:
  assumes "inj_on cl N" "am_init s0" "am_reach N cl s0 s"
  shows "queue_inv (am_t s)
    \<and> (am_panics s i \<longleftrightarrow> (\<exists>up c pr p r xs. am_pcs s i = AmDel up c ((pr, p, r) # xs)
         \<and> ports (fst (am_ap s)) (PortKey (ucast pr) p) = None))
    \<and> (inj_on w_cl2 {0, 1} \<and> am_init w_am0
         \<and> am_reach {0, 1} w_cl2 w_am0 w_am_shared
         \<and> am_pcs w_am_shared 0 = AmDone (w_up 4002 8) 5000
         \<and> am_pcs w_am_shared 1 = AmDone (w_ub 4002 8) 5000
         \<and> lm_Downlink (am_t w_am_shared) (down_key w_addr (w_up 4002 8) 5000) = Some (''c2'', 4002)
         \<and> am_reach {0, 1} w_cl2 w_am_shared w_am_end \<and> am_panics w_am_end 1)"
proof (intro conjI)
  have inv: "am_inv N cl s" by (rule am_reach_inv [OF assms(3,1) am_init_inv [OF assms(2)]])
  then show "queue_inv (am_t s)" by (simp add: am_inv_def)
  show "am_panics s i \<longleftrightarrow> (\<exists>up c pr p r xs. am_pcs s i = AmDel up c ((pr, p, r) # xs)
     \<and> ports (fst (am_ap s)) (PortKey (ucast pr) p) = None)" by (rule am_inv_panics [OF inv])
  show "lm_Downlink (am_t w_am_shared) (down_key w_addr (w_up 4002 8) 5000) = Some (''c2'', 4002)"
    by (simp add: w_am_shared_def w_tm4_def w_am_eval lm_Downlink_def down_key_def)
  show "am_panics w_am_end 1" by (simp add: am_panics_def w_am_end_def w_am_def delport_map_None)
  show "inj_on w_cl2 {0, 1}" "am_init w_am0" "am_reach {0, 1} w_cl2 w_am0 w_am_shared" "am_reach {0, 1} w_cl2 w_am_shared w_am_end"
    by (rule w_cl2_inj w_am0_init w_run_shared w_run_end)+
qed (simp_all add: w_am_shared_def)

theorem link_sections_interleave_witness:
  "queue_inv (am_t w_am_shared) \<and> \<not> am_panics w_am_shared 0"
  using link_sections_interleave [OF w_cl2_inj w_am0_init w_run_shared, of 0] by (simp add: w_am_shared_def)

end
