(* ===== verification/Client_Run.thy ===== *)
theory Client_Run
  imports Proxy_Props
begin

text \<open>
  Whole runs of the client: the goroutines that \<open>Run\<close> of \<open>client.go\<close> starts, whose rounds come
  in any order, until one of them closes the client. What the client sends is what the server
  takes for well-typed input, and the other way round.
\<close>

section \<open>Rounds\<close>

datatype 'p cl_event =
    Captured 'p cl_env
  | Received defaultSession 'p cl_env

definition cl_round :: "gvisor \<Rightarrow> 'p packet_api \<Rightarrow> client \<Rightarrow> 'p cl_event \<Rightarrow> (client \<times> flow) option" where
  "cl_round G P c ev =
     (case ev of
        Captured ip env \<Rightarrow> uplink_round G P c ip env
      | Received peer pkt env \<Rightarrow> downlink_round G P c peer pkt env)"

inductive cl_run :: "gvisor \<Rightarrow> 'p packet_api \<Rightarrow> ('p cl_event \<Rightarrow> bool) \<Rightarrow> client \<Rightarrow> client \<Rightarrow> bool" for G P ok c0 where
  start: "cl_run G P ok c0 c0"
| round: "cl_run G P ok c0 c \<Longrightarrow> \<not> cl_closed c \<Longrightarrow> ok ev \<Longrightarrow> cl_round G P c ev = Some (c', f) \<Longrightarrow> cl_run G P ok c0 c'"

section \<open>Types\<close>

text \<open>A segment that travels between client and server: a valid peer, a complete transport
  header, and room for an IP header.\<close>

definition seg_typed :: "defaultSession \<Rightarrow> bytes \<Rightarrow> bool" where
  "seg_typed peer b \<longleftrightarrow> ds_Valid (Some peer) \<and> min_hdr (ds_proto peer) \<le> length b \<and> length b + 20 < 65536"

text \<open>A packet for the client's process.\<close>

definition injected_typed :: "addr \<Rightarrow> bytes \<Rightarrow> bool" where
  "injected_typed laddr ip \<longleftrightarrow> v4_wf ip \<and> hdr_sum_ok ip \<and> window (16, 4) ip = addr_slice laddr
     \<and> (\<exists>peer. ds_Valid (Some peer) \<and> window (12, 4) ip = addr_slice (ds_dst peer)
         \<and> seg_sum_ok (ds_proto peer) (window (12, 4) ip) (window (16, 4) ip) (v4_seg ip))"

definition cl_typed :: "client \<Rightarrow> bool" where
  "cl_typed c \<longleftrightarrow> addr_is4 (cl_laddr c) \<and> (\<forall>(peer, b) \<in> set (cl_sent c). seg_typed peer b)
     \<and> (\<forall>ip \<in> set (cl_injected c). injected_typed (cl_laddr c) ip)"

text \<open>What the capturer delivers: whole IPv4 packets with a complete transport header.\<close>

definition cap_ok :: "bytes \<Rightarrow> bool" where
  "cap_ok b \<longleftrightarrow> v4_wf b \<and> v4_total b = length b \<and> (ucast (b ! 9) = TCP \<or> ucast (b ! 9) = (UDP :: proto))
     \<and> min_hdr (ucast (b ! 9)) \<le> length (v4_seg b)"

definition cl_ev_ok :: "'p packet_api \<Rightarrow> 'p cl_event \<Rightarrow> bool" where
  "cl_ev_ok P ev = (case ev of
     Captured ip env \<Rightarrow> cap_ok (p_bytes P ip)
   | Received peer pkt env \<Rightarrow> seg_typed peer (p_bytes P pkt))"

section \<open>Progress and preservation\<close>

definition cl_round_typed :: "(client \<times> flow) option \<Rightarrow> bool" where
  "cl_round_typed r \<longleftrightarrow> (\<exists>c f. r = Some (c, f) \<and> (if f = Next then cl_typed c else cl_closed c))"

lemma cl_round_typed_simps [simp]:
  "cl_round_typed (Some (c, Next)) = cl_typed c" "cl_round_typed (Some (c, Stop)) = cl_closed c"
  by (auto simp: cl_round_typed_def)

abbreviation no_err :: cl_env where "no_err \<equiv> \<lparr>ce_pcap = None, ce_out = None\<rparr>"

text \<open>Errors of the environment end a round that goes well without them by closing.\<close>

lemma uplink_env:
  "uplink_round G P c ip no_err = Some (c', Next) \<Longrightarrow>
    uplink_round G P c ip env = Some (c', Next) \<or> uplink_round G P c ip env = Some (cl_close c, Stop)"
  by (auto simp: uplink_round_def bind_eq_Some_conv)

lemma downlink_env:
  "downlink_round G P c peer pkt no_err = Some (c', Next) \<Longrightarrow>
    downlink_round G P c peer pkt env = Some (c', Next) \<or> downlink_round G P c peer pkt env = Some (cl_close c, Stop)"
  by (auto simp: downlink_round_def bind_eq_Some_conv Let_def)

lemma cl_close_closed [simp]: "cl_closed (cl_close c)"
  by (simp add: cl_close_def)

lemma uplink_typed:
  assumes G: "gvisor_laws G" and P: "packet_laws P" and c: "cl_typed c" and ok: "cap_ok (p_bytes P ip)"
  shows "cl_round_typed (uplink_round G P c ip env)"
proof -
  let ?b = "p_bytes P ip" and ?pr = "ucast (p_bytes P ip ! 9) :: proto"
  let ?seg = "client_seg ?pr (addr_slice (v4_addr ?b 16)) (v4_seg ?b)"
  have b: "v4_wf ?b" "v4_total ?b = length ?b" "?pr = TCP \<or> ?pr = UDP" "min_hdr ?pr \<le> length (v4_seg ?b)"
    using ok by (simp_all add: cap_ok_def)
  have "uplink_round G P c ip no_err = Some (c\<lparr>cl_sent := cl_sent c @ [(\<lparr>ds_proto = ?pr, ds_dst = v4_addr ?b 16\<rparr>, ?seg)]\<rparr>, Next)"
    by (rule uplink_sends [OF G P b(1-3) refl b(4)]) simp_all
  moreover have "length ?b < 65536"
    using unsigned_less [where ?'a = nat, of "get16 ?b 2"] b(2) by (simp add: v4_total_def)
  then have "seg_typed \<lparr>ds_proto = ?pr, ds_dst = v4_addr ?b 16\<rparr> ?seg"
    using b v4_wfD(6) [OF b(1)] by (auto simp: seg_typed_def ds_Valid_def v4_addr_def client_seg_def v4_wf_def)
  with c have "cl_typed (c\<lparr>cl_sent := cl_sent c @ [(\<lparr>ds_proto = ?pr, ds_dst = v4_addr ?b 16\<rparr>, ?seg)]\<rparr>)"
    by (auto simp: cl_typed_def)
  ultimately show ?thesis using uplink_env [of G P c ip _ env] by (metis cl_close_closed cl_round_typed_simps)
qed

lemma downlink_typed:
  assumes G: "gvisor_laws G" and P: "packet_laws P" and c: "cl_typed c" and ok: "seg_typed peer (p_bytes P pkt)"
  shows "cl_round_typed (downlink_round G P c peer pkt env)"
proof -
  have pr: "ds_proto peer = TCP \<or> ds_proto peer = UDP" "addr_is4 (ds_dst peer)" "addr_is4 (cl_laddr c)"
    "min_hdr (ds_proto peer) \<le> length (p_bytes P pkt)" "length (p_bytes P pkt) + 20 < 65536" "ds_Valid (Some peer)"
    using ok c by (auto simp: seg_typed_def ds_Valid_def cl_typed_def)
  obtain ip where ip: "downlink_round G P c peer pkt no_err = Some (c\<lparr>cl_injected := cl_injected c @ [ip]\<rparr>, Next)"
    "v4_wf ip" "hdr_sum_ok ip" "seg_sum_ok (ds_proto peer) (addr_slice (ds_dst peer)) (addr_slice (cl_laddr c)) (v4_seg ip)"
    "window (12, 4) ip = addr_slice (ds_dst peer)" "window (16, 4) ip = addr_slice (cl_laddr c)"
    using downlink_injects [OF G P pr(1,3,2,4,5), of no_err] by auto
  have "injected_typed (cl_laddr c) ip" using ip(2-6) pr(6) by (auto simp: injected_typed_def)
  with c have "cl_typed (c\<lparr>cl_injected := cl_injected c @ [ip]\<rparr>)" by (auto simp: cl_typed_def)
  with downlink_env [OF ip(1), of env] show ?thesis by auto
qed

lemma cl_round_progress:
  "gvisor_laws G \<Longrightarrow> packet_laws P \<Longrightarrow> cl_typed c \<Longrightarrow> cl_ev_ok P ev \<Longrightarrow> cl_round_typed (cl_round G P c ev)"
  using uplink_typed [of G P c] downlink_typed [of G P c]
  by (cases ev) (simp_all add: cl_ev_ok_def cl_round_def)

text \<open>
  C6. Well-typed clients do not go wrong. A client on an IPv4 address that has sent and
  injected nothing yet stays well-typed in every run over well-typed input until it is closed:
  each segment it gives to the connection has a valid peer, a complete transport header and
  room for an IP header, which is what the server takes for granted; each packet it injects is
  a well-formed IPv4 packet to the client with a valid header and a valid transport checksum.
  The next round on such input does not panic; it ends well-typed or closes the client.
\<close>

theorem client_type_sound:
  assumes "gvisor_laws G" "packet_laws P"
    and "addr_is4 (cl_laddr c0)" "cl_sent c0 = []" "cl_injected c0 = []"
    and "cl_run G P (cl_ev_ok P) c0 c" "\<not> cl_closed c"
  shows "cl_typed c \<and> (\<forall>ev. cl_ev_ok P ev \<longrightarrow>
    (\<exists>c' f. cl_round G P c ev = Some (c', f) \<and> (if f = Next then cl_typed c' else cl_closed c')))"
proof -
  have "cl_closed c \<or> cl_typed c" using assms(6)
  proof (induction rule: cl_run.induct)
    case start
    show ?case using assms(3-5) by (simp add: cl_typed_def)
  next
    case (round c ev c' f)
    then have "cl_round_typed (cl_round G P c ev)" using cl_round_progress [OF assms(1,2)] by blast
    with round.hyps(4) show ?case by (auto simp: cl_round_typed_def split: if_splits)
  qed
  with assms(7) have "cl_typed c" by blast
  with cl_round_progress [OF assms(1,2) this] show ?thesis by (simp add: cl_round_typed_def)
qed

theorem client_type_sound_witness:
  "\<exists>c. cl_run rfc framed (cl_ev_ok framed) w_cl c \<and> cl_sent c \<noteq> [] \<and> cl_typed c"
proof -
  let ?ip = "([], w_reply) :: bytes \<times> bytes"
  have b: "p_bytes framed ?ip = w_reply" by (simp add: framed_def)
  have w: "v4_wf w_reply" "ucast (w_reply ! 9) = (TCP :: proto)" "v4_total w_reply = length w_reply"
    using w_reply_to(1) by (simp_all add: reply_to_def w_up_def)
  have l: "min_hdr TCP \<le> length (v4_seg w_reply)" by (simp add: w_reply_to(2) min_hdr_def)
  obtain c where c: "uplink_round rfc framed w_cl ?ip no_err = Some (c, Next)" "cl_sent c \<noteq> []" "\<not> cl_closed c"
    using uplink_sends [OF rfc_laws framed_laws, of ?ip TCP no_err w_cl] b w l by (auto simp: w_cl_def)
  have ok: "cl_ev_ok framed (Captured ?ip no_err)" using b w l by (simp add: cl_ev_ok_def cap_ok_def)
  have "cl_run rfc framed (cl_ev_ok framed) w_cl c"
  proof (rule cl_run.round)
    show "cl_run rfc framed (cl_ev_ok framed) w_cl w_cl" by (rule cl_run.start)
    show "\<not> cl_closed w_cl" by (simp add: w_cl_def)
    show "cl_round rfc framed w_cl (Captured ?ip no_err) = Some (c, Next)" using c(1) by (simp add: cl_round_def)
  qed (rule ok)
  moreover have "addr_is4 (cl_laddr w_cl)" "cl_sent w_cl = []" "cl_injected w_cl = []" by (simp_all add: w_cl_def)
  ultimately show ?thesis using client_type_sound [OF rfc_laws framed_laws, of w_cl c] c(2,3) by blast
qed

end
