(* ===== verification/Gonet_Sock.thy ===== *)
theory Gonet_Sock
  imports Gonet_Close
begin

text \<open>
  The connections of \<open>ustack/gonet/gonet.go\<close> as values: what \<open>NewTCPConn\<close> and \<open>NewUDPConn\<close> set
  up, the dialing functions over \<open>DialTCPWithBind\<close>, and the methods of \<open>UDPConn\<close>.
\<close>

section \<open>TCP\<close>

text \<open>The socket options that matter to the program; the times are in seconds.\<close>

record sock_opts =
  so_keepalive :: bool
  so_idle :: nat
  so_interval :: nat
  so_count :: nat

record TCPConn =
  tp_timer :: deadlineTimer
  tp_opts :: sock_opts

definition NewTCPConn :: "sock_opts \<Rightarrow> TCPConn" where
  "NewTCPConn so =
     (let idle = 3; interval = 1; count = 9;
          so = so\<lparr>so_keepalive := True\<rparr>;
          so = so\<lparr>so_idle := idle\<rparr>;
          so = so\<lparr>so_interval := interval\<rparr>;
          so = so\<lparr>so_count := count\<rparr>
      in \<lparr>tp_timer = dt_init, tp_opts = so\<rparr>)"

text \<open>A local address is bound when it is not the zero value of gVisor's type, which has no
  bytes; the unspecified IPv4 address has four.\<close>

definition local_set :: "addrport \<Rightarrow> bool" where
  "local_set a \<longleftrightarrow> toFullAddr a \<noteq> \<lparr>fa_addr = [], fa_port = 0\<rparr>"

definition DialContextTCP :: "dial_env \<Rightarrow> dial_out \<times> ep_state" where
  "DialContextTCP e = DialTCPWithBind (local_set (AddrPort ipv4_unspecified 0)) e"

text \<open>The background context never ends.\<close>

definition background :: "dial_env \<Rightarrow> dial_env" where
  "background e = e\<lparr>de_ctx := False, de_wake := (case de_wake e of Some (WCtx err) \<Rightarrow> None | w \<Rightarrow> w)\<rparr>"

definition DialTCP :: "dial_env \<Rightarrow> dial_out \<times> ep_state" where
  "DialTCP e = DialContextTCP (background e)"

section \<open>UDP\<close>

definition fullToUDPAddr :: "full_addr \<Rightarrow> bytes \<times> int" where
  "fullToUDPAddr a = (fa_addr a, uint (fa_port a))"

record UDPConn =
  up_timer :: deadlineTimer
  up_ep :: endpoint

definition NewUDPConn :: "endpoint \<Rightarrow> UDPConn" where
  "NewUDPConn ep = \<lparr>up_timer = dt_init, up_ep = ep\<rparr>"

text \<open>\<open>ReadFrom\<close> gives the sender in the form of the standard library, \<open>Read\<close> forgets it.\<close>

definition uc_ReadFromAddr :: "UDPConn \<Rightarrow> ep_error + bytes \<times> full_addr \<Rightarrow> ((ep_error + bytes \<times> full_addr) \<times> wake) list
    \<Rightarrow> (bytes \<times> int) read_out" where
  "uc_ReadFromAddr c first env =
     (case uc_ReadFrom (up_timer c) first env of
        RdBlocked \<Rightarrow> RdBlocked
      | RdErr err \<Rightarrow> RdErr err
      | RdOk b a \<Rightarrow> RdOk b (fullToUDPAddr a))"

definition uc_Read :: "UDPConn \<Rightarrow> ep_error + bytes \<times> full_addr \<Rightarrow> ((ep_error + bytes \<times> full_addr) \<times> wake) list
    \<Rightarrow> unit read_out" where
  "uc_Read c first env =
     (case uc_ReadFromAddr c first env of
        RdBlocked \<Rightarrow> RdBlocked
      | RdErr err \<Rightarrow> RdErr err
      | RdOk b a \<Rightarrow> RdOk b ())"

text \<open>The destination of a datagram: none for \<open>Write\<close>. gVisor takes an address of neither four
  nor sixteen bytes as its zero value; a port wraps to sixteen bits.\<close>

definition AddrFromSlice :: "bytes \<Rightarrow> bytes" where
  "AddrFromSlice b = (if length b = 4 \<or> length b = 16 then b else [])"

definition write_options :: "(bytes \<times> int) option \<Rightarrow> full_addr option" where
  "write_options addr = map_option (\<lambda>(ip, port). \<lparr>fa_addr = AddrFromSlice ip, fa_port = word_of_int port\<rparr>) addr"

definition uc_Write :: "UDPConn \<Rightarrow> (full_addr option \<Rightarrow> nat \<times> ep_error option) \<Rightarrow> (wake \<times> nat \<times> ep_error option) list \<Rightarrow> write_out" where
  "uc_Write c first env = uc_WriteTo (up_timer c) (first (write_options None)) env"

definition uc_RemoteAddr :: "ep_error + full_addr \<Rightarrow> (bytes \<times> int) option" where
  "uc_RemoteAddr r = (case r of Inl err \<Rightarrow> None | Inr a \<Rightarrow> Some (fullToUDPAddr a))"

definition uc_LocalAddr :: "ep_error + full_addr \<Rightarrow> (bytes \<times> int) option" where
  "uc_LocalAddr r = (case r of Inl err \<Rightarrow> None | Inr a \<Rightarrow> Some (fullToUDPAddr a))"

definition uc_newRemoteOpError :: "ep_error + full_addr \<Rightarrow> string \<Rightarrow> (bytes \<times> int) option \<Rightarrow> ep_error \<Rightarrow> op_err" where
  "uc_newRemoteOpError local op remote err =
     \<lparr>oe_op = op, oe_net = ''udp'', oe_source = uc_LocalAddr local, oe_addr = remote, oe_err = err\<rparr>"

definition uc_newOpError :: "ep_error + full_addr \<Rightarrow> string \<Rightarrow> ep_error \<Rightarrow> op_err" where
  "uc_newOpError local op err = uc_newRemoteOpError local op None err"

definition uc_Close :: "UDPConn \<Rightarrow> UDPConn" where
  "uc_Close c = c\<lparr>up_ep := ep_Close (up_ep c)\<rparr>"

section \<open>Facts\<close>

text \<open>Dialing without a local address binds the unspecified one all the same, so that a failing
  bind leaves the endpoint open there too; without a context only the bind can do that.\<close>

lemma local_set_unspecified: "local_set (AddrPort ipv4_unspecified 0)"
  by (simp add: local_set_def toFullAddr_def ipv4_unspecified_def)

lemma local_set_iff: "local_set a \<longleftrightarrow> a \<noteq> AddrPort AddrZero 0"
proof -
  have "addr_slice (ap_addr a) = [] \<longleftrightarrow> ap_addr a = AddrZero" by (cases "ap_addr a") (auto simp: be_bytes_def)
  then show ?thesis by (cases a) (auto simp: local_set_def toFullAddr_def)
qed

lemma DialTCP_leaks: "fst (DialTCP e) = DialErr \<Longrightarrow>
    snd (DialTCP e) = EpOpen \<longleftrightarrow> de_new e = None \<and> de_bind e \<noteq> None"
  using local_set_unspecified
  by (auto simp: DialTCP_def DialContextTCP_def DialTCPWithBind_def background_def dial_end_def
      split: option.splits wake.splits if_splits)

text \<open>The sender that \<open>ReadFrom\<close> reports is a destination that \<open>WriteTo\<close> accepts unchanged.\<close>

lemma read_addr_write:
  "length (fa_addr a) = 4 \<or> length (fa_addr a) = 16 \<Longrightarrow> write_options (Some (fullToUDPAddr a)) = Some a"
  by (auto simp: write_options_def fullToUDPAddr_def AddrFromSlice_def)

lemma uc_Read_bytes: "uc_Read c first env = RdOk b () \<longleftrightarrow> (\<exists>a. uc_ReadFromAddr c first env = RdOk b a)"
  by (auto simp: uc_Read_def split: read_out.splits)

end
