(* ===== verification/Texts.thy ===== *)
theory Texts
  imports Session Link_Types Peer Gonet_Sock
begin

text \<open>
  The texts of addresses and keys: the \<open>String\<close> methods of \<open>session.go\<close>, \<open>links/links.go\<close> and
  \<open>conn/peer.go\<close>, over those of the standard library's \<open>net/netip\<close> and \<open>net\<close>, and
  \<open>netip.MustParseAddrPort\<close>, through which the program turns an address of a socket into one
  it computes with. Reading an IPv6 address is the parameter \<open>six\<close>: the program reads the text
  of an IPv4 socket's address, or of an IPv6 one that holds an IPv4 address. Also the error
  values of \<open>fatun.go\<close>.
\<close>

section \<open>Numbers\<close>

definition digit :: "nat \<Rightarrow> char" where
  "digit n = char_of (if n < 10 then 48 + n else 87 + n)"

function num_text :: "nat \<Rightarrow> nat \<Rightarrow> string" where
  "num_text b n = (if b < 2 \<or> n < b then [digit n] else num_text b (n div b) @ [digit (n mod b)])"
  by pat_completeness auto
termination by (relation "measure snd") auto

declare num_text.simps [simp del]

abbreviation dec :: "nat \<Rightarrow> string" where "dec \<equiv> num_text 10"

fun join :: "string \<Rightarrow> string list \<Rightarrow> string" where
  "join sep [] = []"
| "join sep [x] = x"
| "join sep (x # y # xs) = x @ sep @ join sep (y # xs)"

section \<open>net/netip\<close>

definition ip4_text :: "bytes \<Rightarrow> string" where
  "ip4_text b = join ''.'' (map (\<lambda>x. dec (unat x)) b)"

definition v6u16 :: "128 word \<Rightarrow> nat \<Rightarrow> nat" where
  "v6u16 w i = unat (take_bit 16 (drop_bit (16 * (7 - i)) w))"

text \<open>The first longest run of two or more zero groups, as its start and end.\<close>

definition zero_run :: "nat list \<Rightarrow> nat \<times> nat" where
  "zero_run gs = fold (\<lambda>i (s, e).
     let j = i + length (takeWhile (\<lambda>g. g = 0) (drop i gs)) in
     if 2 \<le> j - i \<and> e - s < j - i then (i, j) else (s, e)) [0..<8] (255, 255)"

definition ip6_text :: "128 word \<Rightarrow> string" where
  "ip6_text w =
     (let gs = map (v6u16 w) [0..<8]; hex = num_text 16; (s, e) = zero_run gs in
      if s = 255 then join '':'' (map hex gs)
      else join '':'' (map hex (take s gs)) @ ''::'' @ join '':'' (map hex (drop e gs)))"

definition zone_text :: "string \<Rightarrow> string" where
  "zone_text z = (if z = [] then [] else ''%'' @ z)"

text \<open>\<open>Addr.String\<close> and \<open>AddrPort.String\<close>.\<close>

fun addr_String :: "addr \<Rightarrow> string" where
  "addr_String AddrZero = ''invalid IP''"
| "addr_String (Addr4 a b c d) = ip4_text [a, b, c, d]"
| "addr_String (Addr6 w z) =
     (if addr_is4in6 w then ''::ffff:'' @ ip4_text (map (\<lambda>k. ucast (drop_bit (8 * (3 - k)) w)) [0..<4]) @ zone_text z
      else ip6_text w @ zone_text z)"

definition ap_String :: "addrport \<Rightarrow> string" where
  "ap_String p =
     (case ap_addr p of
        AddrZero \<Rightarrow> ''invalid AddrPort''
      | Addr4 a b c d \<Rightarrow> addr_String (ap_addr p) @ '':'' @ dec (unat (ap_port p))
      | Addr6 w z \<Rightarrow> ''['' @ addr_String (ap_addr p) @ '']:'' @ dec (unat (ap_port p)))"

definition is_digit :: "char \<Rightarrow> bool" where
  "is_digit c \<longleftrightarrow> c \<in> set ''0123456789''"

text \<open>\<open>ParseAddr\<close> of an IPv4 text: the value and the number of digits of the octet that is
  being read, and the octets before it.\<close>

fun parse4 :: "string \<Rightarrow> nat \<Rightarrow> nat \<Rightarrow> nat list \<Rightarrow> nat list option" where
  "parse4 [] val digs octs = (if length octs < 3 then None else Some (octs @ [val]))"
| "parse4 (c # s) val digs octs =
     (if is_digit c then
        (if digs = 1 \<and> val = 0 then None
         else let val = val * 10 + (of_char c - 48) in
           if 255 < val then None else parse4 s val (digs + 1) octs)
      else if c = CHR ''.'' then
        (if digs = 0 \<or> s = [] then None
         else if length octs = 3 then None
         else parse4 s 0 0 (octs @ [val]))
      else None)"

text \<open>The first of the characters \<open>.\<close>, \<open>:\<close> and \<open>%\<close> decides; \<open>six\<close> reads an IPv6 address.\<close>

definition ParseAddr :: "(string \<Rightarrow> addr option) \<Rightarrow> string \<Rightarrow> addr option" where
  "ParseAddr six s =
     (case dropWhile (\<lambda>c. c \<notin> set ''.:%'') s of
        [] \<Rightarrow> None
      | c # _ \<Rightarrow>
          if c = CHR ''.'' then Option.bind (parse4 s 0 0 []) (\<lambda>f. addr_from4 (map of_nat f))
          else if c = CHR '':'' then six s
          else None)"

fun parse_dec :: "string \<Rightarrow> nat \<Rightarrow> nat option" where
  "parse_dec [] n = Some n"
| "parse_dec (c # s) n = (if is_digit c then parse_dec s (10 * n + (of_char c - 48)) else None)"

definition parse_port :: "string \<Rightarrow> u16 option" where
  "parse_port s = (if s = [] then None
     else Option.bind (parse_dec s 0) (\<lambda>n. if n < 65536 then Some (of_nat n) else None))"

text \<open>\<open>splitAddrPort\<close>: at the last colon, without the brackets of an IPv6 address.\<close>

definition split_last :: "char \<Rightarrow> string \<Rightarrow> (string \<times> string) option" where
  "split_last c s =
     (if c \<in> set s then Some (rev (tl (dropWhile (\<lambda>x. x \<noteq> c) (rev s))), rev (takeWhile (\<lambda>x. x \<noteq> c) (rev s)))
      else None)"

definition splitAddrPort :: "string \<Rightarrow> (string \<times> string \<times> bool) option" where
  "splitAddrPort s = do {
     (ip, port) \<leftarrow> split_last (CHR '':'') s;
     if ip = [] \<or> port = [] then None
     else if hd ip = CHR ''['' then
       (if length ip < 2 \<or> last ip \<noteq> CHR '']'' then None else Some (butlast (tl ip), port, True))
     else Some (ip, port, False)
   }"

definition ParseAddrPort :: "(string \<Rightarrow> addr option) \<Rightarrow> string \<Rightarrow> addrport option" where
  "ParseAddrPort six s = do {
     (ip, port, ipv6) \<leftarrow> splitAddrPort s;
     p \<leftarrow> parse_port port;
     a \<leftarrow> ParseAddr six ip;
     if ipv6 \<and> addr_is4 a then None
     else if \<not> ipv6 \<and> \<not> addr_is4 a then None
     else Some (AddrPort a p)
   }"

section \<open>net\<close>

text \<open>\<open>IP.String\<close>, \<open>JoinHostPort\<close>, and \<open>UDPAddr.String\<close> without a zone, which \<open>TCPAddr\<close> shares.\<close>

definition ip_to4 :: "bytes \<Rightarrow> bytes option" where
  "ip_to4 b =
     (if length b = 4 then Some b
      else if length b = 16 \<and> take 12 b = replicate 10 0 @ [0xff, 0xff] then Some (drop 12 b)
      else None)"

definition IP_String :: "bytes \<Rightarrow> string" where
  "IP_String b =
     (if b = [] then []
      else case ip_to4 b of
        Some q \<Rightarrow> ip4_text q
      | None \<Rightarrow>
          if length b = 16 then ip6_text (be_word b)
          else ''?'' @ concat (map (\<lambda>x. [digit (unat x div 16), digit (unat x mod 16)]) b))"

definition JoinHostPort :: "string \<Rightarrow> string \<Rightarrow> string" where
  "JoinHostPort host port =
     (if CHR '':'' \<in> set host \<or> CHR ''%'' \<in> set host then ''['' @ host @ '']:'' @ port else host @ '':'' @ port)"

definition UDPAddr_String :: "bytes \<Rightarrow> u16 \<Rightarrow> string" where
  "UDPAddr_String ip port = JoinHostPort (IP_String ip) (dec (unat port))"

section \<open>The program's texts\<close>

definition protostr :: "proto \<Rightarrow> string" where
  "protostr num =
     (if num = TCP then ''tcp'' else if num = UDP then ''udp'' else if num = 1 then ''icmp''
      else if num = 58 then ''icmp6'' else ''unknown('' @ dec (unat num) @ '')'')"

definition Session_String :: "Session \<Rightarrow> string" where
  "Session_String s = protostr (s_proto s) @ '':'' @ ap_String (s_src s) @ ''->'' @ ap_String (s_dst s)"

text \<open>\<open>links\<close> has a copy of its own.\<close>

definition links_protostr :: "proto \<Rightarrow> string" where
  "links_protostr num =
     (if num = TCP then ''tcp'' else if num = UDP then ''udp'' else if num = 1 then ''icmp''
      else if num = 58 then ''icmp6'' else ''unknown('' @ dec (unat num) @ '')'')"

definition Uplink_String :: "Uplink \<Rightarrow> string" where
  "Uplink_String d = ''{Process:'' @ ap_String (up_process d) @ '', Proto:'' @ links_protostr (up_proto d)
     @ '', Server:'' @ ap_String (up_server d) @ ''}''"

definition Downlink_String :: "Downlink \<Rightarrow> string" where
  "Downlink_String d = ''{Server:'' @ ap_String (dn_server d) @ '', Proto:'' @ links_protostr (dn_proto d)
     @ '', Local:'' @ ap_String (dn_local d) @ ''}''"

definition Link_String :: "Link \<Rightarrow> string" where
  "Link_String l = ''{Proto:'' @ links_protostr (up_proto (link_up l)) @ '', Process:'' @ ap_String (up_process (link_up l))
     @ '', Local:'' @ ap_String (link_local l) @ '', Server:'' @ ap_String (up_server (link_up l)) @ ''}''"

definition ds_String :: "peer \<Rightarrow> string" where
  "ds_String p =
     (case p of None \<Rightarrow> ''nil''
      | Some s \<Rightarrow>
          (let proto = (if ds_proto s = TCP then ''tcp'' else if ds_proto s = UDP then ''udp''
             else ''unknown('' @ dec (unat (ds_proto s)) @ '')'') in
           addr_String (ds_dst s) @ '':'' @ proto))"

text \<open>The error values of \<open>fatun.go\<close>: text, and the two flags a caller can ask for. An error
  without the method counts as \<open>False\<close>.\<close>

datatype fatun_error = ErrRecvTooManyError | ErrKeepaliveExceeded | ErrNotRecord

fun fe_Error :: "fatun_error \<Rightarrow> string" where
  "fe_Error ErrRecvTooManyError = ''recv too many invalid packet''"
| "fe_Error ErrKeepaliveExceeded = ''keepalive exceeded''"
| "fe_Error ErrNotRecord = ''not record''"

fun fe_Timeout :: "fatun_error \<Rightarrow> bool" where
  "fe_Timeout e = (e = ErrKeepaliveExceeded)"

fun fe_Temporary :: "fatun_error \<Rightarrow> bool" where
  "fe_Temporary e = (e = ErrKeepaliveExceeded \<or> e = ErrNotRecord)"

text \<open>The address of an accepted datagram connection, and the one a connection over it computes
  with: no value where \<open>MustParseAddrPort\<close> panics. \<open>LocalAddr\<close> and the address of a listener are
  read from the text in the same way.\<close>

definition ac_RemoteAddr :: "addrport \<Rightarrow> bytes \<times> u16" where
  "ac_RemoteAddr raddr = (addr_slice (ap_addr raddr), ap_port raddr)"

definition sock_AddrPort :: "(string \<Rightarrow> addr option) \<Rightarrow> bytes \<times> u16 \<Rightarrow> addrport option" where
  "sock_AddrPort six a = ParseAddrPort six (UDPAddr_String (fst a) (snd a))"

definition c_LocalAddr :: "(string \<Rightarrow> addr option) \<Rightarrow> bytes \<times> u16 \<Rightarrow> addrport option" where
  "c_LocalAddr six laddr = sock_AddrPort six laddr"

definition u_AddrPort :: "(string \<Rightarrow> addr option) \<Rightarrow> bytes \<times> u16 \<Rightarrow> addrport option" where
  "u_AddrPort six laddr = sock_AddrPort six laddr"

text \<open>The client's end of the built-in connection: dialing from the local address.\<close>

definition clientFactory :: "(string \<Rightarrow> addr option) \<Rightarrow> bytes \<times> u16 \<Rightarrow> dial_env \<Rightarrow> (dial_out \<times> ep_state) option" where
  "clientFactory six laddr e = map_option (\<lambda>a. DialTCPWithBind (local_set a) e) (c_LocalAddr six laddr)"

section \<open>Reading back\<close>

lemma digit_ok: "n < 10 \<Longrightarrow> is_digit (digit n) \<and> of_char (digit n) - 48 = n"
proof -
  assume "n < 10"
  then have "n \<in> set [0..<10]" by simp
  moreover have "\<forall>n \<in> set [0..<10]. is_digit (digit n) \<and> of_char (digit n) - 48 = n" by code_simp
  ultimately show ?thesis by blast
qed

lemma num_text_small: "n < 10 \<Longrightarrow> dec n = [digit n]"
  by (simp add: num_text.simps [of 10 n])

lemma num_text_step: "10 \<le> n \<Longrightarrow> dec n = dec (n div 10) @ [digit (n mod 10)]"
  by (simp add: num_text.simps [of 10 n])

lemma dec_digits: "(\<forall>c \<in> set (dec n). is_digit c) \<and> dec n \<noteq> []"
proof (induction n rule: less_induct)
  case (less n)
  show ?case
  proof (cases "n < 10")
    case True
    then show ?thesis using digit_ok [of n] by (simp add: num_text_small)
  next
    case False
    then have "n div 10 < n" "10 \<le> n" by simp_all
    with less.IH [of "n div 10"] digit_ok [of "n mod 10"] show ?thesis by (auto simp: num_text_step)
  qed
qed

lemma parse_dec_append: "parse_dec (xs @ ys) n = Option.bind (parse_dec xs n) (parse_dec ys)"
  by (induction xs n rule: parse_dec.induct) auto

lemma parse_dec_text: "parse_dec (dec n) 0 = Some n"
proof (induction n rule: less_induct)
  case (less n)
  show ?case
  proof (cases "n < 10")
    case True
    then show ?thesis using digit_ok [of n] by (simp add: num_text_small)
  next
    case False
    then have "n div 10 < n" "10 \<le> n" by simp_all
    with less.IH [of "n div 10"] digit_ok [of "n mod 10"] show ?thesis
      by (simp add: num_text_step parse_dec_append)
  qed
qed

lemma parse_port_text: "parse_port (dec (unat p)) = Some p"
proof -
  have "unat p < 65536" using unsigned_less [where ?'a = nat, of p] by simp
  then show ?thesis using dec_digits [of "unat p"] by (simp add: parse_port_def parse_dec_text)
qed

lemma parse4_digit:
  assumes "n < 10" "digs = 1 \<longrightarrow> val \<noteq> 0" "val * 10 + n \<le> 255"
  shows "parse4 (digit n # s) val digs octs = parse4 s (val * 10 + n) (digs + 1) octs"
  using assms digit_ok [OF assms(1)] by (auto simp: Let_def)

declare parse4.simps [simp del]

lemma parse4_octet:
  assumes "n < 256"
  shows "\<exists>k > 0. parse4 (dec n @ s) 0 0 octs = parse4 s n k octs"
proof -
  consider "n < 10" | "10 \<le> n" "n < 100" | "100 \<le> n" by linarith
  then show ?thesis
  proof cases
    case 1
    then show ?thesis using parse4_digit [of n 0 0] by (auto simp: num_text_small)
  next
    case 2
    have "parse4 (digit (n div 10) # digit (n mod 10) # s) 0 0 octs = parse4 s n (Suc (Suc 0)) octs"
      using 2 parse4_digit [of "n div 10" 0 0] parse4_digit [of "n mod 10" "Suc 0" "n div 10"] by simp
    then show ?thesis using 2 by (auto simp: num_text_step num_text_small)
  next
    case 3
    have d: "n div 10 div 10 < 10" "n div 10 div 10 \<noteq> 0" "n div 10 div 10 * 10 + n div 10 mod 10 = n div 10"
      "n div 10 * 10 + n mod 10 = n" "n div 10 \<le> 255"
      using 3 assms by simp_all
    have "parse4 (digit (n div 10 div 10) # digit (n div 10 mod 10) # digit (n mod 10) # s) 0 0 octs = parse4 s n (Suc (Suc (Suc 0))) octs"
      using 3 assms d parse4_digit [of "n div 10 div 10" 0 0]
        parse4_digit [of "n div 10 mod 10" "Suc 0" "n div 10 div 10"] parse4_digit [of "n mod 10" "Suc (Suc 0)" "n div 10"]
      by simp
    moreover have "dec (n div 10 div 10) = [digit (n div 10 div 10)]" by (rule num_text_small [OF d(1)])
    ultimately show ?thesis using 3 by (auto simp: num_text_step num_text_small)
  qed
qed

lemma parse4_dot: "0 < k \<Longrightarrow> s \<noteq> [] \<Longrightarrow> length octs \<noteq> 3 \<Longrightarrow>
    parse4 (CHR ''.'' # s) n k octs = parse4 s 0 0 (octs @ [n])"
  by (simp add: parse4.simps(2) [of "CHR ''.''" s] is_digit_def)

lemma ip4_text_eq: "ip4_text [a, b, c, d] =
    dec (unat a) @ CHR ''.'' # dec (unat b) @ CHR ''.'' # dec (unat c) @ CHR ''.'' # dec (unat d)"
  by (simp add: ip4_text_def)

lemma parse4_text: "parse4 (ip4_text [a, b, c, d]) 0 0 [] = Some [unat a, unat b, unat c, unat d]"
proof -
  have n: "dec k \<noteq> []" "unat x < 256" for k and x :: u8
    using dec_digits [of k] unsigned_less [where ?'a = nat, of x] by simp_all
  have oct: "parse4 (dec (unat x) @ CHR ''.'' # s) 0 0 octs = parse4 s 0 0 (octs @ [unat x])" if "s \<noteq> []" "length octs \<noteq> 3"
    for x :: u8 and s octs
    using parse4_octet [OF n(2) [of x], where s = "CHR ''.'' # s" and octs = octs] parse4_dot [OF _ that] by auto
  have "parse4 (dec (unat d) @ []) 0 0 octs = Some (octs @ [unat d])" if "length octs = 3" for octs
    using parse4_octet [OF n(2) [of d], where s = "[]" and octs = octs] that by (auto simp: parse4.simps)
  then show ?thesis using n(1) by (simp add: ip4_text_eq oct)
qed

lemma digit_no_sep: "is_digit c \<Longrightarrow> c \<notin> set ''.:%[''"
  by (auto simp: is_digit_def)

lemma dec_no_sep: "c \<in> set ''.:%['' \<Longrightarrow> c \<notin> set (dec n)"
  using dec_digits [of n] digit_no_sep by blast

lemma ParseAddr_text: "ParseAddr six (ip4_text [a, b, c, d]) = Some (Addr4 a b c d)"
proof -
  have "dropWhile (\<lambda>c. c \<notin> set ''.:%'') (dec n @ CHR ''.'' # s) = CHR ''.'' # s" for n s
    using dec_no_sep [of _ n] by (subst dropWhile_append2) auto
  then show ?thesis
    using parse4_text [of a b c d] unfolding ParseAddr_def ip4_text_eq by simp
qed

lemma split_last_app: "c \<notin> set ys \<Longrightarrow> split_last c (xs @ c # ys) = Some (xs, ys)"
proof -
  assume c: "c \<notin> set ys"
  then have "takeWhile (\<lambda>x. x \<noteq> c) (rev ys @ c # rev xs) = rev ys" "dropWhile (\<lambda>x. x \<noteq> c) (rev ys @ c # rev xs) = c # rev xs"
    by (auto simp: takeWhile_append dropWhile_append)
  then show ?thesis by (simp add: split_last_def)
qed

lemma ParseAddrPort_text: "ParseAddrPort six (ip4_text [a, b, c, d] @ CHR '':'' # dec (unat p)) = Some (AddrPort (Addr4 a b c d) p)"
proof -
  let ?t = "ip4_text [a, b, c, d]"
  have d: "dec n \<noteq> []" "CHR '':'' \<notin> set (dec n)" for n using dec_digits [of n] dec_no_sep [of "CHR '':''" n] by simp_all
  have h: "hd ?t \<noteq> CHR ''['' \<and> ?t \<noteq> []"
    using dec_no_sep [of "CHR ''[''" "unat a"] d(1) [of "unat a"] by (cases "dec (unat a)") (auto simp: ip4_text_eq)
  have "splitAddrPort (?t @ CHR '':'' # dec (unat p)) = Some (?t, dec (unat p), False)"
    using h d(1) by (simp add: splitAddrPort_def split_last_app [OF d(2)])
  then show ?thesis by (simp add: ParseAddrPort_def parse_port_text ParseAddr_text)
qed

section \<open>Properties\<close>

lemma JoinHostPort_ip4: "JoinHostPort (ip4_text [a, b, c, d]) port = ip4_text [a, b, c, d] @ CHR '':'' # port"
proof -
  have "CHR '':'' \<notin> set (ip4_text [a, b, c, d])" "CHR ''%'' \<notin> set (ip4_text [a, b, c, d])"
    using dec_no_sep [of "CHR '':''"] dec_no_sep [of "CHR ''%''"] by (simp_all add: ip4_text_eq)
  then show ?thesis by (simp add: JoinHostPort_def)
qed

lemma be_bytes_take: "take k (be_bytes n w) = map (\<lambda>k. ucast (drop_bit (8 * (n - 1 - k)) w)) [0..<min k n]"
  by (simp add: be_bytes_def take_map min_def)

lemma to4_mapped:
  assumes "addr_is4in6 w"
  shows "ip_to4 (be_bytes 16 w) = addr_as4 (Addr6 w z)"
proof -
  have w: "drop_bit 32 w = 0xffff" using assms by (simp add: addr_is4in6_def)
  have "drop_bit (8 * (15 - k)) w = drop_bit (8 * (11 - k)) 0xffff" if "k < 12" for k
  proof -
    have "8 * (15 - k) = 8 * (11 - k) + 32" using that by simp
    then show ?thesis using w by (simp flip: drop_bit_drop_bit)
  qed
  then have "take 12 (be_bytes 16 w) = map (\<lambda>k. ucast (drop_bit (8 * (11 - k)) (0xffff :: 128 word))) [0..<12]"
    by (simp add: be_bytes_take)
  also have "\<dots> = replicate 10 0 @ [0xff, 0xff]" by code_simp
  finally have "ip_to4 (be_bytes 16 w) = Some (drop 12 (be_bytes 16 w))" by (simp add: ip_to4_def)
  moreover have "drop 12 (be_bytes 16 w) = map (\<lambda>k. ucast (drop_bit (8 * (3 - k)) w)) [0..<4]"
    by (simp add: be_bytes_def drop_map upt_rec [of _ 16] upt_rec [of _ 4])
  ultimately show ?thesis using assms by simp
qed

lemma ip_to4_slice: "addr_as4 a = Some b \<Longrightarrow> ip_to4 (addr_slice a) = Some b"
proof (cases a)
  case (Addr6 w z)
  then show "addr_as4 a = Some b \<Longrightarrow> ip_to4 (addr_slice a) = Some b" using to4_mapped [of w z] by (simp split: if_splits)
qed (auto simp: ip_to4_def)

lemma ap_String_is4: "addr_is4 (ap_addr p) \<Longrightarrow> ParseAddrPort six (ap_String p) = Some p"
  by (cases p; cases "ap_addr p") (auto simp: ap_String_def ParseAddrPort_text)

lemma dec_inj: "dec m = dec n \<longleftrightarrow> m = n"
  by (metis option.inject parse_dec_text)

lemma protostr_inj: "protostr a = protostr b \<Longrightarrow> a = b"
  by (auto simp: protostr_def dec_inj word_unat_eq_iff split: if_splits)

lemma protostr_no_colon: "CHR '':'' \<notin> set (protostr a)"
  using dec_no_sep [of "CHR '':''" "unat a"] by (auto simp: protostr_def)

lemma ap_String_no_dash: "addr_is4 (ap_addr p) \<Longrightarrow> CHR ''-'' \<notin> set (ap_String p)"
proof -
  assume "addr_is4 (ap_addr p)"
  then obtain a b c d where p: "ap_addr p = Addr4 a b c d" by (cases "ap_addr p") auto
  have "\<not> is_digit (CHR ''-'')" by (simp add: is_digit_def)
  then have "CHR ''-'' \<notin> set (dec n)" for n using dec_digits [of n] by blast
  then show ?thesis by (simp add: ap_String_def p ip4_text_eq)
qed

lemma split_first: "c \<notin> set xs \<Longrightarrow> c \<notin> set xs' \<Longrightarrow> xs @ c # ys = xs' @ c # ys' \<Longrightarrow> xs = xs' \<and> ys = ys'"
proof (induction xs arbitrary: xs')
  case Nil
  then show ?case by (cases xs') auto
next
  case (Cons x xs)
  then show ?case by (cases xs') auto
qed

lemma Session_String_inj:
  assumes "Session_String s = Session_String t"
    and "addr_is4 (ap_addr (s_src s))" "addr_is4 (ap_addr (s_dst s))" "addr_is4 (ap_addr (s_src t))" "addr_is4 (ap_addr (s_dst t))"
  shows "s = t"
proof -
  have "protostr (s_proto s) = protostr (s_proto t)
      \<and> ap_String (s_src s) @ CHR ''-'' # CHR ''>'' # ap_String (s_dst s) = ap_String (s_src t) @ CHR ''-'' # CHR ''>'' # ap_String (s_dst t)"
    using split_first [OF protostr_no_colon protostr_no_colon, of "s_proto s" _ "s_proto t"] assms(1) by (simp add: Session_String_def)
  moreover note split_first [OF ap_String_no_dash [OF assms(2)] ap_String_no_dash [OF assms(4)],
      of "CHR ''>'' # ap_String (s_dst s)" "CHR ''>'' # ap_String (s_dst t)"]
  ultimately have e: "protostr (s_proto s) = protostr (s_proto t)" "ap_String (s_src s) = ap_String (s_src t)"
    "ap_String (s_dst s) = ap_String (s_dst t)" by simp_all
  have "s_src s = s_src t" "s_dst s = s_dst t"
    using ap_String_is4 [OF assms(2)] ap_String_is4 [OF assms(4)] ap_String_is4 [OF assms(3)] ap_String_is4 [OF assms(5)] e(2,3)
    by (metis option.inject)+
  with protostr_inj [OF e(1)] show ?thesis by (cases s; cases t) simp
qed

text \<open>
  C9. Addresses survive their texts. Reading the text of an IPv4 address and port gives them
  back. The remote address that a connection computes with, read from the text of the
  socket's, is the client's IPv4 address whether the socket reports it as such or in its
  IPv6 form; it never panics there. And the text of a session between IPv4 addresses
  determines the session.
\<close>

theorem address_text_roundtrip:
  "(addr_is4 (ap_addr p) \<longrightarrow> ParseAddrPort six (ap_String p) = Some p)
    \<and> (addr_as4 (ap_addr p) = Some [a, b, c, d] \<longrightarrow>
        sock_AddrPort six (ac_RemoteAddr p) = Some (AddrPort (Addr4 a b c d) (ap_port p)))
    \<and> (addr_is4 (ap_addr (s_src s)) \<and> addr_is4 (ap_addr (s_dst s)) \<and> addr_is4 (ap_addr (s_src t)) \<and> addr_is4 (ap_addr (s_dst t)) \<longrightarrow>
        Session_String s = Session_String t \<longrightarrow> s = t)"
proof (intro conjI impI)
  show "addr_is4 (ap_addr p) \<Longrightarrow> ParseAddrPort six (ap_String p) = Some p" by (rule ap_String_is4)
next
  assume a: "addr_as4 (ap_addr p) = Some [a, b, c, d]"
  have "addr_slice (ap_addr p) \<noteq> []" using ip_to4_slice [OF a] by (auto simp: ip_to4_def split: if_splits)
  with ip_to4_slice [OF a] show "sock_AddrPort six (ac_RemoteAddr p) = Some (AddrPort (Addr4 a b c d) (ap_port p))"
    by (simp add: sock_AddrPort_def ac_RemoteAddr_def UDPAddr_String_def IP_String_def JoinHostPort_ip4 ParseAddrPort_text)
next
  show "s = t" if "addr_is4 (ap_addr (s_src s)) \<and> addr_is4 (ap_addr (s_dst s)) \<and> addr_is4 (ap_addr (s_src t)) \<and> addr_is4 (ap_addr (s_dst t))"
    "Session_String s = Session_String t"
    using Session_String_inj [OF that(2)] that(1) by blast
qed

theorem address_text_roundtrip_witness:
  "sock_AddrPort (\<lambda>_. None) (ac_RemoteAddr (AddrPort (Addr6 0xffffc0a80007 []) 443)) = Some (AddrPort (Addr4 192 168 0 7) 443)"
proof -
  let ?p = "AddrPort (Addr6 0xffffc0a80007 []) 443"
  have "addr_as4 (ap_addr ?p) = Some [192, 168, 0, 7]" by code_simp
  with address_text_roundtrip [of ?p "\<lambda>_. None" 192 168 0 7 zero_Session zero_Session] show ?thesis by simp
qed

end
