(* ===== verification/Spec2Isabelle.thy ===== *)
theory Spec2Isabelle
  imports Port_Props Link_Props Packet_Props Stack_Props Udp_Props Conn_Props Bpf_Filter Proxy_Props Gonet_Conn
    Listener_Props Setup Gonet_Close Link_Race
    Server_Nat Udp_Steps Link_Steps Client_Run Texts
begin

text \<open>
  Verification library for fatun, a transport-layer proxy in Go.

  \<^bold>\<open>The program.\<close> A client captures the outbound IP packets of one process, strips the IP
  header, puts a five-byte peer header (protocol, remote IPv4 address) in front of the TCP or
  UDP segment and sends it to the proxy server over a datagram connection. The server gives
  each flow a local port, completes the checksum, puts an IP header in front and sends the
  packet raw; a reply is matched by its destination port, loses its IP header and goes back to
  the client, which puts a header in front and injects it. A connection carries a second,
  built-in TCP stream over the same datagrams, run by gVisor's user-mode stack; over it the two
  ends do a TLS handshake and agree on the key that seals the peers' payloads.

  \<^bold>\<open>Conventions.\<close> \<open>Go_Prelude\<close>: a run-time panic is \<open>None\<close>, an error result is \<open>Inl\<close>, machine
  integers are words, a slice is a list with its bounds checks written out. \<open>Texts\<close>: the
  \<open>String\<close> methods, and the texts through which socket addresses become values. What the program
  calls outside the repository is a parameter: packet buffers and protocol headers are records
  of functions with named laws (\<open>Net_Api\<close>, \<open>Gvisor\<close>; instances \<open>framed\<close>, \<open>plain_packet\<close> and
  \<open>rfc\<close> satisfy them), the AEAD cipher and the BPF machine likewise, and the answers of sockets,
  clocks, drivers and endpoints are arguments. A blocking call or a loop over such answers gets
  them as a list, one per call it makes; a call that wants one more has not returned.

  \<^bold>\<open>Layer by layer\<close> (theory: code).

  Foundations. \<open>Netip\<close>: the values of \<open>net/netip\<close> with the order \<open>less\<close> of
  \<open>ports/adapter.go\<close>, an instance of \<open>linorder\<close>. \<open>Ones_Complement\<close>: the checksum of RFC 1071.

  Ports. \<open>Addr_Set\<close>, \<open>Port_Manager\<close>, \<open>Port_Adapter\<close>: \<open>ports/adapter.go\<close>, \<open>ports/manager.go\<close>,
  \<open>ports/ports_linux.go\<close>. One local port serves many remotes; the open sockets of the system are
  a set beside the adapter. \<open>Port_Race\<close> is \<open>GetPort\<close> at the granularity of its lock sections.
  \<open>Port_Props\<close> shows that the address sets refine sets, that \<open>GetPort\<close> and \<open>DelPort\<close> refine the
  allocation of triples, that \<open>Close\<close> releases all, and that concurrent callers can be given
  the same triple. Interfaces: \<open>addr_set\<close>, \<open>port_allocator\<close>.

  Links. \<open>Link_Types\<close>, \<open>Link_Heap\<close>, \<open>Link_Manager\<close>, \<open>Link_Mutx\<close>: \<open>links/links.go\<close>,
  \<open>links/maps/maps.go\<close>, \<open>links/maps/mutx.go\<close>. \<open>Link_Props\<close>: the ring buffer refines a queue
  (interface \<open>fifo\<close>), the packed counter and port do not disturb each other, and \<open>Add\<close> and
  \<open>Cleanup\<close> keep the two maps, the queue and the port adapter consistent, so that a live link
  is routed both ways. \<open>Link_Race\<close>: the lookups and additions of several connections as whole
  calls, and how two connections of one client make a later sweep panic. \<open>Link_Steps\<close>: the same
  calls taken apart at every lock section. Clients with different addresses cannot make the
  sweep panic, but they can be handed one port, lose a route to each other and release the
  port twice.

  Packets. \<open>Session\<close>: \<open>session.go\<close>; \<open>Peer\<close>: \<open>conn/peer.go\<close> (interface \<open>peer_codec\<close>); \<open>Checksum\<close>:
  \<open>checksum/checkusm.go\<close> and \<open>rechecksum\<close> of \<open>client.go\<close>; \<open>Tcp_Mss\<close>: \<open>UpdateTcpMssOption\<close> of
  \<open>client.go\<close>. \<open>Packet_Props\<close>: round trip of the header, five-tuples, the checksum that client
  and server compute in two halves, and the MSS option. The MSS loop has fuel: a TCP header has
  at most 60 bytes, every iteration that makes progress advances by one or more, so 61
  iterations are enough wherever the loop ends; that it ends exactly for progressing options is
  a property itself.

  User-mode stack. \<open>Link_List\<close>, \<open>Link_Endpoint\<close>: \<open>ustack/link/list.go\<close>, \<open>ustack/link/link.go\<close>
  (interface \<open>packet_queue\<close>); \<open>User_Stack\<close>: \<open>ustack/ustack.go\<close> and \<open>ustack/wrap.go\<close>, the
  interface \<open>Ustack\<close> being the chain of wrappers around one shared state. \<open>Stack_Props\<close> and
  \<open>Listener_Props\<close>: a full queue drops the oldest, connections that share a stack each get their
  own packets in order, a wake-up can be lost, capturing traffic does not change it.
  \<open>Gonet_Deadline\<close>, \<open>Gonet_Conn\<close>, \<open>Gonet_Close\<close>: \<open>ustack/gonet/gonet.go\<close>, deadlines against
  timers that run late, the blocking operations, closing and addresses; \<open>Gonet_Sock\<close>: its
  connections as values, dialing without a local address or a context, and \<open>UDPConn\<close>.

  Connections. \<open>Udp_Listener\<close>: \<open>conn/udp\<close>, one socket demultiplexed by remote, its operations
  by themselves and in runs where none overlaps another; \<open>Conn_Data\<close>:
  \<open>Recv\<close>, \<open>Send\<close>, \<open>close\<close> of \<open>conn/conn.go\<close> and \<open>conn/crypto.go\<close>; \<open>Conn_Handshake\<close>: the
  handshake as a step relation of any number of callers and the inbound goroutine;
  \<open>Udp_Race\<close>: \<open>put\<close> of \<open>conn/udp/conn.go\<close> against the user's \<open>Read\<close> and \<open>Close\<close>;
  \<open>Udp_Steps\<close>: the whole listener at its locks, atomics and channel operations, and that no
  segment reaches a connection of another remote whatever overlaps;
  \<open>Conn_Listener\<close>: \<open>NewConn\<close> and \<open>conn/listen.go\<close>. \<open>Udp_Props\<close>, \<open>Conn_Props\<close>,
  \<open>Listener_Props\<close>: what is sent is received, what is received was sealed under its header, no
  caller sees a half-made connection, and what closing reaches.

  Programs. \<open>Server_Loop\<close>: \<open>server.go\<close>; \<open>Bpf_Filter\<close>: \<open>server_linux.go\<close>; \<open>Client_Loop\<close>:
  \<open>client.go\<close> and \<open>client_windows.go\<close>; \<open>Setup\<close>: the constructors and the resources they leave
  open. \<open>Server_Props\<close> shows one side, \<open>Proxy_Props\<close> composes client, tunnel and server: a
  captured packet leaves the server, and a reply reaches the process, with valid checksums and
  its segment unchanged but for the rewritten port and the checksum. \<open>Server_Run\<close>: whole runs of
  the server over any number of connections; no reply reaches a connection that did not ask for
  it, and a server on well-typed input stays well-typed and does not panic. \<open>Server_Nat\<close>: an abstract address
  translator, and that the rounds of the server are its steps. \<open>Client_Run\<close> is the
  client's side: what it sends is well-typed input of the server.

  \<^bold>\<open>Bounds.\<close> \<open>Bpf_Filter\<close> states its equivalence for port lists whose skip offset fits the eight
  bits of a BPF jump (84 ports), and what goes wrong with 85; list lengths, ports and sequence numbers are the code's widths. The
  loops of the link manager terminate by a measure on the queue, \<open>Recv\<close> by the packets that are
  queued or still to arrive.

  \<^bold>\<open>Not modelled.\<close> Logging, debug checks (\<open>debug.Debug()\<close>), the deadlines of \<open>acceptConn\<close>, which
  panic, and constant accessors. Buffer pools are not observable. The search for an endpoint's
  fields by reflection is its outcome, and reading the text of an IPv6 address is a parameter.
  gVisor's TCP, TLS, the packet driver and the process map are not in the repository. Locks are
  left out where an operation holds one for its whole body; where it does not (\<open>GetPort\<close>,
  \<open>Get\<close>, the handshake, timers, the datagram listener, \<open>Add\<close> and \<open>DelPort\<close> of the links) the
  steps between are modelled, in theories of their own. A round of \<open>Server_Run\<close> and of
  \<open>Server_Nat\<close> is one step: what these two show holds as long as the calls of its goroutines do
  not overlap, and \<open>Link_Steps\<close> shows what may happen when they do. Their runs end when a loop
  closes the server. \<open>Close\<close> of the link manager beside running calls is left out.
\<close>

end
